(* ===== verification/Prelude.thy ===== *)
theory Prelude
  imports Main "HOL-Library.Word" "HOL-Library.Sublist" "HOL-Library.Multiset"
begin

unbundle bit_operations_syntax

text \<open>
  Shared ground of the development: the byte and integer types of the Rust code, its checked
  and saturating arithmetic, fixed-width byte encodings of integers, and the list lemmas the
  component theories use.  Sizes (\<^verbatim>\<open>usize\<close>, 64 bits on every supported target) and
  lengths are \<^typ>\<open>nat\<close>, \<^verbatim>\<open>i64\<close> counters are \<^typ>\<open>int\<close>; wherever the code checks,
  saturates or truncates, the width is written out.
\<close>

section \<open>Types and integer operations\<close>

type_synonym byte = "8 word"
type_synonym bytes = "byte list"

named_theorems byte_simps \<open>lengths and values of byte encodings\<close>

definition usize_max :: nat where
  "usize_max = 2 ^ 64 - 1"

definition u64_max :: nat where
  "u64_max = 2 ^ 64 - 1"

definition i64_max :: int where
  "i64_max = 2 ^ 63 - 1"

definition i64_min :: int where
  "i64_min = - (2 ^ 63)"

definition i32_max :: int where
  "i32_max = 2 ^ 31 - 1"

definition usize_saturating_add :: "nat \<Rightarrow> nat \<Rightarrow> nat" where
  "usize_saturating_add a b = min (a + b) usize_max"

definition u64_saturating_add :: "nat \<Rightarrow> nat \<Rightarrow> nat" where
  "u64_saturating_add a b = min (a + b) u64_max"

definition u64_saturating_mul :: "nat \<Rightarrow> nat \<Rightarrow> nat" where
  "u64_saturating_mul a b = min (a * b) u64_max"

definition i64_checked_add :: "int \<Rightarrow> int \<Rightarrow> int option" where
  "i64_checked_add a b = (if i64_min \<le> a + b \<and> a + b \<le> i64_max then Some (a + b) else None)"

definition i64_saturating :: "int \<Rightarrow> int" where
  "i64_saturating a = max i64_min (min i64_max a)"

definition i64_try_from_usize :: "nat \<Rightarrow> int option" where
  "i64_try_from_usize n = (if int n \<le> i64_max then Some (int n) else None)"

definition usize_try_from_i64 :: "int \<Rightarrow> nat option" where
  "usize_try_from_i64 a = (if 0 \<le> a then Some (nat a) else None)"

section \<open>Integers as bytes\<close>

fun le_bytes :: "nat \<Rightarrow> nat \<Rightarrow> bytes" where
  "le_bytes 0 v = []"
| "le_bytes (Suc k) v = word_of_nat v # le_bytes k (v div 256)"

fun le_value :: "bytes \<Rightarrow> nat" where
  "le_value [] = 0"
| "le_value (b # bs) = unat b + 256 * le_value bs"

definition be_bytes :: "nat \<Rightarrow> nat \<Rightarrow> bytes" where
  "be_bytes k v = rev (le_bytes k v)"

definition be_value :: "bytes \<Rightarrow> nat" where
  "be_value bs = le_value (rev bs)"

definition i64_of_nat :: "nat \<Rightarrow> int" where
  "i64_of_nat n = sint (word_of_nat n :: 64 word)"

definition nat_of_i64 :: "int \<Rightarrow> nat" where
  "nat_of_i64 a = unat (word_of_int a :: 64 word)"

definition i64_to_le_bytes :: "int \<Rightarrow> bytes" where
  "i64_to_le_bytes a = le_bytes 8 (nat_of_i64 a)"

definition i64_from_le_bytes :: "bytes \<Rightarrow> int" where
  "i64_from_le_bytes bs = i64_of_nat (le_value bs)"

definition i64_to_be_bytes :: "int \<Rightarrow> bytes" where
  "i64_to_be_bytes a = be_bytes 8 (nat_of_i64 a)"

definition i64_from_be_bytes :: "bytes \<Rightarrow> int" where
  "i64_from_be_bytes bs = i64_of_nat (be_value bs)"

definition u32_to_be_bytes :: "32 word \<Rightarrow> bytes" where
  "u32_to_be_bytes w = be_bytes 4 (unat w)"

definition u32_from_be_bytes :: "bytes \<Rightarrow> 32 word" where
  "u32_from_be_bytes bs = word_of_nat (be_value bs)"

section \<open>Facts on words\<close>

lemma word_xor_eq_0_iff [simp]: "a XOR b = 0 \<longleftrightarrow> a = (b :: 'a :: len word)"
  by (auto simp: bit_eq_iff bit_simps)

lemma unat_minus_1_byte [simp]: "unat (- 1 :: byte) = 255"
  by (simp add: unsigned_minus_1_eq_mask mask_eq_exp_minus_1)

section \<open>Facts on byte encodings\<close>

lemma length_le_bytes [simp]: "length (le_bytes k v) = k"
  by (induction k arbitrary: v) auto

lemma length_be_bytes [simp]: "length (be_bytes k v) = k"
  by (simp add: be_bytes_def)

lemma unat_byte_lt [simp]: "unat (b :: byte) < 256"
  using unsigned_less [of b] by simp

lemma le_value_lt: "le_value bs < 256 ^ length bs"
proof (induction bs)
  case (Cons b bs)
  have "unat b + 256 * le_value bs < 256 + 256 * le_value bs" by simp
  also have "\<dots> \<le> 256 * 256 ^ length bs" using Cons by simp
  finally show ?case by simp
qed simp

lemma unat_byte_of_nat [simp]: "unat (word_of_nat v :: byte) = v mod 256"
  by (simp add: unat_of_nat)

lemma le_value_le_bytes [byte_simps]: "le_value (le_bytes k v) = v mod 256 ^ k"
proof (induction k arbitrary: v)
  case (Suc k)
  have "v mod (256 * 256 ^ k) = 256 * (v div 256 mod 256 ^ k) + v mod 256"
    by (rule mod_mult2_eq)
  then show ?case using Suc by simp
qed simp

lemma le_bytes_le_value [byte_simps]: "le_bytes (length bs) (le_value bs) = bs"
proof (induction bs)
  case (Cons b bs)
  have b: "unat b div 256 = 0" by (simp add: div_less)
  have "unat (word_of_nat (unat b + 256 * le_value bs) :: byte) = unat b"
    by (simp only: unat_byte_of_nat) (simp add: mod_less)
  then have "word_of_nat (unat b + 256 * le_value bs) = (b :: byte)"
    by (simp only: word_unat_eq_iff)
  moreover have "(unat b + 256 * le_value bs) div 256 = le_value bs"
    using b by simp
  ultimately show ?case using Cons by simp
qed simp

lemma be_value_be_bytes [byte_simps]: "be_value (be_bytes k v) = v mod 256 ^ k"
  by (simp add: be_value_def be_bytes_def byte_simps)

lemma be_bytes_be_value [byte_simps]: "be_bytes (length bs) (be_value bs) = bs"
  using le_bytes_le_value [of "rev bs"] by (simp add: be_value_def be_bytes_def)

lemma be_value_lt: "be_value bs < 256 ^ length bs"
  using le_value_lt [of "rev bs"] by (simp add: be_value_def)

lemma u32_be_roundtrip [byte_simps]: "u32_from_be_bytes (u32_to_be_bytes w) = w"
proof -
  have "unat w < 2 ^ 32" using unsigned_less [of w] by simp
  then show ?thesis
    by (simp add: u32_from_be_bytes_def u32_to_be_bytes_def byte_simps)
qed

lemma length_u32_to_be_bytes [simp]: "length (u32_to_be_bytes w) = 4"
  by (simp add: u32_to_be_bytes_def)

lemma length_i64_bytes [simp]:
  "length (i64_to_le_bytes a) = 8" "length (i64_to_be_bytes a) = 8"
  by (simp_all add: i64_to_le_bytes_def i64_to_be_bytes_def)

lemma nat_of_i64_lt: "nat_of_i64 a < 256 ^ 8"
  using unsigned_less [of "word_of_int a :: 64 word"] by (simp add: nat_of_i64_def)

lemma i64_of_nat_nat_of_i64: "i64_min \<le> a \<Longrightarrow> a \<le> i64_max \<Longrightarrow> i64_of_nat (nat_of_i64 a) = a"
  by (simp add: i64_of_nat_def nat_of_i64_def i64_min_def i64_max_def signed_take_bit_int_eq_self_iff
      sint_sbintrunc')

lemma i64_le_roundtrip [byte_simps]:
  "i64_min \<le> a \<Longrightarrow> a \<le> i64_max \<Longrightarrow> i64_from_le_bytes (i64_to_le_bytes a) = a"
  using nat_of_i64_lt [of a]
  by (simp add: i64_from_le_bytes_def i64_to_le_bytes_def byte_simps i64_of_nat_nat_of_i64)

lemma i64_be_roundtrip [byte_simps]:
  "i64_min \<le> a \<Longrightarrow> a \<le> i64_max \<Longrightarrow> i64_from_be_bytes (i64_to_be_bytes a) = a"
  using nat_of_i64_lt [of a]
  by (simp add: i64_from_be_bytes_def i64_to_be_bytes_def byte_simps i64_of_nat_nat_of_i64)

section \<open>Searching in byte strings\<close>

text \<open>\<open>position\<close> and \<open>rposition\<close> are the iterator searches (\<^verbatim>\<open>memchr\<close> and \<^verbatim>\<open>memrchr\<close> for
  single bytes); \<open>strip_prefix\<close> and \<open>split_inclusive\<close> are the slice operations.\<close>

fun position :: "('a \<Rightarrow> bool) \<Rightarrow> 'a list \<Rightarrow> nat option" where
  "position P [] = None"
| "position P (x # xs) = (if P x then Some 0 else map_option Suc (position P xs))"

definition rposition :: "('a \<Rightarrow> bool) \<Rightarrow> 'a list \<Rightarrow> nat option" where
  "rposition P xs = map_option (\<lambda>i. length xs - 1 - i) (position P (rev xs))"

definition strip_prefix :: "'a list \<Rightarrow> 'a list \<Rightarrow> 'a list option" where
  "strip_prefix pre xs = (if take (length pre) xs = pre then Some (drop (length pre) xs) else None)"

fun split_inclusive :: "('a \<Rightarrow> bool) \<Rightarrow> 'a list \<Rightarrow> 'a list list" where
  "split_inclusive P [] = []"
| "split_inclusive P (x # xs) =
    (if P x then [x] # split_inclusive P xs
     else case split_inclusive P xs of [] \<Rightarrow> [[x]] | l # ls \<Rightarrow> (x # l) # ls)"

fun split_on :: "('a \<Rightarrow> bool) \<Rightarrow> 'a list \<Rightarrow> 'a list list" where
  "split_on P [] = [[]]"
| "split_on P (x # xs) = (if P x then [] # split_on P xs else case split_on P xs of l # ls \<Rightarrow> (x # l) # ls | [] \<Rightarrow> [[x]])"

definition is_ascii_whitespace :: "byte \<Rightarrow> bool" where
  "is_ascii_whitespace b \<longleftrightarrow> b = 32 \<or> b = 9 \<or> b = 10 \<or> b = 12 \<or> b = 13"

definition hex_digit :: "byte \<Rightarrow> nat option" where
  "hex_digit b =
    (if 48 \<le> b \<and> b \<le> 57 then Some (unat b - 48)
     else if 97 \<le> b \<and> b \<le> 102 then Some (unat b - 87)
     else if 65 \<le> b \<and> b \<le> 70 then Some (unat b - 55)
     else None)"

definition is_ascii_lowercase :: "byte \<Rightarrow> bool" where
  "is_ascii_lowercase b \<longleftrightarrow> 97 \<le> b \<and> b \<le> 122"

lemma position_None: "position P xs = None \<longleftrightarrow> (\<forall>x \<in> set xs. \<not> P x)"
  by (induction xs) auto

lemma position_Some:
  "position P xs = Some i \<longleftrightarrow> i < length xs \<and> P (xs ! i) \<and> (\<forall>j < i. \<not> P (xs ! j))"
proof (induction xs arbitrary: i)
  case (Cons x xs)
  show ?case
  proof (cases i)
    case (Suc k)
    show ?thesis using Cons [of k] Suc by (auto simp: All_less_Suc2)
  qed (auto simp: Cons)
qed simp

lemma position_split:
  "position P xs = Some i \<longleftrightarrow> (\<exists>ys x zs. xs = ys @ x # zs \<and> length ys = i \<and> P x \<and> (\<forall>y \<in> set ys. \<not> P y))"
proof
  assume "position P xs = Some i"
  then have i: "i < length xs" "P (xs ! i)" "\<forall>j < i. \<not> P (xs ! j)" by (simp_all add: position_Some)
  have "xs = take i xs @ xs ! i # drop (Suc i) xs" using i(1) by (simp add: id_take_nth_drop)
  moreover have "\<forall>y \<in> set (take i xs). \<not> P y" using i(1,3) by (auto simp: in_set_conv_nth)
  ultimately show "\<exists>ys x zs. xs = ys @ x # zs \<and> length ys = i \<and> P x \<and> (\<forall>y \<in> set ys. \<not> P y)"
    using i(1,2) by (metis length_take min.absorb4)
next
  assume "\<exists>ys x zs. xs = ys @ x # zs \<and> length ys = i \<and> P x \<and> (\<forall>y \<in> set ys. \<not> P y)"
  then show "position P xs = Some i" by (auto simp: position_Some nth_append)
qed

lemma rposition_None: "rposition P xs = None \<longleftrightarrow> (\<forall>x \<in> set xs. \<not> P x)"
  by (simp add: rposition_def position_None)

lemma rposition_split:
  assumes "rposition P xs = Some i"
  shows "\<exists>ys x zs. xs = ys @ x # zs \<and> length ys = i \<and> P x \<and> (\<forall>z \<in> set zs. \<not> P z)"
proof -
  obtain k where k: "position P (rev xs) = Some k" "i = length xs - 1 - k"
    using assms by (auto simp: rposition_def)
  then obtain ys x zs where "rev xs = ys @ x # zs" "length ys = k" "P x" "\<forall>y \<in> set ys. \<not> P y"
    using position_split by metis
  moreover from this have "xs = rev zs @ x # rev ys" by (metis append.assoc append_Cons append_Nil rev.simps(2) rev_append rev_rev_ident)
  ultimately show ?thesis using k(2) by (intro exI [of _ "rev zs"] exI [of _ x] exI [of _ "rev ys"]) auto
qed

lemma concat_split_inclusive [simp]: "concat (split_inclusive P xs) = xs"
  by (induction xs) (auto split: list.splits)

lemma split_inclusive_nonempty: "l \<in> set (split_inclusive P xs) \<Longrightarrow> l \<noteq> []"
  by (induction xs arbitrary: l) (auto split: list.splits if_splits)

lemma strip_prefix_Some: "strip_prefix pre xs = Some ys \<longleftrightarrow> xs = pre @ ys"
  by (auto simp: strip_prefix_def) (metis append_take_drop_id)

lemma strip_prefix_None: "strip_prefix pre xs = None \<longleftrightarrow> \<not> prefix pre xs"
  by (cases "strip_prefix pre xs") (use strip_prefix_Some [of pre xs] in \<open>auto simp: prefix_def\<close>)

section \<open>UTF-8\<close>

text \<open>The first character of a byte string as \<^verbatim>\<open>core::str\<close> validates it: whether it is well formed, and how
  many bytes it takes or, if not, the length of its longest well-formed beginning.\<close>

definition continuation :: "byte \<Rightarrow> bool" where
  "continuation b \<longleftrightarrow> 128 \<le> b \<and> b \<le> 191"

definition second_of_three :: "byte \<Rightarrow> byte \<Rightarrow> bool" where
  "second_of_three a b = (if a = 224 then 160 \<le> b \<and> b \<le> 191 else if a = 237 then 128 \<le> b \<and> b \<le> 159 else continuation b)"

definition second_of_four :: "byte \<Rightarrow> byte \<Rightarrow> bool" where
  "second_of_four a b = (if a = 240 then 144 \<le> b \<and> b \<le> 191 else if a = 244 then 128 \<le> b \<and> b \<le> 143 else continuation b)"

definition utf8_char :: "byte \<Rightarrow> bytes \<Rightarrow> bool \<times> nat" where
  "utf8_char a r =
    (if a \<le> 127 then (True, 1)
     else if 194 \<le> a \<and> a \<le> 223 then (case r of b # _ \<Rightarrow> if continuation b then (True, 2) else (False, 1) | [] \<Rightarrow> (False, 1))
     else if 224 \<le> a \<and> a \<le> 239 then
       (case r of [] \<Rightarrow> (False, 1)
        | b # s \<Rightarrow> if \<not> second_of_three a b then (False, 1)
            else (case s of [] \<Rightarrow> (False, 2) | c # _ \<Rightarrow> if continuation c then (True, 3) else (False, 2)))
     else if 240 \<le> a \<and> a \<le> 244 then
       (case r of [] \<Rightarrow> (False, 1)
        | b # s \<Rightarrow> if \<not> second_of_four a b then (False, 1)
            else (case s of [] \<Rightarrow> (False, 2)
                  | c # t \<Rightarrow> if \<not> continuation c then (False, 2)
                      else (case t of [] \<Rightarrow> (False, 3) | d # _ \<Rightarrow> if continuation d then (True, 4) else (False, 3))))
     else (False, 1))"

text \<open>\<^verbatim>\<open>str::from_utf8\<close> succeeds, and \<^verbatim>\<open>String::from_utf8_lossy\<close>: every ill-formed sequence becomes U+FFFD.\<close>

fun valid_utf8 :: "bytes \<Rightarrow> bool" where
  "valid_utf8 [] = True"
| "valid_utf8 (a # r) = (let (ok, n) = utf8_char a r in ok \<and> valid_utf8 (drop (n - 1) r))"

fun from_utf8_lossy :: "bytes \<Rightarrow> bytes" where
  "from_utf8_lossy [] = []"
| "from_utf8_lossy (a # r) =
    (let (ok, n) = utf8_char a r in (if ok then take n (a # r) else [239, 191, 189]) @ from_utf8_lossy (drop (n - 1) r))"

lemma utf8_char_pos: "0 < snd (utf8_char a r)"
  by (simp add: utf8_char_def split: list.split)

lemma from_utf8_lossy_valid: "valid_utf8 bs \<Longrightarrow> from_utf8_lossy bs = bs"
proof (induction bs rule: valid_utf8.induct)
  case (2 a r)
  obtain ok n where u: "utf8_char a r = (ok, n)" by fastforce
  have "0 < n" using utf8_char_pos [of a r] u by simp
  moreover have "ok" "from_utf8_lossy (drop (n - 1) r) = drop (n - 1) r" using 2 u by simp_all
  ultimately show ?case using u by (cases n) simp_all
qed simp

lemma valid_utf8_ascii: "list_all (\<lambda>b. b \<le> 127) bs \<Longrightarrow> valid_utf8 bs"
  by (induction bs) (simp_all add: utf8_char_def)

end
