(* ===== verification/Crypto.thy ===== *)
theory Crypto
  imports Prelude
begin

text \<open>
  \<^verbatim>\<open>crates/et-core/src/crypto.rs\<close> and the libsodium wrapper \<^verbatim>\<open>crates/et-sodium/src/lib.rs\<close>.
  libsodium's \<^verbatim>\<open>crypto_secretbox_easy\<close>, \<^verbatim>\<open>crypto_secretbox_open_easy\<close> and the
  \<^verbatim>\<open>blake2\<close> crate's keyed hash are not part of the repository: they are the fields of the record
  \<open>primitives\<close>, an argument of every operation that uses them, and what is relied on is named
  \<open>sodium_laws\<close> (a sealed box is 16 bytes longer and opens to its message; a box that opens is
  the box of its message, since the cipher is deterministic) and \<open>blake2b_laws\<close> (a key of at
  most 64 bytes gives 32 bytes).

  The locale \<open>sealed_stream\<close> is the contract of a pair of ends that keep in step: what one end
  seals next, the other opens next.  The handler's \<open>encrypt\<close> and \<open>decrypt\<close> satisfy it, and
  so (see the theories of the backed writer and reader) does the packet layer above them.
\<close>

section \<open>Definitions\<close>

definition KEY_LEN :: nat where "KEY_LEN = 32"
definition NONCE_LEN :: nat where "NONCE_LEN = 24"
definition MAC_LEN :: nat where "MAC_LEN = 16"
definition AUTH_CHALLENGE_BYTES :: nat where "AUTH_CHALLENGE_BYTES = 32"
definition EPOCH_SALT_BYTES :: nat where "EPOCH_SALT_BYTES = 32"
definition PROOF_BYTES :: nat where "PROOF_BYTES = 32"
definition DIR_CLIENT_TO_SERVER :: byte where "DIR_CLIENT_TO_SERVER = 0"
definition DIR_SERVER_TO_CLIENT :: byte where "DIR_SERVER_TO_CLIENT = 1"

datatype decrypt_error = DecryptShort | BadMac
datatype encrypt_error = EncryptError
datatype proof_error = ProofError

subsection \<open>The external primitives\<close>

record primitives =
  secretbox_easy :: "bytes \<Rightarrow> bytes \<Rightarrow> bytes \<Rightarrow> bytes"
  secretbox_open_easy :: "bytes \<Rightarrow> bytes \<Rightarrow> bytes \<Rightarrow> bytes option"
  blake2b_mac :: "bytes \<Rightarrow> bytes \<Rightarrow> bytes option"

definition sodium_laws :: "primitives \<Rightarrow> bool" where
  "sodium_laws P \<longleftrightarrow>
     (\<forall>m n k. length (secretbox_easy P m n k) = length m + 16) \<and>
     (\<forall>m n k. secretbox_open_easy P (secretbox_easy P m n k) n k = Some m) \<and>
     (\<forall>c m n k. secretbox_open_easy P c n k = Some m \<longrightarrow> c = secretbox_easy P m n k)"

definition blake2b_laws :: "primitives \<Rightarrow> bool" where
  "blake2b_laws P \<longleftrightarrow>
     (\<forall>k m. length k \<le> 64 \<longrightarrow> (\<exists>d. blake2b_mac P k m = Some d \<and> length d = 32))"

subsection \<open>The libsodium wrapper\<close>

definition secretbox_with_prefix :: "primitives \<Rightarrow> bytes \<Rightarrow> bytes \<Rightarrow> bytes \<Rightarrow> bytes \<Rightarrow> bytes" where
  "secretbox_with_prefix P pre plaintext nonce key = pre @ secretbox_easy P plaintext nonce key"

definition secretbox :: "primitives \<Rightarrow> bytes \<Rightarrow> bytes \<Rightarrow> bytes \<Rightarrow> bytes" where
  "secretbox P plaintext nonce key = secretbox_with_prefix P [] plaintext nonce key"

definition secretbox_open :: "primitives \<Rightarrow> bytes \<Rightarrow> bytes \<Rightarrow> bytes \<Rightarrow> bytes option" where
  "secretbox_open P ciphertext nonce key =
    (if length ciphertext < MAC_LEN then None else secretbox_open_easy P ciphertext nonce key)"

text \<open>The variants over caller buffers return the buffer's new contents; \<open>None\<close> of
  \<open>secretbox_into\<close> is its assertion failing.\<close>

definition secretbox_into :: "primitives \<Rightarrow> bytes \<Rightarrow> bytes \<Rightarrow> bytes \<Rightarrow> bytes \<Rightarrow> (nat \<times> bytes) option" where
  "secretbox_into P out plaintext nonce key =
    (if length out < length plaintext + MAC_LEN then None
     else Some (length plaintext + MAC_LEN,
       secretbox_easy P plaintext nonce key @ drop (length plaintext + MAC_LEN) out))"

definition secretbox_open_into :: "primitives \<Rightarrow> bytes \<Rightarrow> bytes \<Rightarrow> bytes \<Rightarrow> bytes \<Rightarrow> (nat \<times> bytes) option" where
  "secretbox_open_into P out ciphertext nonce key =
    (if length ciphertext < MAC_LEN \<or> length out < length ciphertext - MAC_LEN then None
     else case secretbox_open_easy P ciphertext nonce key of
       None \<Rightarrow> None
     | Some m \<Rightarrow> Some (length ciphertext - MAC_LEN, m @ drop (length ciphertext - MAC_LEN) out))"

definition secretbox_open_in_place :: "primitives \<Rightarrow> bytes \<Rightarrow> bytes \<Rightarrow> bytes \<Rightarrow> (nat \<times> bytes) option" where
  "secretbox_open_in_place P buffer nonce key =
    (if length buffer < MAC_LEN then None
     else case secretbox_open_easy P buffer nonce key of
       None \<Rightarrow> None
     | Some m \<Rightarrow> Some (length buffer - MAC_LEN, m @ drop (length buffer - MAC_LEN) buffer))"

subsection \<open>Hashing and comparison\<close>

definition generichash :: "primitives \<Rightarrow> bytes \<Rightarrow> bytes \<Rightarrow> proof_error + bytes" where
  "generichash P key message =
    (case blake2b_mac P key message of None \<Rightarrow> Inl ProofError | Some d \<Rightarrow> Inr d)"

definition constant_time_eq :: "bytes \<Rightarrow> bytes \<Rightarrow> bool" where
  "constant_time_eq left right =
    (if length left \<noteq> length right then False
     else fold (\<lambda>(a, b) diff. diff OR (a XOR b)) (zip left right) (0 :: byte) = 0)"

subsection \<open>Connection proofs\<close>

definition ascii :: "string \<Rightarrow> bytes" where
  "ascii s = map of_char s"

fun dec_nat :: "nat \<Rightarrow> bytes" where
  "dec_nat n = (if n < 10 then [word_of_nat (48 + n)]
    else dec_nat (n div 10) @ [word_of_nat (48 + n mod 10)])"

definition dec_int :: "int \<Rightarrow> bytes" where
  "dec_int i = (if i < 0 then 45 # dec_nat (nat (- i)) else dec_nat (nat i))"

definition connection_proof_message :: "bytes \<Rightarrow> int \<Rightarrow> bytes \<Rightarrow> bool \<Rightarrow> bytes" where
  "connection_proof_message client_id protocol_version challenge reset_intent =
     ascii ''EternalTerminal connect auth v2'' @ [0] @
     dec_int protocol_version @ [0] @
     dec_nat (length client_id) @ [0] @
     client_id @ [0] @
     dec_nat (length challenge) @ [0] @
     challenge @ [0] @
     [if reset_intent then 49 else 48]"

definition reset_decision_message ::
  "bytes \<Rightarrow> int \<Rightarrow> bytes \<Rightarrow> int \<Rightarrow> bool \<Rightarrow> bytes \<Rightarrow> bytes" where
  "reset_decision_message client_id protocol_version challenge status reset_required reset_salt =
     ascii ''EternalTerminal reset decision v3'' @ [0] @
     dec_int protocol_version @ [0] @
     client_id @ [0] @
     dec_nat (length challenge) @ [0] @
     challenge @ [0] @
     dec_int status @ [0] @
     [if reset_required then 49 else 48] @ [0] @
     dec_nat (length reset_salt) @ [0] @
     reset_salt"

definition connection_proof ::
  "primitives \<Rightarrow> bytes \<Rightarrow> bytes \<Rightarrow> int \<Rightarrow> bytes \<Rightarrow> bool \<Rightarrow> proof_error + bytes" where
  "connection_proof P key client_id protocol_version challenge reset_intent =
    (if length challenge \<noteq> AUTH_CHALLENGE_BYTES then Inl ProofError
     else generichash P key
       (connection_proof_message client_id protocol_version challenge reset_intent))"

definition verify_connection_proof ::
  "primitives \<Rightarrow> bytes \<Rightarrow> bytes \<Rightarrow> bytes \<Rightarrow> int \<Rightarrow> bytes \<Rightarrow> bool \<Rightarrow> bool" where
  "verify_connection_proof P prf key client_id protocol_version challenge reset_intent =
    (if length prf \<noteq> PROOF_BYTES \<or> length challenge \<noteq> AUTH_CHALLENGE_BYTES then False
     else case connection_proof P key client_id protocol_version challenge reset_intent of
       Inl _ \<Rightarrow> False
     | Inr expected \<Rightarrow> constant_time_eq prf expected)"

definition reset_decision_proof ::
  "primitives \<Rightarrow> bytes \<Rightarrow> bytes \<Rightarrow> int \<Rightarrow> bytes \<Rightarrow> int \<Rightarrow> bool \<Rightarrow> bytes \<Rightarrow> proof_error + bytes" where
  "reset_decision_proof P key client_id protocol_version challenge status reset_required reset_salt =
    (if length challenge \<noteq> AUTH_CHALLENGE_BYTES then Inl ProofError
     else if reset_required \<and> length reset_salt \<noteq> EPOCH_SALT_BYTES then Inl ProofError
     else if \<not> reset_required \<and> reset_salt \<noteq> [] then Inl ProofError
     else generichash P key
       (reset_decision_message client_id protocol_version challenge status reset_required reset_salt))"

definition verify_reset_decision_proof ::
  "primitives \<Rightarrow> bytes \<Rightarrow> bytes \<Rightarrow> bytes \<Rightarrow> int \<Rightarrow> bytes \<Rightarrow> int \<Rightarrow> bool \<Rightarrow> bytes \<Rightarrow> bool" where
  "verify_reset_decision_proof P prf key client_id protocol_version challenge status
      reset_required reset_salt =
    (if length prf \<noteq> PROOF_BYTES \<or> length challenge \<noteq> AUTH_CHALLENGE_BYTES then False
     else case reset_decision_proof P key client_id protocol_version challenge status
         reset_required reset_salt of
       Inl _ \<Rightarrow> False
     | Inr expected \<Rightarrow> constant_time_eq prf expected)"

subsection \<open>The handler\<close>

record crypto_handler =
  original_key :: bytes
  base_key :: bytes
  nonce :: bytes
  direction :: byte

definition crypto_new :: "bytes \<Rightarrow> byte \<Rightarrow> crypto_handler" where
  "crypto_new key dir =
    \<lparr>original_key = key, base_key = key,
     nonce = (replicate NONCE_LEN 0)[NONCE_LEN - 1 := dir], direction = dir\<rparr>"

fun bump_nonce :: "bytes \<Rightarrow> bytes" where
  "bump_nonce [] = []"
| "bump_nonce (b # bs) = (if b + 1 \<noteq> 0 then (b + 1) # bs else (b + 1) # bump_nonce bs)"

definition bump :: "crypto_handler \<Rightarrow> crypto_handler" where
  "bump c = c\<lparr>nonce := bump_nonce (nonce c)\<rparr>"

definition rekey :: "primitives \<Rightarrow> bytes \<Rightarrow> crypto_handler \<Rightarrow> proof_error + crypto_handler" where
  "rekey P salt c =
    (if length salt \<noteq> EPOCH_SALT_BYTES then Inl ProofError
     else case generichash P (original_key c) salt of
       Inl e \<Rightarrow> Inl e
     | Inr derived \<Rightarrow> Inr (c\<lparr>base_key := derived,
         nonce := (replicate NONCE_LEN 0)[NONCE_LEN - 1 := direction c]\<rparr>))"

definition encrypt_into ::
  "primitives \<Rightarrow> bytes \<Rightarrow> bytes \<Rightarrow> crypto_handler \<Rightarrow> (encrypt_error + (nat \<times> bytes) option) \<times> crypto_handler" where
  "encrypt_into P out plaintext c =
    (if length out < length plaintext + MAC_LEN then (Inl EncryptError, c)
     else let c' = bump c in
       (Inr (secretbox_into P out plaintext (nonce c') (base_key c')), c'))"

definition decrypt_into ::
  "primitives \<Rightarrow> bytes \<Rightarrow> bytes \<Rightarrow> crypto_handler \<Rightarrow> (nat \<times> bytes) option \<times> crypto_handler" where
  "decrypt_into P out ciphertext c =
    (if length ciphertext < MAC_LEN \<or> length out < length ciphertext - MAC_LEN then (None, c)
     else let c' = bump c in
       case secretbox_open_into P out ciphertext (nonce c') (base_key c') of
         Some r \<Rightarrow> (Some r, c')
       | None \<Rightarrow> (None, c'\<lparr>nonce := nonce c\<rparr>))"

definition decrypt_in_place ::
  "primitives \<Rightarrow> bytes \<Rightarrow> crypto_handler \<Rightarrow> (nat \<times> bytes) option \<times> crypto_handler" where
  "decrypt_in_place P buffer c =
    (if length buffer < MAC_LEN then (None, c)
     else let c' = bump c in
       case secretbox_open_in_place P buffer (nonce c') (base_key c') of
         Some r \<Rightarrow> (Some r, c')
       | None \<Rightarrow> (None, c'\<lparr>nonce := nonce c\<rparr>))"

definition next_nonce_and_key :: "crypto_handler \<Rightarrow> (bytes \<times> bytes) \<times> crypto_handler" where
  "next_nonce_and_key c = (let c' = bump c in ((nonce c', base_key c'), c'))"

definition encrypt_detached :: "primitives \<Rightarrow> bytes \<Rightarrow> bytes \<Rightarrow> bytes \<Rightarrow> bytes \<Rightarrow> bytes" where
  "encrypt_detached P pre plaintext n key = secretbox_with_prefix P pre plaintext n key"

definition encrypt_with_prefix ::
  "primitives \<Rightarrow> bytes \<Rightarrow> bytes \<Rightarrow> crypto_handler \<Rightarrow> bytes \<times> crypto_handler" where
  "encrypt_with_prefix P pre plaintext c =
    (let c' = bump c in (secretbox_with_prefix P pre plaintext (nonce c') (base_key c'), c'))"

definition encrypt :: "primitives \<Rightarrow> bytes \<Rightarrow> crypto_handler \<Rightarrow> bytes \<times> crypto_handler" where
  "encrypt P plaintext c =
    (let c' = bump c in (secretbox P plaintext (nonce c') (base_key c'), c'))"

definition decrypt ::
  "primitives \<Rightarrow> bytes \<Rightarrow> crypto_handler \<Rightarrow> (decrypt_error + bytes) \<times> crypto_handler" where
  "decrypt P ciphertext c =
    (if length ciphertext < MAC_LEN then (Inl DecryptShort, c)
     else let c' = bump c in
       case secretbox_open P ciphertext (nonce c') (base_key c') of
         Some out \<Rightarrow> (Inr out, c')
       | None \<Rightarrow> (Inl BadMac, c'\<lparr>nonce := nonce c\<rparr>))"

subsection \<open>Sequences of sealed messages\<close>

fun seal_all :: "('c \<Rightarrow> 'p \<Rightarrow> 'w \<times> 'c) \<Rightarrow> 'c \<Rightarrow> 'p list \<Rightarrow> 'w list \<times> 'c" where
  "seal_all seal c [] = ([], c)"
| "seal_all seal c (p # ps) =
    (let (w, c1) = seal c p; (ws, c2) = seal_all seal c1 ps in (w # ws, c2))"

fun unseal_all :: "('c \<Rightarrow> 'w \<Rightarrow> ('e + 'p) \<times> 'c) \<Rightarrow> 'c \<Rightarrow> 'w list \<Rightarrow> ('e + 'p list) \<times> 'c" where
  "unseal_all unseal d [] = (Inr [], d)"
| "unseal_all unseal d (w # ws) =
    (case unseal d w of
       (Inl e, d1) \<Rightarrow> (Inl e, d1)
     | (Inr p, d1) \<Rightarrow>
         (case unseal_all unseal d1 ws of
            (Inl e, d2) \<Rightarrow> (Inl e, d2)
          | (Inr ps, d2) \<Rightarrow> (Inr (p # ps), d2)))"

text \<open>Two handlers in step, and what one handler can go through.\<close>

definition crypto_sync :: "primitives \<Rightarrow> crypto_handler \<Rightarrow> crypto_handler \<Rightarrow> bool" where
  "crypto_sync P e d \<longleftrightarrow> sodium_laws P \<and> base_key e = base_key d \<and> nonce e = nonce d"

inductive handler_step :: "primitives \<Rightarrow> crypto_handler \<Rightarrow> crypto_handler \<Rightarrow> bool" for P where
  step_encrypt: "handler_step P c (snd (encrypt P m c))"
| step_encrypt_with_prefix: "handler_step P c (snd (encrypt_with_prefix P pre m c))"
| step_encrypt_into: "handler_step P c (snd (encrypt_into P out m c))"
| step_next: "handler_step P c (snd (next_nonce_and_key c))"
| step_decrypt: "handler_step P c (snd (decrypt P m c))"
| step_decrypt_into: "handler_step P c (snd (decrypt_into P out m c))"
| step_decrypt_in_place: "handler_step P c (snd (decrypt_in_place P m c))"
| step_rekey: "rekey P salt c = Inr c' \<Longrightarrow> handler_step P c c'"

text \<open>A transparent cipher and hash that satisfy the laws: the instance the witnesses evaluate.\<close>

definition plain_primitives :: primitives where
  "plain_primitives = \<lparr>
     secretbox_easy = (\<lambda>m n k. take 16 (n @ replicate 16 0) @ m),
     secretbox_open_easy = (\<lambda>c n k.
       if 16 \<le> length c \<and> take 16 c = take 16 (n @ replicate 16 0) then Some (drop 16 c) else None),
     blake2b_mac = (\<lambda>k m. if length k \<le> 64 then Some (take 32 (k @ m @ replicate 32 0)) else None)\<rparr>"

section \<open>The nonce counter\<close>

lemma length_bump_nonce [simp]: "length (bump_nonce n) = length n"
  by (induction n) auto

lemma le_value_bump_nonce: "le_value (bump_nonce n) = (le_value n + 1) mod 256 ^ length n"
proof (induction n)
  case (Cons b bs)
  show ?case
  proof (cases "b + 1 = 0")
    case True
    then have "b = - 1" by (simp add: eq_neg_iff_add_eq_0)
    then have b: "unat b = 255" by simp
    have "le_value (bump_nonce (b # bs)) = 256 * ((le_value bs + 1) mod 256 ^ length bs)"
      using True Cons by simp
    also have "\<dots> = (256 * (le_value bs + 1)) mod (256 * 256 ^ length bs)"
      by (rule mult_mod_right)
    finally show ?thesis using b by (simp add: algebra_simps)
  next
    case False
    then have b: "unat (b + 1) = unat b + 1" using unatSuc [of b] by (simp add: add.commute)
    have "le_value ((b + 1) # bs) < 256 ^ length ((b + 1) # bs)" by (rule le_value_lt)
    then show ?thesis using False b by simp
  qed
qed simp

lemma length_bump_nonce_funpow [simp]: "length ((bump_nonce ^^ k) n) = length n"
  by (induction k) auto

lemma le_value_bump_nonce_funpow:
  "le_value ((bump_nonce ^^ k) n) = (le_value n + k) mod 256 ^ length n"
proof (induction k)
  case 0
  then show ?case using le_value_lt [of n] by simp
next
  case (Suc k)
  then show ?case by (simp add: le_value_bump_nonce mod_Suc_eq)
qed

lemma bump_funpow: "(bump ^^ k) c = c\<lparr>nonce := (bump_nonce ^^ k) (nonce c)\<rparr>"
  by (induction k) (simp_all add: bump_def)

lemma le_value_replicate_0 [simp]: "le_value (replicate k 0 @ bs) = 256 ^ k * le_value bs"
  by (induction k) auto

lemma initial_nonce: "(replicate NONCE_LEN 0)[NONCE_LEN - 1 := d] = replicate 23 (0 :: byte) @ [d]"
  unfolding NONCE_LEN_def by (simp add: numeral_eq_Suc)

lemma nonce_crypto_new [simp]: "nonce (crypto_new key d) = replicate 23 0 @ [d]"
  unfolding crypto_new_def initial_nonce by simp

lemma le_value_inj: "length a = length b \<Longrightarrow> le_value a = le_value b \<Longrightarrow> a = b"
  by (metis le_bytes_le_value)

lemma le_value_nonce_funpow:
  assumes "k < 256 ^ 23"
  shows "le_value (nonce ((bump ^^ k) (crypto_new key d))) = 256 ^ 23 * unat d + k"
proof -
  have "256 ^ 23 * unat d + k < 256 ^ 23 * unat d + 256 ^ 23" using assms by simp
  also have "\<dots> = 256 ^ 23 * (unat d + 1)" by simp
  also have "\<dots> \<le> 256 ^ 23 * 256" using unat_byte_lt [of d] by (intro mult_le_mono2) linarith
  finally show ?thesis
    by (simp add: bump_funpow le_value_bump_nonce_funpow flip: power_Suc2)
qed

section \<open>Hash comparison\<close>

lemma fold_or_eq_0:
  "fold (\<lambda>(a, b) diff. diff OR (a XOR b)) xs (d :: byte) = 0 \<longleftrightarrow> d = 0 \<and> (\<forall>(a, b) \<in> set xs. a = b)"
proof (induction xs arbitrary: d)
  case (Cons x xs)
  have "d OR (a XOR b) = 0 \<longleftrightarrow> d = 0 \<and> a = b" for a b :: byte
    by (simp add: or_eq_0_iff)
  then show ?case using Cons by (auto split: prod.splits)
qed simp

lemma constant_time_eq_iff [simp]: "constant_time_eq l r \<longleftrightarrow> l = r"
proof (cases "length l = length r")
  case True
  then show ?thesis
    by (induction rule: list_induct2) (auto simp: constant_time_eq_def fold_or_eq_0)
qed (auto simp: constant_time_eq_def)

section \<open>Ends that keep in step\<close>

locale sealed_stream =
  fixes seal :: "'c \<Rightarrow> 'p \<Rightarrow> 'w \<times> 'c"
    and unseal :: "'c \<Rightarrow> 'w \<Rightarrow> ('e + 'q) \<times> 'c"
    and opened :: "'p \<Rightarrow> 'q"
    and sync :: "'c \<Rightarrow> 'c \<Rightarrow> bool"
  assumes unseal_seal: "sync e d \<Longrightarrow> \<exists>d'. unseal d (fst (seal e p)) = (Inr (opened p), d') \<and> sync (snd (seal e p)) d'"
begin

lemma unseal_all_seal_all:
  "sync e d \<Longrightarrow> \<exists>d'. unseal_all unseal d (fst (seal_all seal e ps)) = (Inr (map opened ps), d')
    \<and> sync (snd (seal_all seal e ps)) d'"
proof (induction ps arbitrary: e d)
  case (Cons p ps)
  obtain d1 where d1: "unseal d (fst (seal e p)) = (Inr (opened p), d1)" "sync (snd (seal e p)) d1"
    using unseal_seal [OF Cons.prems] by blast
  obtain d2 where "unseal_all unseal d1 (fst (seal_all seal (snd (seal e p)) ps)) = (Inr (map opened ps), d2)"
    "sync (snd (seal_all seal (snd (seal e p)) ps)) d2"
    using Cons.IH [OF d1(2)] by blast
  with d1 show ?case by (simp add: split_beta Let_def)
qed simp

end

lemma seal_all_Cons:
  "seal_all seal c (p # ps) =
    (fst (seal c p) # fst (seal_all seal (snd (seal c p)) ps), snd (seal_all seal (snd (seal c p)) ps))"
  by (simp add: split_beta Let_def)

lemma length_seal_all [simp]: "length (fst (seal_all seal c ps)) = length ps"
  by (induction ps arbitrary: c) (simp_all add: split_beta Let_def)

lemma seal_all_append:
  "seal_all seal c (ps @ qs) =
    (fst (seal_all seal c ps) @ fst (seal_all seal (snd (seal_all seal c ps)) qs),
     snd (seal_all seal (snd (seal_all seal c ps)) qs))"
  by (induction ps arbitrary: c) (simp_all add: split_beta Let_def)

lemma drop_seal_all:
  "drop n (fst (seal_all seal c ps)) =
    fst (seal_all seal (snd (seal_all seal c (take n ps))) (drop n ps))"
proof (cases "n \<le> length ps")
  case True
  have "fst (seal_all seal c (take n ps @ drop n ps)) = fst (seal_all seal c (take n ps)) @
      fst (seal_all seal (snd (seal_all seal c (take n ps))) (drop n ps))"
    by (simp only: seal_all_append fst_conv)
  then show ?thesis using True by simp
qed simp

lemma sodium_lawsD:
  assumes "sodium_laws P"
  shows "length (secretbox_easy P m n k) = length m + 16"
    and "secretbox_open_easy P (secretbox_easy P m n k) n k = Some m"
    and "secretbox_open_easy P c n k = Some m \<Longrightarrow> c = secretbox_easy P m n k"
  using assms by (auto simp: sodium_laws_def)

lemma secretbox_open_secretbox: "sodium_laws P \<Longrightarrow> secretbox_open P (secretbox P m n k) n k = Some m"
  by (simp add: secretbox_open_def secretbox_def secretbox_with_prefix_def sodium_lawsD MAC_LEN_def)

interpretation crypto_stream: sealed_stream "\<lambda>c m. encrypt P m c" "\<lambda>c w. decrypt P w c" "\<lambda>m. m" "crypto_sync P" for P
proof
  fix e d :: crypto_handler and p
  assume sync: "crypto_sync P e d"
  then have "secretbox_open P (secretbox P p (nonce (bump d)) (base_key (bump d)))
      (nonce (bump d)) (base_key (bump d)) = Some p"
    by (simp add: crypto_sync_def secretbox_open_secretbox)
  moreover have "\<not> length (secretbox P p (nonce (bump d)) (base_key (bump d))) < MAC_LEN"
    using sync by (simp add: crypto_sync_def secretbox_def secretbox_with_prefix_def sodium_lawsD MAC_LEN_def)
  moreover have "nonce (bump e) = nonce (bump d)" "base_key (bump e) = base_key (bump d)"
    using sync by (simp_all add: crypto_sync_def bump_def)
  ultimately show "\<exists>d'. decrypt P (fst (encrypt P p e)) d = (Inr p, d') \<and> crypto_sync P (snd (encrypt P p e)) d'"
    using sync by (simp add: encrypt_def decrypt_def Let_def crypto_sync_def)
qed

lemma plain_sodium_laws [simp]: "sodium_laws plain_primitives"
  by (auto simp: sodium_laws_def plain_primitives_def min_def) (metis append.assoc append_take_drop_id)

lemma plain_blake2b_laws [simp]: "blake2b_laws plain_primitives"
  by (auto simp: blake2b_laws_def plain_primitives_def)

section \<open>Unambiguous proof messages\<close>

fun dec_value :: "bytes \<Rightarrow> nat \<Rightarrow> nat" where
  "dec_value [] v = v"
| "dec_value (b # bs) v = dec_value bs (10 * v + (unat b - 48))"

declare dec_nat.simps [simp del]

lemma dec_value_append: "dec_value (a @ b) v = dec_value b (dec_value a v)"
  by (induction a arbitrary: v) auto

lemma dec_value_dec_nat: "dec_value (dec_nat n) 0 = n"
proof (induction n rule: dec_nat.induct)
  case (1 n)
  have d: "unat (word_of_nat (48 + m) :: byte) = 48 + m" if "m < 10" for m
    using that by (simp only: unat_byte_of_nat) simp
  show ?case
  proof (cases "n < 10")
    case True
    then show ?thesis using d [of n] by (simp add: dec_nat.simps [of n] del: of_nat_add)
  next
    case False
    then show ?thesis using 1 d [of "n mod 10"]
      by (simp add: dec_nat.simps [of n] dec_value_append del: of_nat_add)
  qed
qed

lemma dec_nat_inject [simp]: "dec_nat m = dec_nat n \<longleftrightarrow> m = n"
  by (metis dec_value_dec_nat)

lemma dec_nat_digits: "b \<in> set (dec_nat n) \<Longrightarrow> 48 \<le> unat b \<and> unat b < 58"
proof (induction n rule: dec_nat.induct)
  case (1 n)
  have d: "unat (word_of_nat (48 + m) :: byte) = 48 + m" if "m < 10" for m
    using that by (simp only: unat_byte_of_nat) simp
  show ?case
    using 1 d [of n] d [of "n mod 10"]
    by (cases "n < 10") (auto simp: dec_nat.simps [of n] simp del: of_nat_add)
qed

lemma dec_nat_no_zero [simp]: "0 \<notin> set (dec_nat n)"
  using dec_nat_digits [of 0 n] by auto

lemma dec_nat_not_minus: "dec_nat n \<noteq> 45 # bs"
  using dec_nat_digits [of 45 n] by auto

lemma dec_int_no_zero [simp]: "0 \<notin> set (dec_int i)"
  by (simp add: dec_int_def)

lemma dec_int_inject [simp]: "dec_int i = dec_int j \<longleftrightarrow> i = j"
  using dec_nat_not_minus dec_nat_not_minus [symmetric] by (auto simp: dec_int_def)

lemma split_at_zero:
  assumes "a @ 0 # x = b @ 0 # y" "0 \<notin> set a" "0 \<notin> set (b :: bytes)"
  shows "a = b \<and> x = y"
  using assms
proof (induction a arbitrary: b)
  case Nil
  then show ?case by (cases b) auto
next
  case (Cons c a)
  then show ?case by (cases b) auto
qed

lemma split_at_length: "length a = length b \<Longrightarrow> a @ x = b @ y \<Longrightarrow> a = b \<and> x = y"
  by simp

lemma flag_byte_inject: "(if a then 49 else 48 :: byte) = (if b then 49 else 48) \<longleftrightarrow> a = b"
  by auto

lemma connection_proof_message_eqD:
  assumes "connection_proof_message id1 v1 ch1 r1 = connection_proof_message id2 v2 ch2 r2"
  shows "id1 = id2 \<and> v1 = v2 \<and> ch1 = ch2 \<and> r1 = r2"
proof -
  from assms have 1: "dec_int v1 @ 0 # dec_nat (length id1) @ 0 # id1 @ 0 # dec_nat (length ch1) @ 0 #
      ch1 @ [0, if r1 then 49 else 48] = dec_int v2 @ 0 # dec_nat (length id2) @ 0 # id2 @ 0 #
      dec_nat (length ch2) @ 0 # ch2 @ [0, if r2 then 49 else 48]"
    by (simp only: connection_proof_message_def same_append_eq append_Cons append_Nil list.inject simp_thms)
  from split_at_zero [OF 1] have v: "v1 = v2" and 2: "dec_nat (length id1) @ 0 # id1 @ 0 # dec_nat (length ch1) @ 0 #
      ch1 @ [0, if r1 then 49 else 48] = dec_nat (length id2) @ 0 # id2 @ 0 #
      dec_nat (length ch2) @ 0 # ch2 @ [0, if r2 then 49 else 48]" by simp_all
  note s2 = split_at_zero [OF 2 dec_nat_no_zero dec_nat_no_zero]
  from s2 have l: "length id1 = length id2" by simp
  note s3 = split_at_length [OF l conjunct2 [OF s2]]
  then have i: "id1 = id2" by simp
  from s3 have 3: "dec_nat (length ch1) @ 0 # ch1 @ [0, if r1 then 49 else 48] =
     dec_nat (length ch2) @ 0 # ch2 @ [0, if r2 then 49 else 48]" by blast
  note s4 = split_at_zero [OF 3 dec_nat_no_zero dec_nat_no_zero]
  from s4 have "length ch1 = length ch2" by simp
  from split_at_length [OF this conjunct2 [OF s4]]
  have "ch1 = ch2" "r1 = r2" by (simp_all add: flag_byte_inject)
  with v i show ?thesis by simp
qed

lemma reset_decision_message_eqD:
  assumes "reset_decision_message id1 v1 ch1 s1 r1 t1 = reset_decision_message id2 v2 ch2 s2 r2 t2"
    and "0 \<notin> set id1" "0 \<notin> set id2"
  shows "id1 = id2 \<and> v1 = v2 \<and> ch1 = ch2 \<and> s1 = s2 \<and> r1 = r2 \<and> t1 = t2"
proof -
  let ?t1 = "dec_int s1 @ 0 # (if r1 then 49 else 48) # 0 # dec_nat (length t1) @ 0 # t1"
  let ?t2 = "dec_int s2 @ 0 # (if r2 then 49 else 48) # 0 # dec_nat (length t2) @ 0 # t2"
  from assms(1) have 1: "dec_int v1 @ 0 # id1 @ 0 # dec_nat (length ch1) @ 0 # ch1 @ 0 # ?t1 =
      dec_int v2 @ 0 # id2 @ 0 # dec_nat (length ch2) @ 0 # ch2 @ 0 # ?t2"
    by (simp only: reset_decision_message_def same_append_eq append_Cons append_Nil list.inject simp_thms)
  from split_at_zero [OF 1] have v: "v1 = v2" and 2: "id1 @ 0 # dec_nat (length ch1) @ 0 # ch1 @ 0 # ?t1 =
      id2 @ 0 # dec_nat (length ch2) @ 0 # ch2 @ 0 # ?t2" by simp_all
  from split_at_zero [OF 2 assms(2,3)] have i: "id1 = id2" and
    3: "dec_nat (length ch1) @ 0 # ch1 @ 0 # ?t1 = dec_nat (length ch2) @ 0 # ch2 @ 0 # ?t2" by simp_all
  from split_at_zero [OF 3] have "length ch1 = length ch2" "ch1 @ 0 # ?t1 = ch2 @ 0 # ?t2" by simp_all
  then have c: "ch1 = ch2" and 4: "?t1 = ?t2" by simp_all
  from split_at_zero [OF 4] have s: "s1 = s2" and r: "r1 = r2" and
    5: "dec_nat (length t1) @ 0 # t1 = dec_nat (length t2) @ 0 # t2" by (simp_all add: flag_byte_inject)
  from split_at_zero [OF 5] have "t1 = t2" by simp
  with v i c s r show ?thesis by simp
qed

lemma proof_messages_separate:
  "connection_proof_message id1 v1 ch1 r1 \<noteq> reset_decision_message id2 v2 ch2 st2 rr2 t2"
  by (simp add: connection_proof_message_def reset_decision_message_def ascii_def)

section \<open>Handler states\<close>

lemma snd_encrypt [simp]: "snd (encrypt P m c) = bump c"
  by (simp add: encrypt_def Let_def)

lemma bump_fields [simp]:
  "original_key (bump c) = original_key c" "base_key (bump c) = base_key c"
  "direction (bump c) = direction c"
  by (simp_all add: bump_def)

lemma decrypt_error_keeps: "decrypt P w c = (Inl e, c') \<Longrightarrow> c' = c"
  by (auto simp: decrypt_def Let_def bump_def split: if_splits option.splits)

lemma handler_step_keeps:
  "handler_step P c c' \<Longrightarrow> original_key c' = original_key c \<and> direction c' = direction c"
  by (induction rule: handler_step.induct)
    (auto simp: encrypt_def encrypt_with_prefix_def encrypt_into_def next_nonce_and_key_def
      decrypt_def decrypt_into_def decrypt_in_place_def rekey_def Let_def
      split: option.splits sum.splits if_splits)

lemma handler_steps_keep:
  "(handler_step P)\<^sup>*\<^sup>* c c' \<Longrightarrow> original_key c' = original_key c \<and> direction c' = direction c"
  by (induction rule: rtranclp_induct) (auto dest: handler_step_keeps)

section \<open>Properties\<close>



text \<open>C22: What a handler encrypts, a handler with the same key and nonce decrypts to the same
  messages in the same order, and the two are in step again afterwards.\<close>

theorem decrypt_encrypt_stream:
  assumes "crypto_sync P e d"
  shows "\<exists>d'. unseal_all (\<lambda>c w. decrypt P w c) d (fst (seal_all (\<lambda>c m. encrypt P m c) e ms)) = (Inr ms, d')
    \<and> crypto_sync P (snd (seal_all (\<lambda>c m. encrypt P m c) e ms)) d'"
  using crypto_stream.unseal_all_seal_all [OF assms, of ms] by simp

lemma decrypt_encrypt_stream_witness:
  "crypto_sync plain_primitives (crypto_new (replicate 32 7) 0) (crypto_new (replicate 32 7) 0) \<and>
   (\<exists>d'. unseal_all (\<lambda>c w. decrypt plain_primitives w c) (crypto_new (replicate 32 7) 0)
     (fst (seal_all (\<lambda>c m. encrypt plain_primitives m c) (crypto_new (replicate 32 7) 0) [[1, 2], [], [3]]))
     = (Inr [[1, 2], [], [3]], d'))"
proof -
  have s: "crypto_sync plain_primitives (crypto_new (replicate 32 7) 0) (crypto_new (replicate 32 7) 0)"
    by (simp add: crypto_sync_def)
  show ?thesis using s decrypt_encrypt_stream [OF s, of "[[1, 2], [], [3]]"] by blast
qed

text \<open>A failed decryption leaves the handler as it was, so the peer's next genuine packet still
  decrypts.\<close>

theorem decrypt_failure_keeps_state:
  assumes "fst (decrypt P w c) = Inl e"
  shows "snd (decrypt P w c) = c"
  using assms decrypt_error_keeps by (metis prod.collapse)

lemma decrypt_failure_keeps_state_witness:
  "fst (decrypt plain_primitives (replicate 20 9) (crypto_new (replicate 32 7) 0)) = Inl BadMac \<and>
   snd (decrypt plain_primitives (replicate 20 9) (crypto_new (replicate 32 7) 0)) = crypto_new (replicate 32 7) 0"
proof -
  have e: "fst (decrypt plain_primitives (replicate 20 9) (crypto_new (replicate 32 7) 0)) = Inl BadMac"
    by code_simp
  show ?thesis using e decrypt_failure_keeps_state [OF e] by simp
qed

text \<open>A reset derives the epoch key from the passkey alone: whatever a handler has encrypted,
  decrypted or rekeyed before, rekeying it gives the same outcome as rekeying a handler that a
  fresh process builds from the passkey.\<close>

theorem rekey_from_original_key:
  assumes "(handler_step P)\<^sup>*\<^sup>* (crypto_new key d) c"
  shows "rekey P salt c = rekey P salt (crypto_new key d)"
  using handler_steps_keep [OF assms]
  by (auto simp: rekey_def crypto_new_def split: sum.splits)

lemma rekey_from_original_key_witness:
  "rekey plain_primitives (replicate 32 5) (snd (encrypt plain_primitives [1] (crypto_new (replicate 32 7) 1))) =
   rekey plain_primitives (replicate 32 5) (crypto_new (replicate 32 7) 1)"
  by (rule rekey_from_original_key [OF r_into_rtranclp]) (rule step_encrypt)

text \<open>A proof is accepted exactly when it is the proof its fields determine: the connection proof
  for this key, client, version, 32-byte challenge and reset intent, and the reset decision's
  proof for this status, decision and salt, where a reset carries a 32-byte salt and any other
  decision none.\<close>

theorem verify_proofs_iff:
  assumes "blake2b_laws P" "length key = KEY_LEN"
  shows "(verify_connection_proof P prf key client_id v challenge r \<longleftrightarrow>
       connection_proof P key client_id v challenge r = Inr prf) \<and>
     (verify_reset_decision_proof P prf key client_id v challenge st rr salt \<longleftrightarrow>
       reset_decision_proof P key client_id v challenge st rr salt = Inr prf) \<and>
     (reset_decision_proof P key client_id v challenge st rr salt = Inl ProofError \<longleftrightarrow>
       length challenge \<noteq> AUTH_CHALLENGE_BYTES \<or> length salt \<noteq> (if rr then EPOCH_SALT_BYTES else 0))"
proof -
  have h: "\<exists>h. blake2b_mac P key m = Some h \<and> length h = PROOF_BYTES" for m
    using assms by (simp add: blake2b_laws_def KEY_LEN_def PROOF_BYTES_def)
  obtain h1 where h1: "blake2b_mac P key (connection_proof_message client_id v challenge r) = Some h1"
      "length h1 = PROOF_BYTES" using h by blast
  obtain h2 where h2: "blake2b_mac P key (reset_decision_message client_id v challenge st rr salt) = Some h2"
      "length h2 = PROOF_BYTES" using h by blast
  from h1 h2 show ?thesis
    by (auto simp: verify_connection_proof_def connection_proof_def verify_reset_decision_proof_def
        reset_decision_proof_def generichash_def)
qed

lemma verify_proofs_iff_witness:
  "blake2b_laws plain_primitives \<and> length (replicate 32 (7 :: byte)) = KEY_LEN \<and>
   (\<exists>prf. connection_proof plain_primitives (replicate 32 7) [97] 6 (replicate 32 1) True = Inr prf \<and>
     verify_connection_proof plain_primitives prf (replicate 32 7) [97] 6 (replicate 32 1) True)"
proof -
  have k: "length (replicate 32 (7 :: byte)) = KEY_LEN" by (simp add: KEY_LEN_def)
  have "connection_proof plain_primitives (replicate 32 7) [97] 6 (replicate 32 1) True = Inr (replicate 32 7)"
    by (simp add: connection_proof_def generichash_def plain_primitives_def AUTH_CHALLENGE_BYTES_def)
  with k verify_proofs_iff [OF plain_blake2b_laws k, of "replicate 32 7" "[97]" 6 "replicate 32 1" True]
  show ?thesis by auto
qed

text \<open>C24: The authenticated messages encode their fields injectively, and a connection message is never
  a reset decision message: a proof made for one exchange is a proof for no other.  The reset
  message carries the client id without a length, so there the ids must hold no zero byte.\<close>

theorem proof_messages_unambiguous:
  assumes "0 \<notin> set id1" "0 \<notin> set id2"
  shows "(connection_proof_message id1 v1 ch1 r1 = connection_proof_message id2 v2 ch2 r2 \<longleftrightarrow>
       id1 = id2 \<and> v1 = v2 \<and> ch1 = ch2 \<and> r1 = r2) \<and>
     (reset_decision_message id1 v1 ch1 st1 rr1 t1 = reset_decision_message id2 v2 ch2 st2 rr2 t2 \<longleftrightarrow>
       id1 = id2 \<and> v1 = v2 \<and> ch1 = ch2 \<and> st1 = st2 \<and> rr1 = rr2 \<and> t1 = t2) \<and>
     connection_proof_message id1 v1 ch1 r1 \<noteq> reset_decision_message id2 v2 ch2 st2 rr2 t2"
  using connection_proof_message_eqD [of id1 v1 ch1 r1 id2 v2 ch2 r2]
    reset_decision_message_eqD [OF _ assms, of v1 ch1 st1 rr1 t1 v2 ch2 st2 rr2 t2]
    proof_messages_separate [of id1 v1 ch1 r1 id2 v2 ch2 st2 rr2 t2] by blast

lemma proof_messages_unambiguous_witness:
  "(0 :: byte) \<notin> set [97, 98] \<and> (0 :: byte) \<notin> set [97] \<and>
   connection_proof_message [97, 98] 6 [1] True \<noteq> connection_proof_message [97] 6 [98, 1] True"
  using proof_messages_unambiguous [of "[97, 98]" "[97]" 6 "[1]" True 6 "[98, 1]" True] by simp

end
