(* ===== verification/Keys.thy ===== *)
theory Keys
  imports Crypto
begin

text \<open>
  \<^verbatim>\<open>crates/et-core/src/keys.rs\<close>: the session id and passkey, 16 and 32 alphanumeric characters
  exchanged as \<^verbatim>\<open>id/passkey\<close>, and the passkey's bytes as the 32-byte key.  Strings are their UTF-8
  bytes.  The random number generator is not part of the repository: its draws are the argument
  \<open>draw\<close>, of which the documented range is the hypothesis.
\<close>

section \<open>Definitions\<close>

definition ALPHANUM :: bytes where
  "ALPHANUM = ascii ''0123456789ABCDEFGHIJKLMNOPQRSTUVWXYZabcdefghijklmnopqrstuvwxyz''"
definition ID_LEN :: nat where "ID_LEN = 16"
definition PASSKEY_LEN :: nat where "PASSKEY_LEN = 32"

definition is_ascii_alphanumeric :: "byte \<Rightarrow> bool" where
  "is_ascii_alphanumeric b \<longleftrightarrow> (48 \<le> b \<and> b \<le> 57) \<or> (65 \<le> b \<and> b \<le> 90) \<or> (97 \<le> b \<and> b \<le> 122)"

definition gen_id_passkey :: "(nat \<Rightarrow> nat) \<Rightarrow> bytes \<times> bytes" where
  "gen_id_passkey draw =
    (map (\<lambda>i. ALPHANUM ! draw i) [0..<ID_LEN],
     map (\<lambda>i. ALPHANUM ! draw i) [ID_LEN..<ID_LEN + PASSKEY_LEN])"

definition passkey_to_key :: "bytes \<Rightarrow> bytes option" where
  "passkey_to_key passkey =
    (if length passkey \<noteq> PASSKEY_LEN \<or> \<not> list_all is_ascii_alphanumeric passkey then None
     else Some passkey)"

fun split_once :: "byte \<Rightarrow> bytes \<Rightarrow> (bytes \<times> bytes) option" where
  "split_once sep [] = None"
| "split_once sep (b # bs) =
    (if b = sep then Some ([], bs) else map_option (\<lambda>(l, r). (b # l, r)) (split_once sep bs))"

definition parse_id_passkey :: "bytes \<Rightarrow> (bytes \<times> bytes) option" where
  "parse_id_passkey s =
    (case split_once 47 s of
       None \<Rightarrow> None
     | Some (ident, passkey) \<Rightarrow>
         if length ident \<noteq> ID_LEN \<or> \<not> list_all is_ascii_alphanumeric ident \<or> passkey_to_key passkey = None
         then None else Some (ident, passkey))"

section \<open>Facts\<close>

lemma split_once_Some:
  "split_once sep s = Some (l, r) \<longleftrightarrow> s = l @ sep # r \<and> sep \<notin> set l"
proof (induction s arbitrary: l)
  case (Cons b bs)
  show ?case by (cases l) (auto simp: Cons)
qed simp

lemma ALPHANUM_alphanumeric: "list_all is_ascii_alphanumeric ALPHANUM" "length ALPHANUM = 62"
  by (simp_all add: ALPHANUM_def ascii_def is_ascii_alphanumeric_def of_char_Char)

lemma ALPHANUM_nth [simp]: "i < 62 \<Longrightarrow> is_ascii_alphanumeric (ALPHANUM ! i)"
  using ALPHANUM_alphanumeric by (simp add: list_all_length)

lemma not_alphanumeric_slash: "list_all is_ascii_alphanumeric s \<Longrightarrow> 47 \<notin> set s"
  by (auto simp: list_all_iff is_ascii_alphanumeric_def)

lemma parse_printed:
  assumes "length ident = 16" "length passkey = 32"
    and "list_all is_ascii_alphanumeric ident" "list_all is_ascii_alphanumeric passkey"
  shows "parse_id_passkey (ident @ 47 # passkey) = Some (ident, passkey)"
proof -
  have "split_once 47 (ident @ 47 # passkey) = Some (ident, passkey)"
    using not_alphanumeric_slash assms(3) by (simp add: split_once_Some)
  then show ?thesis using assms by (simp add: parse_id_passkey_def passkey_to_key_def ID_LEN_def PASSKEY_LEN_def)
qed

section \<open>Properties\<close>

text \<open>C27: An id/passkey pair is read back from its printed form \<^verbatim>\<open>id/passkey\<close> exactly when the id
  has 16 and the passkey 32 alphanumeric characters; a string is accepted only as the printed form
  of such a pair, whose passkey then is the 32-byte key.\<close>

theorem parse_id_passkey_iff:
  "parse_id_passkey s = Some (ident, passkey) \<longleftrightarrow>
     s = ident @ 47 # passkey \<and> length ident = 16 \<and> list_all is_ascii_alphanumeric ident \<and>
     length passkey = KEY_LEN \<and> list_all is_ascii_alphanumeric passkey \<and> passkey_to_key passkey = Some passkey"
proof
  assume "parse_id_passkey s = Some (ident, passkey)"
  then show "s = ident @ 47 # passkey \<and> length ident = 16 \<and> list_all is_ascii_alphanumeric ident \<and>
     length passkey = KEY_LEN \<and> list_all is_ascii_alphanumeric passkey \<and> passkey_to_key passkey = Some passkey"
    by (auto simp: parse_id_passkey_def split_once_Some passkey_to_key_def ID_LEN_def PASSKEY_LEN_def KEY_LEN_def
        split: option.splits if_splits)
qed (auto simp: parse_printed KEY_LEN_def)

text \<open>A generated pair is accepted when it comes back in printed form.\<close>

theorem generated_pair_accepted:
  assumes "\<And>i. draw i < length ALPHANUM"
  shows "case gen_id_passkey draw of (ident, passkey) \<Rightarrow> parse_id_passkey (ident @ 47 # passkey) = Some (ident, passkey)"
proof -
  obtain ident passkey where g: "gen_id_passkey draw = (ident, passkey)" by fastforce
  have len: "length ident = 16" "length passkey = 32"
    using g by (auto simp: gen_id_passkey_def ID_LEN_def PASSKEY_LEN_def)
  have alnum: "list_all is_ascii_alphanumeric ident" "list_all is_ascii_alphanumeric passkey"
    using g assms by (auto simp: gen_id_passkey_def list_all_iff ALPHANUM_alphanumeric)
  then show ?thesis using g len by (simp add: parse_printed)
qed

lemma generated_pair_accepted_witness:
  "(\<lambda>i. 10) (0 :: nat) < length ALPHANUM \<and>
   parse_id_passkey (replicate 16 65 @ 47 # replicate 32 65) = Some (replicate 16 65, replicate 32 65)"
proof -
  have d: "(10 :: nat) < length ALPHANUM" by (simp add: ALPHANUM_alphanumeric)
  have g: "gen_id_passkey (\<lambda>_. 10) = (replicate 16 65, replicate 32 65)"
  proof -
    have "ALPHANUM ! 10 = 65" by (simp add: ALPHANUM_def ascii_def)
    then show ?thesis by (simp add: gen_id_passkey_def ID_LEN_def PASSKEY_LEN_def numeral_eq_Suc)
  qed
  show ?thesis using generated_pair_accepted [of "\<lambda>_. 10"] d g by simp
qed

end
