(* ===== verification/Packet.thy ===== *)
theory Packet
  imports Crypto
begin

text \<open>
  The first half of \<^verbatim>\<open>crates/et-core/src/packet.rs\<close>: a packet is an encryption flag, a one-byte
  header (its type) and a payload, serialized in that order.
\<close>

section \<open>Definitions\<close>

definition HEADER_LEN :: nat where "HEADER_LEN = 2"

record packet =
  pkt_encrypted :: bool
  pkt_header :: byte
  pkt_payload :: bytes

datatype packet_error = PacketShort

definition packet_new :: "byte \<Rightarrow> bytes \<Rightarrow> packet" where
  "packet_new h p = \<lparr>pkt_encrypted = False, pkt_header = h, pkt_payload = p\<rparr>"

definition packet_raw :: "bool \<Rightarrow> byte \<Rightarrow> bytes \<Rightarrow> packet" where
  "packet_raw e h p = \<lparr>pkt_encrypted = e, pkt_header = h, pkt_payload = p\<rparr>"

definition from_serialized :: "bytes \<Rightarrow> packet_error + packet" where
  "from_serialized bs =
    (if length bs < HEADER_LEN then Inl PacketShort
     else Inr \<lparr>pkt_encrypted = (bs ! 0 \<noteq> 0), pkt_header = bs ! 1, pkt_payload = drop HEADER_LEN bs\<rparr>)"

definition from_serialized_vec :: "bytes \<Rightarrow> packet_error + packet" where
  "from_serialized_vec bs =
    (if length bs < HEADER_LEN then Inl PacketShort
     else let encrypted = (bs ! 0 \<noteq> 0); header = bs ! 1; rest = drop HEADER_LEN bs
       in Inr \<lparr>pkt_encrypted = encrypted, pkt_header = header, pkt_payload = rest\<rparr>)"

definition encrypt_packet :: "primitives \<Rightarrow> packet \<Rightarrow> crypto_handler \<Rightarrow> packet \<times> crypto_handler" where
  "encrypt_packet P p c =
    (let (ct, c') = encrypt P (pkt_payload p) c
     in (p\<lparr>pkt_payload := ct, pkt_encrypted := True\<rparr>, c'))"

definition decrypt_packet ::
  "primitives \<Rightarrow> packet \<Rightarrow> crypto_handler \<Rightarrow> (decrypt_error + packet) \<times> crypto_handler" where
  "decrypt_packet P p c =
    (if \<not> pkt_encrypted p then (Inr p, c)
     else case decrypt P (pkt_payload p) c of
       (Inl e, c') \<Rightarrow> (Inl e, c')
     | (Inr m, c') \<Rightarrow> (Inr (p\<lparr>pkt_payload := m, pkt_encrypted := False\<rparr>), c'))"

definition wire_len :: "packet \<Rightarrow> nat" where
  "wire_len p = HEADER_LEN + length (pkt_payload p)"

definition serialize :: "packet \<Rightarrow> bytes" where
  "serialize p = [of_bool (pkt_encrypted p), pkt_header p] @ pkt_payload p"

section \<open>Facts\<close>

lemma packet_sel [simp]:
  "pkt_encrypted (packet_new h p) = False" "pkt_header (packet_new h p) = h" "pkt_payload (packet_new h p) = p"
  "pkt_encrypted (packet_raw e h p) = e" "pkt_header (packet_raw e h p) = h" "pkt_payload (packet_raw e h p) = p"
  by (simp_all add: packet_new_def packet_raw_def)

lemma length_serialize: "length (serialize p) = wire_len p"
  by (simp add: serialize_def wire_len_def HEADER_LEN_def)

lemma packet_eq_iff:
  "p = q \<longleftrightarrow> pkt_encrypted p = pkt_encrypted q \<and> pkt_header p = pkt_header q \<and>
    pkt_payload p = pkt_payload (q :: packet)"
  by (metis packet.equality old.unit.exhaust)

section \<open>Properties\<close>

text \<open>Serializing and parsing a packet gives the packet back, every byte string of at least
  two bytes is a packet, and parsing then serializing keeps everything but a flag byte that was
  neither 0 nor 1.\<close>

theorem packet_roundtrip:
  "from_serialized (serialize p) = Inr p \<and>
   (from_serialized bs = Inl PacketShort \<longleftrightarrow> length bs < 2) \<and>
   (case from_serialized bs of
      Inl _ \<Rightarrow> True
    | Inr q \<Rightarrow> serialize q = (if bs ! 0 = 0 then 0 else 1) # tl bs)"
proof -
  have "from_serialized (serialize p) = Inr p"
    by (simp add: from_serialized_def serialize_def HEADER_LEN_def)
  moreover have "from_serialized bs = Inl PacketShort \<longleftrightarrow> length bs < 2"
    by (simp add: from_serialized_def HEADER_LEN_def)
  moreover have "serialize q = (if bs ! 0 = 0 then 0 else 1) # tl bs" if "from_serialized bs = Inr q" for q
  proof -
    from that obtain a b xs where "bs = a # b # xs"
      by (cases bs rule: list.exhaust [case_product list.exhaust]; cases "tl bs")
        (auto simp: from_serialized_def HEADER_LEN_def)
    with that show ?thesis by (auto simp: from_serialized_def HEADER_LEN_def serialize_def)
  qed
  ultimately show ?thesis by (auto split: sum.splits)
qed

end
