(* ===== verification/Terminal_Buffer.thy ===== *)
theory Terminal_Buffer
  imports Packet
begin

text \<open>
  The second half of \<^verbatim>\<open>crates/et-core/src/packet.rs\<close>: the hand-written encoder and decoder of
  the \<^verbatim>\<open>TerminalBuffer\<close> protobuf message, and \<open>append_terminal_buffer\<close>, which grows an encoded
  message in place by rewriting its length prefix.
\<close>

section \<open>Definitions\<close>

text \<open>The loop reads one varint from the bytes after \<^verbatim>\<open>payload[idx]\<close>.  A length has at most five
  groups of seven bits, so it fits \<^verbatim>\<open>usize\<close> and \<^verbatim>\<open>checked_shl\<close> never fails.\<close>

fun terminal_len_loop :: "bytes \<Rightarrow> nat \<Rightarrow> nat \<Rightarrow> nat \<Rightarrow> (nat \<times> nat) option" where
  "terminal_len_loop [] idx len shift = None"
| "terminal_len_loop (b # rest) idx len shift =
    (let len = len OR push_bit shift (unat (b AND 127)) in
     if b AND 128 = 0 then Some (idx + 1, len)
     else if 35 \<le> shift + 7 then None
     else terminal_len_loop rest (idx + 1) len (shift + 7))"

definition decode_terminal_buffer :: "bytes \<Rightarrow> (bytes \<times> bool) option" where
  "decode_terminal_buffer payload =
    (case payload of
       [] \<Rightarrow> None
     | tag # body \<Rightarrow>
         if tag \<noteq> 0x0a then None
         else case terminal_len_loop body 1 0 0 of
           None \<Rightarrow> None
         | Some (idx, len) \<Rightarrow>
             if length payload < idx + len then None
             else let buf = take len (drop idx payload); rest = drop (idx + len) payload in
               if rest = [] then Some (buf, False)
               else if rest = [0x10, 0] then Some (buf, False)
               else if rest = [0x10, 1] then Some (buf, True)
               else None)"

fun encode_varint :: "nat \<Rightarrow> bytes" where
  "encode_varint v =
    (if 128 \<le> v then (word_of_nat v OR 128) # encode_varint (v div 128) else [word_of_nat v])"

definition encode_terminal_buffer :: "bytes \<Rightarrow> bool \<Rightarrow> bytes" where
  "encode_terminal_buffer bs is_stderr =
    [0x0a] @ encode_varint (length bs) @ bs @ (if is_stderr then [0x10, 0x01] else [])"

definition append_terminal_buffer :: "packet \<Rightarrow> bytes \<Rightarrow> bool \<Rightarrow> nat \<Rightarrow> bool \<times> packet" where
  "append_terminal_buffer p bs is_stderr limit =
    (if pkt_encrypted p then (False, p)
     else case decode_terminal_buffer (pkt_payload p) of
       None \<Rightarrow> (False, p)
     | Some (body, stderr) \<Rightarrow>
         let old_len = length body; new_len = old_len + length bs in
         if stderr \<noteq> is_stderr \<or> limit < new_len then (False, p)
         else
           let old_prefix = 1 + length (encode_varint old_len);
               varint = encode_varint new_len;
               new_prefix = 1 + length varint;
               payload1 = take (old_prefix + old_len) (pkt_payload p);
               payload2 = (if old_prefix < new_prefix
                 then take 1 payload1 @ replicate (new_prefix - old_prefix) 0 @ drop 1 payload1
                 else payload1);
               payload3 = take 1 payload2 @ take (new_prefix - 1) varint @ drop new_prefix payload2;
               payload4 = payload3 @ bs @ (if is_stderr then [0x10, 0x01] else [])
           in (True, p\<lparr>pkt_payload := payload4\<rparr>))"

section \<open>Varints\<close>

declare encode_varint.simps [simp del]

lemma byte_low7: "unat (b AND 127 :: byte) = unat b mod 128"
proof -
  have "b AND 127 = take_bit 7 b" by (simp add: take_bit_eq_mask mask_eq_exp_minus_1)
  then have "unat (b AND 127) = take_bit 7 (unat b)" by (simp only: unsigned_take_bit_eq)
  then show ?thesis by (simp add: take_bit_eq_mod)
qed

lemma byte_or_128_low7: "(b OR 128) AND 127 = (b AND 127 :: byte)"
  by (simp add: bit.conj_disj_distrib2)

lemma byte_or_128_high: "(b OR 128) AND 128 = (128 :: byte)"
proof -
  have "(b OR y) AND y = y" for y :: byte by (auto simp: bit_eq_iff bit_simps)
  then show ?thesis .
qed

lemma small_byte_high: "v < 128 \<Longrightarrow> (word_of_nat v :: byte) AND 128 = 0"
proof -
  assume v: "v < 128"
  have "(word_of_nat v :: byte) = word_of_nat v AND 127"
    using v by (simp add: word_unat_eq_iff byte_low7)
  then have "(word_of_nat v :: byte) AND 128 = word_of_nat v AND (127 AND 128)"
    by (metis and.assoc)
  then show ?thesis by simp
qed

lemma or_push_bit_eq_add:
  fixes a b :: nat
  assumes "a < 2 ^ n"
  shows "a OR push_bit n b = a + b * 2 ^ n"
proof -
  have "take_bit n a AND push_bit n b = 0" by (auto simp: bit_eq_iff bit_simps)
  then have "a AND push_bit n b = 0" using assms by (simp add: take_bit_nat_eq_self_iff [THEN iffD2])
  then have "a + push_bit n b = a OR push_bit n b" by (rule disjunctive_add_eq_or)
  then show ?thesis by (simp add: push_bit_eq_mult)
qed

lemma encode_varint_nonempty [simp]: "encode_varint v \<noteq> []"
  by (subst encode_varint.simps) simp

lemma length_encode_varint_pos [simp]: "0 < length (encode_varint v)"
  by (simp add: length_greater_0_conv)

lemma encode_varint_length_le: "v < 128 ^ n \<Longrightarrow> 0 < n \<Longrightarrow> length (encode_varint v) \<le> n"
proof (induction v arbitrary: n rule: encode_varint.induct)
  case (1 v)
  show ?case
  proof (cases "128 \<le> v")
    case True
    with 1(2) obtain m where n: "n = Suc m" "0 < m"
      by (cases n; cases "n - 1") auto
    with 1(2) have "v div 128 < 128 ^ m" by (simp add: less_mult_imp_div_less mult.commute)
    with 1(1) True n show ?thesis by (simp add: encode_varint.simps [of v])
  next
    case False
    with 1(3) show ?thesis by (simp add: encode_varint.simps [of v])
  qed
qed

lemma encode_varint_length_mono: "u \<le> v \<Longrightarrow> length (encode_varint u) \<le> length (encode_varint v)"
proof (induction u arbitrary: v rule: encode_varint.induct)
  case (1 u)
  show ?case
  proof (cases "128 \<le> u")
    case True
    with 1 have "length (encode_varint (u div 128)) \<le> length (encode_varint (v div 128))"
      by (simp add: div_le_mono)
    with True 1(2) show ?thesis by (simp add: encode_varint.simps [of u] encode_varint.simps [of v])
  next
    case False
    then have "length (encode_varint u) = 1" by (simp add: encode_varint.simps [of u])
    then show ?thesis by (simp add: Suc_leI)
  qed
qed

lemma terminal_len_loop_encode_varint:
  assumes "shift < 35" "v < 2 ^ (35 - shift)" "len < 2 ^ shift"
  shows "terminal_len_loop (encode_varint v @ rest) idx len shift =
    Some (idx + length (encode_varint v), len + v * 2 ^ shift)"
  using assms
proof (induction v arbitrary: idx len shift rule: encode_varint.induct)
  case (1 v)
  show ?case
  proof (cases "128 \<le> v")
    case True
    have s: "shift + 7 < 35"
    proof (rule ccontr)
      assume "\<not> shift + 7 < 35"
      then have "35 - shift \<le> 7" by simp
      then have "(2 :: nat) ^ (35 - shift) \<le> 2 ^ 7" by (rule power_increasing) simp
      with True 1(3) show False by simp
    qed
    have e: "(2 :: nat) ^ (35 - shift) = 128 * 2 ^ (35 - (shift + 7))"
      using s power_add [of "2 :: nat" 7 "35 - (shift + 7)"] by simp
    let ?len = "len + v mod 128 * 2 ^ shift"
    have "?len < 2 ^ shift + 127 * 2 ^ shift"
      using 1(4) by (intro add_less_le_mono mult_le_mono1) auto
    then have len: "?len < 2 ^ (shift + 7)" by (simp add: power_add)
    have "v div 128 < 2 ^ (35 - (shift + 7))" using 1(3) unfolding e
      by (simp add: less_mult_imp_div_less mult.commute)
    from 1(1) [OF True _ this len] s
    have "terminal_len_loop (encode_varint (v div 128) @ rest) (idx + 1) ?len (shift + 7) =
        Some (idx + 1 + length (encode_varint (v div 128)), ?len + v div 128 * 2 ^ (shift + 7))" by simp
    moreover have "len OR push_bit shift (unat ((word_of_nat v OR 128 :: byte) AND 127)) = ?len"
      using 1(4) by (simp add: byte_or_128_low7 byte_low7 or_push_bit_eq_add mod_mod_cancel)
    moreover have "v mod 128 * 2 ^ shift + v div 128 * 2 ^ (shift + 7) = v * 2 ^ shift"
      by (simp add: power_add algebra_simps flip: distrib_left add_mult_distrib)
    ultimately show ?thesis using True s
      by (simp add: encode_varint.simps [of v] byte_or_128_high Let_def)
  next
    case False
    then have "len OR push_bit shift (unat (word_of_nat v AND 127 :: byte)) = len + v * 2 ^ shift"
      using 1(4) by (simp add: byte_low7 or_push_bit_eq_add)
    with False show ?thesis by (simp add: encode_varint.simps [of v] small_byte_high Let_def)
  qed
qed

section \<open>Encoding and decoding\<close>

lemma decode_canonical:
  assumes "length bs < 2 ^ 35"
  shows "decode_terminal_buffer (0x0a # encode_varint (length bs) @ bs @ rest) =
    (if rest = [] \<or> rest = [0x10, 0] then Some (bs, False)
     else if rest = [0x10, 1] then Some (bs, True) else None)"
proof -
  have "terminal_len_loop (encode_varint (length bs) @ bs @ rest) 1 0 0 =
      Some (1 + length (encode_varint (length bs)), length bs)"
    using terminal_len_loop_encode_varint [of 0 "length bs" 0 "bs @ rest" 1] assms by simp
  then show ?thesis by (simp add: decode_terminal_buffer_def)
qed

lemma decode_encode:
  "length bs < 2 ^ 35 \<Longrightarrow> decode_terminal_buffer (encode_terminal_buffer bs e) = Some (bs, e)"
  using decode_canonical [of bs "if e then [0x10, 1] else []"]
  by (simp add: encode_terminal_buffer_def)

lemma append_canonical:
  assumes "\<not> pkt_encrypted p" "length body + length bs < 2 ^ 35"
    and "pkt_payload p = 0x0a # encode_varint (length body) @ body @ rest"
    and "decode_terminal_buffer (pkt_payload p) = Some (body, e)"
    and "length body + length bs \<le> limit"
  shows "append_terminal_buffer p bs e limit = (True, p\<lparr>pkt_payload := encode_terminal_buffer (body @ bs) e\<rparr>)"
proof -
  let ?o = "encode_varint (length body)" and ?n = "encode_varint (length body + length bs)"
  have le: "length ?o \<le> length ?n" by (rule encode_varint_length_mono) simp
  have "take (1 + length ?o + length body) (pkt_payload p) = 0x0a # ?o @ body"
    using assms(3) by simp
  moreover have "drop (1 + length ?n) (0x0a # replicate (length ?n - length ?o) 0 @ ?o @ body) = body"
    using le by (simp add: drop_eq_Nil)
  ultimately show ?thesis
    using assms le unfolding append_terminal_buffer_def encode_terminal_buffer_def Let_def
    by (auto simp: le_less)
qed

lemma append_rejected:
  assumes "decode_terminal_buffer (pkt_payload p) = Some (body, e)"
    and "pkt_encrypted p \<or> e \<noteq> e' \<or> limit < length body + length bs"
  shows "append_terminal_buffer p bs e' limit = (False, p)"
  using assms by (auto simp: append_terminal_buffer_def Let_def)

section \<open>Properties\<close>

text \<open>The hand-written encoder and decoder agree: every buffer below 32 GiB decodes to itself and
  its stream flag, and the length prefix takes at most five bytes.\<close>

theorem terminal_buffer_roundtrip:
  assumes "length bs < 2 ^ 35"
  shows "decode_terminal_buffer (encode_terminal_buffer bs e) = Some (bs, e) \<and>
    length (encode_terminal_buffer bs e) \<le> length bs + (if e then 8 else 6)"
  using assms decode_encode [OF assms] encode_varint_length_le [of "length bs" 5]
  by (simp add: encode_terminal_buffer_def)

lemma terminal_buffer_roundtrip_witness:
  "length ([104, 105] :: bytes) < 2 ^ 35 \<and>
   decode_terminal_buffer (encode_terminal_buffer [104, 105] True) = Some ([104, 105], True)"
  using terminal_buffer_roundtrip [of "[104, 105]" True] by simp

text \<open>C25: Growing a queued packet in place is the same as encoding the concatenated output afresh: on
  an unencrypted packet whose length prefix is canonical, appending within the limit to the same
  stream gives exactly the encoding of the old bytes followed by the new ones; for another stream,
  an encrypted packet or a merged buffer over the limit the packet is left untouched.\<close>

theorem append_terminal_buffer_reencodes:
  assumes "pkt_payload p = encode_terminal_buffer body e" "length body + length bs < 2 ^ 35"
  shows "append_terminal_buffer p bs e' limit =
    (if \<not> pkt_encrypted p \<and> e' = e \<and> length body + length bs \<le> limit
     then (True, p\<lparr>pkt_payload := encode_terminal_buffer (body @ bs) e\<rparr>) else (False, p))"
proof -
  have d: "decode_terminal_buffer (pkt_payload p) = Some (body, e)"
    using assms decode_encode [of body e] by simp
  have c: "pkt_payload p = 0x0a # encode_varint (length body) @ body @ (if e then [0x10, 1] else [])"
    using assms(1) by (simp add: encode_terminal_buffer_def)
  show ?thesis
    using append_rejected [OF d, of e' limit bs] append_canonical [OF _ assms(2) c d, of limit]
    by auto
qed

lemma append_terminal_buffer_reencodes_witness:
  "encode_terminal_buffer [65] False = pkt_payload (packet_new 1 (encode_terminal_buffer [65] False)) \<and>
   append_terminal_buffer (packet_new 1 (encode_terminal_buffer [65] False)) [66] False 16384 =
     (True, packet_new 1 (encode_terminal_buffer [65, 66] False))"
  using append_terminal_buffer_reencodes
    [of "packet_new 1 (encode_terminal_buffer [65] False)" "[65]" False "[66]" False 16384]
  by (simp add: packet_new_def)


end
