(* ===== verification/Framing.thy ===== *)
theory Framing
  imports Prelude
begin

text \<open>
  \<^verbatim>\<open>crates/et-core/src/framing.rs\<close>: the two length-prefixed framings of the protocol.  Handshake
  and local messages carry a little-endian \<^verbatim>\<open>i64\<close> length, encrypted stream packets a
  big-endian \<^verbatim>\<open>u32\<close> length.  The locale \<open>length_prefix\<close> states what a client of either
  framing relies on; its lemmas (a byte stream of frames has one reading, a cut-off frame is
  recognised as incomplete) are proved once and hold of both parsers.
\<close>

section \<open>Definitions\<close>

definition MAX_PROTO_LEN :: nat where
  "MAX_PROTO_LEN = 128 * 1024 * 1024"

datatype frame_error = FrameShort | Negative | TooLarge | TooSmall

definition frame_native_i64 :: "bytes \<Rightarrow> bytes" where
  "frame_native_i64 payload = i64_to_le_bytes (i64_of_nat (length payload)) @ payload"

definition parse_native_i64_len :: "bytes \<Rightarrow> frame_error + nat" where
  "parse_native_i64_len buf =
    (if length buf < 8 then Inl FrameShort
     else let len = i64_from_le_bytes (take 8 buf) in
       if len < 0 then Inl Negative
       else if len > int MAX_PROTO_LEN then Inl TooLarge
       else Inr (nat len))"

definition frame_be_u32 :: "bytes \<Rightarrow> bytes" where
  "frame_be_u32 payload = u32_to_be_bytes (word_of_nat (length payload)) @ payload"

definition parse_be_u32_len :: "bytes \<Rightarrow> frame_error + nat" where
  "parse_be_u32_len buf =
    (if length buf < 4 then Inl FrameShort
     else let len = unat (u32_from_be_bytes (take 4 buf)) in
       if len > MAX_PROTO_LEN then Inl TooLarge else Inr len)"

section \<open>The contract of a length prefix\<close>

locale length_prefix =
  fixes width :: nat
    and put :: "nat \<Rightarrow> bytes"
    and get :: "bytes \<Rightarrow> 'e + nat"
    and cap :: nat
    and short :: 'e
  assumes width_pos: "0 < width"
    and put_width: "length (put n) = width"
    and get_put: "n \<le> cap \<Longrightarrow> get (put n) = Inr n"
    and get_short: "length bs < width \<Longrightarrow> get bs = Inl short"
    and get_append: "width \<le> length bs \<Longrightarrow> get (bs @ rest) = get bs"
    and get_cap: "get bs = Inr n \<Longrightarrow> n \<le> cap"
begin

lemma get_frame: "n \<le> cap \<Longrightarrow> get (put n @ rest) = Inr n"
  by (simp add: get_append put_width get_put)

lemma frame_unique:
  assumes "put (length p) @ p @ x = put (length q) @ q @ y" "length p \<le> cap" "length q \<le> cap"
  shows "p = q \<and> x = y"
proof -
  have "Inr (length p) = get (put (length p) @ p @ x)" using assms(2) by (simp add: get_frame)
  also have "\<dots> = Inr (length q)" unfolding assms(1) using assms(3) by (simp add: get_frame)
  finally have "length p = length q" by simp
  with assms(1) show ?thesis by simp
qed

lemma frames_unique:
  assumes "concat (map (\<lambda>p. put (length p) @ p) ps) = concat (map (\<lambda>p. put (length p) @ p) qs)"
    "\<forall>p \<in> set ps. length p \<le> cap" "\<forall>p \<in> set qs. length p \<le> cap"
  shows "ps = qs"
  using assms
proof (induction ps arbitrary: qs)
  case Nil
  then show ?case using put_width width_pos by (cases qs) (auto simp flip: length_0_conv)
next
  case (Cons p ps)
  then obtain q qs' where qs: "qs = q # qs'"
    using put_width width_pos by (cases qs) (auto simp flip: length_0_conv)
  with Cons.prems have "p = q" "concat (map (\<lambda>p. put (length p) @ p) ps) =
      concat (map (\<lambda>p. put (length p) @ p) qs')"
    using frame_unique [of p "concat (map (\<lambda>p. put (length p) @ p) ps)" q
        "concat (map (\<lambda>p. put (length p) @ p) qs')"] by auto
  with Cons qs show ?case by simp
qed

text \<open>What a parser sees of a frame that has not arrived completely.\<close>

lemma get_partial:
  assumes "prefix bs (put (length p) @ p)" "length p \<le> cap" "width \<le> length bs"
  shows "get bs = Inr (length p)"
proof -
  from assms(1) obtain ys where ys: "put (length p) @ p = bs @ ys" by (auto simp: prefix_def)
  then have "get (bs @ ys) = Inr (length p)" using assms(2) by (metis get_frame)
  then show ?thesis using assms(3) by (simp add: get_append)
qed

end

section \<open>Both framings satisfy it\<close>

lemma MAX_PROTO_LEN_lt: "MAX_PROTO_LEN < 2 ^ 31"
  by (simp add: MAX_PROTO_LEN_def)

lemma unat_u32_of_nat: "n \<le> MAX_PROTO_LEN \<Longrightarrow> unat (word_of_nat n :: 32 word) = n"
  using MAX_PROTO_LEN_lt by (simp add: unat_of_nat)

lemma i64_of_nat_small:
  assumes "n \<le> MAX_PROTO_LEN"
  shows "i64_of_nat n = int n"
proof -
  have r: "- (2 ^ 63) \<le> int n" "int n < 2 ^ 63" using assms MAX_PROTO_LEN_lt by simp_all
  have "i64_of_nat n = sint (word_of_int (int n) :: 64 word)" by (simp add: i64_of_nat_def)
  also have "\<dots> = int n"
    unfolding sint_sbintrunc' using r by (simp add: signed_take_bit_int_eq_self_iff)
  finally show ?thesis .
qed

interpretation be_u32: length_prefix 4 "\<lambda>n. u32_to_be_bytes (word_of_nat n)" parse_be_u32_len
    MAX_PROTO_LEN FrameShort
  by unfold_locales
    (auto simp: parse_be_u32_len_def byte_simps unat_u32_of_nat Let_def split: if_splits)

interpretation native_i64: length_prefix 8 "\<lambda>n. i64_to_le_bytes (i64_of_nat n)" parse_native_i64_len
    MAX_PROTO_LEN FrameShort
proof
  fix n assume n: "n \<le> MAX_PROTO_LEN"
  then have "int n \<le> i64_max" "i64_min \<le> int n"
    using MAX_PROTO_LEN_lt by (simp_all add: i64_max_def i64_min_def)
  then show "parse_native_i64_len (i64_to_le_bytes (i64_of_nat n)) = Inr n"
    using n by (simp add: parse_native_i64_len_def i64_of_nat_small byte_simps Let_def)
qed (auto simp: parse_native_i64_len_def Let_def split: if_splits)

section \<open>Properties\<close>

text \<open>C18: Both framings are self-delimiting: the parser reads back the length of a framed message,
  whatever follows it in the stream, and a stream of framed messages can be read in one way only.\<close>

theorem framing_self_delimiting:
  assumes "\<forall>m \<in> set ms. length m \<le> MAX_PROTO_LEN" "\<forall>m \<in> set ns. length m \<le> MAX_PROTO_LEN" "length m \<le> MAX_PROTO_LEN"
  shows "parse_be_u32_len (frame_be_u32 m @ rest) = Inr (length m) \<and>
    parse_native_i64_len (frame_native_i64 m @ rest) = Inr (length m) \<and>
    (concat (map frame_be_u32 ms) = concat (map frame_be_u32 ns) \<longrightarrow> ms = ns) \<and>
    (concat (map frame_native_i64 ms) = concat (map frame_native_i64 ns) \<longrightarrow> ms = ns)"
proof (intro conjI impI)
  show "parse_be_u32_len (frame_be_u32 m @ rest) = Inr (length m)"
    using be_u32.get_frame [OF assms(3)] by (simp add: frame_be_u32_def)
  show "parse_native_i64_len (frame_native_i64 m @ rest) = Inr (length m)"
    using native_i64.get_frame [OF assms(3)] by (simp add: frame_native_i64_def)
  assume "concat (map frame_be_u32 ms) = concat (map frame_be_u32 ns)"
  then show "ms = ns" using be_u32.frames_unique assms(1,2) unfolding frame_be_u32_def by blast
next
  assume "concat (map frame_native_i64 ms) = concat (map frame_native_i64 ns)"
  then show "ms = ns" using native_i64.frames_unique assms(1,2) unfolding frame_native_i64_def by blast
qed

lemma framing_self_delimiting_witness:
  "length [7 :: byte, 8] \<le> MAX_PROTO_LEN \<and> parse_be_u32_len (frame_be_u32 [7, 8] @ [9]) = Inr 2"
proof -
  have l: "length [7 :: byte, 8] \<le> MAX_PROTO_LEN" by (simp add: MAX_PROTO_LEN_def)
  show ?thesis using framing_self_delimiting [of "[]" "[]" "[7, 8]" "[9]"] l by simp
qed

end
