(* ===== verification/Backed_Writer.thy ===== *)
theory Backed_Writer
  imports Framing Packet
begin

text \<open>
  \<^verbatim>\<open>crates/et-core/src/backed_writer.rs\<close>: the writing end of a reconnectable stream.  Every packet is
  encrypted, numbered and kept (newest first) in a replay backup before it is sent; after a
  reconnect \<open>recover\<close> hands out what the peer has not seen.  The backup is trimmed by three caps:
  64 MiB and 262144 packets always, 8 MiB and 32768 packets for what the peer has acknowledged,
  and a small slack once an acknowledgement arrives.

  Frames are shared by reference counting in the code, which the model does not need; the deque's
  spare capacity (\<^verbatim>\<open>release_slack_capacity\<close>) has no influence on any result and is left out.
\<close>

section \<open>Definitions\<close>

definition MAX_BACKUP_BYTES :: int where "MAX_BACKUP_BYTES = 64 * 1024 * 1024"
definition DISCONNECT_BUFFER_BYTES :: int where "DISCONNECT_BUFFER_BYTES = 64 * 1024 * 1024"
definition MAX_RECOVERY_BACKUP_BYTES :: int where "MAX_RECOVERY_BACKUP_BYTES = 76 * 1024 * 1024"
definition MAX_BACKUP_PACKETS :: nat where "MAX_BACKUP_PACKETS = 262144"
definition MAX_DISCONNECT_PACKETS :: nat where "MAX_DISCONNECT_PACKETS = 262144"
definition CONNECTED_BACKUP_BYTES :: int where "CONNECTED_BACKUP_BYTES = 8 * 1024 * 1024"
definition CONNECTED_BACKUP_PACKETS :: nat where "CONNECTED_BACKUP_PACKETS = 32768"
definition MAX_UNACKNOWLEDGED_BYTES :: int where "MAX_UNACKNOWLEDGED_BYTES = 4 * 1024 * 1024"
definition ACK_RETAIN_SLACK_PACKETS :: nat where "ACK_RETAIN_SLACK_PACKETS = 1024"
definition ACK_RETAIN_SLACK_BYTES :: nat where "ACK_RETAIN_SLACK_BYTES = 256 * 1024"
definition ACK_RETAIN_FLOOR_PACKETS :: nat where "ACK_RETAIN_FLOOR_PACKETS = 16"

lemmas writer_caps = MAX_BACKUP_BYTES_def DISCONNECT_BUFFER_BYTES_def MAX_RECOVERY_BACKUP_BYTES_def
  MAX_BACKUP_PACKETS_def MAX_DISCONNECT_PACKETS_def CONNECTED_BACKUP_BYTES_def
  CONNECTED_BACKUP_PACKETS_def ACK_RETAIN_SLACK_PACKETS_def ACK_RETAIN_SLACK_BYTES_def
  ACK_RETAIN_FLOOR_PACKETS_def

datatype writer_outcome = Skipped | BufferedOnly | Send bytes

datatype recover_error = AheadOfServer | TooFarBehind

record reserved_write =
  rw_prefix :: bytes
  rw_nonce :: bytes
  rw_key :: bytes
  rw_packet_wire_len :: nat

definition reserved_encrypt :: "primitives \<Rightarrow> reserved_write \<Rightarrow> bytes \<Rightarrow> bytes" where
  "reserved_encrypt P r payload = encrypt_detached P (rw_prefix r) payload (rw_nonce r) (rw_key r)"

definition reserved_header :: "reserved_write \<Rightarrow> byte" where
  "reserved_header r = rw_prefix r ! 5"

definition reserved_payload_len :: "reserved_write \<Rightarrow> nat" where
  "reserved_payload_len r = rw_packet_wire_len r - 2 - MAC_LEN"

record backed_writer =
  bw_crypto :: crypto_handler
  bw_backup :: "bytes list"
  bw_backup_size :: int
  bw_disconnected_bytes :: int
  bw_disconnected_packets :: nat
  bw_sequence :: int
  bw_connected :: bool
  bw_acknowledged :: "int option"
  bw_unacknowledged_bytes :: int

definition writer_new :: "crypto_handler \<Rightarrow> bool \<Rightarrow> backed_writer" where
  "writer_new c connected = \<lparr>bw_crypto = c, bw_backup = [], bw_backup_size = 0,
     bw_disconnected_bytes = 0, bw_disconnected_packets = 0, bw_sequence = 0,
     bw_connected = connected, bw_acknowledged = None, bw_unacknowledged_bytes = 0\<rparr>"

definition fits_within :: "int \<Rightarrow> int option \<Rightarrow> int \<Rightarrow> bool" where
  "fits_within used extra cap =
    (case extra of None \<Rightarrow> False
     | Some n \<Rightarrow> (case i64_checked_add used n of None \<Rightarrow> False | Some t \<Rightarrow> t \<le> cap))"

definition reserve_write :: "byte \<Rightarrow> nat \<Rightarrow> backed_writer \<Rightarrow> reserved_write option \<times> backed_writer" where
  "reserve_write h payload_len w =
    (let packet_len = 2 + payload_len;
         wire_len = (case i64_try_from_usize (packet_len + MAC_LEN) of Some n \<Rightarrow> n | None \<Rightarrow> i64_max);
         disconnected_fits = fits_within (bw_disconnected_bytes w) (i64_try_from_usize packet_len) DISCONNECT_BUFFER_BYTES;
         recovery_fits = fits_within (bw_backup_size w) (Some wire_len) MAX_RECOVERY_BACKUP_BYTES
     in if \<not> bw_connected w \<and>
           (\<not> disconnected_fits \<or> MAX_DISCONNECT_PACKETS \<le> bw_disconnected_packets w \<or> \<not> recovery_fits)
        then (None, w)
        else let packet_wire_len = 2 + payload_len + MAC_LEN;
               pre = u32_to_be_bytes (word_of_nat packet_wire_len) @ [1, h];
               ((n, k), c') = next_nonce_and_key (bw_crypto w)
          in (Some \<lparr>rw_prefix = pre, rw_nonce = n, rw_key = k, rw_packet_wire_len = packet_wire_len\<rparr>,
              w\<lparr>bw_crypto := c'\<rparr>))"

definition frame_wire :: "bytes \<Rightarrow> int" where
  "frame_wire f = int (length f) - 4"

text \<open>The loops that drop the oldest frames while a condition on the deque and its size holds.\<close>

function trim_while :: "(bytes list \<Rightarrow> int \<Rightarrow> bool) \<Rightarrow> bytes list \<Rightarrow> int \<Rightarrow> bytes list \<times> int" where
  "trim_while cond backup sz =
    (if cond backup sz \<and> backup \<noteq> []
     then trim_while cond (butlast backup) (sz - frame_wire (last backup))
     else (backup, sz))"
  by pat_completeness auto
termination
  by (relation "measure (\<lambda>(c, b, s). length b)") auto

definition unacknowledged_packets :: "backed_writer \<Rightarrow> nat" where
  "unacknowledged_packets w =
    (case bw_acknowledged w of None \<Rightarrow> usize_max
     | Some a \<Rightarrow> (case usize_try_from_i64 (bw_sequence w - a) of None \<Rightarrow> usize_max | Some n \<Rightarrow> n))"

definition over_connected_cap :: "nat \<Rightarrow> bytes list \<Rightarrow> int \<Rightarrow> bool" where
  "over_connected_cap unacknowledged backup sz \<longleftrightarrow>
    (CONNECTED_BACKUP_BYTES < sz \<or> CONNECTED_BACKUP_PACKETS < length backup) \<and>
    unacknowledged < length backup"

definition over_hard_cap :: "bytes list \<Rightarrow> int \<Rightarrow> bool" where
  "over_hard_cap backup sz \<longleftrightarrow> MAX_BACKUP_BYTES < sz \<or> MAX_BACKUP_PACKETS < length backup"

definition over_byte_cap :: "bytes list \<Rightarrow> int \<Rightarrow> bool" where
  "over_byte_cap backup sz \<longleftrightarrow> MAX_BACKUP_BYTES < sz"

definition commit_write :: "reserved_write \<Rightarrow> bytes \<Rightarrow> backed_writer \<Rightarrow> writer_outcome \<times> backed_writer" where
  "commit_write r frame w =
    (let len = int (rw_packet_wire_len r);
         w1 = w\<lparr>bw_unacknowledged_bytes := bw_unacknowledged_bytes w + len,
                bw_backup := frame # bw_backup w,
                bw_backup_size := bw_backup_size w + len,
                bw_sequence := bw_sequence w + 1\<rparr>
     in if \<not> bw_connected w
        then (BufferedOnly,
          w1\<lparr>bw_disconnected_bytes := bw_disconnected_bytes w + len,
             bw_disconnected_packets := bw_disconnected_packets w + 1\<rparr>)
        else let (b1, s1) = trim_while (over_connected_cap (unacknowledged_packets w1)) (bw_backup w1) (bw_backup_size w1);
               (b2, s2) = trim_while over_hard_cap b1 s1
          in (Send frame, w1\<lparr>bw_backup := b2, bw_backup_size := s2\<rparr>))"

definition write_packet :: "primitives \<Rightarrow> byte \<Rightarrow> bytes \<Rightarrow> backed_writer \<Rightarrow> writer_outcome \<times> backed_writer" where
  "write_packet P h payload w =
    (case reserve_write h (length payload) w of
       (None, w') \<Rightarrow> (Skipped, w')
     | (Some r, w') \<Rightarrow> commit_write r (reserved_encrypt P r payload) w')"

definition recover :: "int \<Rightarrow> backed_writer \<Rightarrow> recover_error + bytes list" where
  "recover last_valid_sequence w =
    (let messages_to_recover = bw_sequence w - last_valid_sequence in
     if messages_to_recover < 0 then Inl AheadOfServer
     else if messages_to_recover = 0 then Inr []
     else case usize_try_from_i64 messages_to_recover of
       None \<Rightarrow> Inl TooFarBehind
     | Some cnt \<Rightarrow>
         if length (bw_backup w) < cnt then Inl TooFarBehind
         else Inr (rev (map (drop 4) (take cnt (bw_backup w)))))"

fun ack_slack :: "bytes list \<Rightarrow> nat \<Rightarrow> nat \<Rightarrow> nat \<Rightarrow> nat" where
  "ack_slack [] keep slack_packets slack_bytes = keep"
| "ack_slack (f # fs) keep slack_packets slack_bytes =
    (if slack_packets < ACK_RETAIN_SLACK_PACKETS
     then let wire_len = length f - 4 in
       if ACK_RETAIN_FLOOR_PACKETS \<le> slack_packets \<and> ACK_RETAIN_SLACK_BYTES < slack_bytes + wire_len
       then keep
       else ack_slack fs (keep + 1) (slack_packets + 1) (slack_bytes + wire_len)
     else keep)"

definition acknowledge :: "int \<Rightarrow> backed_writer \<Rightarrow> backed_writer" where
  "acknowledge acknowledged w =
    (if \<not> bw_connected w \<or> acknowledged < 0 \<or> bw_sequence w < acknowledged then w
     else let unacknowledged = (case usize_try_from_i64 (bw_sequence w - acknowledged) of None \<Rightarrow> usize_max | Some n \<Rightarrow> n);
            unacknowledged_bytes = sum_list (map frame_wire (take unacknowledged (bw_backup w)));
            keep0 = min unacknowledged (length (bw_backup w));
            keep = ack_slack (drop keep0 (bw_backup w)) keep0 0 0;
            (b, s) = trim_while (\<lambda>b _. keep < length b) (bw_backup w) (bw_backup_size w)
       in w\<lparr>bw_acknowledged := Some acknowledged, bw_unacknowledged_bytes := unacknowledged_bytes,
            bw_backup := b, bw_backup_size := s\<rparr>)"

definition delivery_backlog :: "backed_writer \<Rightarrow> (int \<times> int) option" where
  "delivery_backlog w = map_option (\<lambda>a. (a, bw_unacknowledged_bytes w)) (bw_acknowledged w)"

definition writer_revive :: "backed_writer \<Rightarrow> backed_writer" where
  "writer_revive w =
    (let (b, s) = trim_while over_byte_cap (bw_backup w) (bw_backup_size w)
     in w\<lparr>bw_connected := True, bw_disconnected_bytes := 0, bw_disconnected_packets := 0,
          bw_backup := b, bw_backup_size := s\<rparr>)"

definition writer_reset :: "primitives \<Rightarrow> bytes \<Rightarrow> backed_writer \<Rightarrow> proof_error + backed_writer" where
  "writer_reset P salt w =
    (case rekey P salt (bw_crypto w) of
       Inl e \<Rightarrow> Inl e
     | Inr c \<Rightarrow> Inr \<lparr>bw_crypto = c, bw_backup = [], bw_backup_size = 0, bw_disconnected_bytes = 0,
         bw_disconnected_packets = 0, bw_sequence = 0, bw_connected = False,
         bw_acknowledged = None, bw_unacknowledged_bytes = 0\<rparr>)"

definition writer_invalidate :: "backed_writer \<Rightarrow> backed_writer" where
  "writer_invalidate w = w\<lparr>bw_connected := False\<rparr>"

definition has_capacity :: "int \<Rightarrow> backed_writer \<Rightarrow> bool" where
  "has_capacity n w \<longleftrightarrow>
    bw_connected w \<or>
    (fits_within (bw_disconnected_bytes w) (Some n) DISCONNECT_BUFFER_BYTES \<and>
     bw_disconnected_packets w < MAX_DISCONNECT_PACKETS \<and>
     fits_within (bw_backup_size w) (Some n) MAX_RECOVERY_BACKUP_BYTES)"

text \<open>The specification's view: the packets written since the stream's start are sealed one after
  the other from the initial handler state, and frame \<open>i\<close> is the length-prefixed sealed packet.\<close>

definition seal_packet :: "primitives \<Rightarrow> crypto_handler \<Rightarrow> byte \<times> bytes \<Rightarrow> bytes \<times> crypto_handler" where
  "seal_packet P c hp =
    (let c' = bump c in (1 # fst hp # secretbox_easy P (snd hp) (nonce c') (base_key c'), c'))"

definition sealed :: "primitives \<Rightarrow> crypto_handler \<Rightarrow> (byte \<times> bytes) list \<Rightarrow> bytes list" where
  "sealed P c log = fst (seal_all (seal_packet P) c log)"

definition sealed_state :: "primitives \<Rightarrow> crypto_handler \<Rightarrow> (byte \<times> bytes) list \<Rightarrow> crypto_handler" where
  "sealed_state P c log = snd (seal_all (seal_packet P) c log)"

text \<open>All frames of the stream, newest first: the backup is a prefix of it.\<close>

definition history :: "primitives \<Rightarrow> crypto_handler \<Rightarrow> (byte \<times> bytes) list \<Rightarrow> bytes list" where
  "history P c log = rev (map frame_be_u32 (sealed P c log))"

definition wires :: "bytes list \<Rightarrow> int" where
  "wires frames = sum_list (map frame_wire frames)"

definition writer_ok :: "primitives \<Rightarrow> crypto_handler \<Rightarrow> (byte \<times> bytes) list \<Rightarrow> backed_writer \<Rightarrow> bool" where
  "writer_ok P c0 log w \<longleftrightarrow>
    bw_crypto w = sealed_state P c0 log \<and>
    bw_sequence w = int (length log) \<and>
    prefix (bw_backup w) (history P c0 log) \<and>
    bw_backup_size w = wires (bw_backup w)"

definition writer_bounded :: "backed_writer \<Rightarrow> bool" where
  "writer_bounded w \<longleftrightarrow>
    bw_backup_size w \<le> MAX_RECOVERY_BACKUP_BYTES \<and>
    0 \<le> bw_disconnected_bytes w \<and>
    bw_disconnected_bytes w \<le> DISCONNECT_BUFFER_BYTES + int MAC_LEN \<and>
    bw_disconnected_packets w \<le> MAX_DISCONNECT_PACKETS \<and>
    (bw_connected w \<longrightarrow> bw_backup_size w \<le> MAX_BACKUP_BYTES)"

text \<open>What may be dropped: with \<open>hi\<close> the highest acknowledgement taken so far, the newest
  \<open>m\<close> frames stay as long as they are unacknowledged and within the hard cap.\<close>

definition writer_retains :: "primitives \<Rightarrow> crypto_handler \<Rightarrow> (byte \<times> bytes) list \<Rightarrow> nat \<Rightarrow> backed_writer \<Rightarrow> bool" where
  "writer_retains P c0 log hi w \<longleftrightarrow>
    (case bw_acknowledged w of None \<Rightarrow> True | Some a \<Rightarrow> 0 \<le> a \<and> a \<le> int hi) \<and>
    hi \<le> length log \<and>
    (\<forall>m \<le> length log - hi. wires (take m (history P c0 log)) \<le> MAX_BACKUP_BYTES \<and> m \<le> MAX_BACKUP_PACKETS
      \<longrightarrow> m \<le> length (bw_backup w))"

text \<open>What a writer goes through, with the packets it took and the highest acknowledgement.\<close>

inductive writer_run ::
  "primitives \<Rightarrow> crypto_handler \<Rightarrow> (byte \<times> bytes) list \<Rightarrow> nat \<Rightarrow> backed_writer \<Rightarrow> bool" for P where
  run_new: "writer_run P c [] 0 (writer_new c b)"
| run_write: "writer_run P c log hi w \<Longrightarrow> write_packet P h p w = (out, w') \<Longrightarrow> out \<noteq> Skipped
    \<Longrightarrow> writer_run P c (log @ [(h, p)]) hi w'"
| run_skip: "writer_run P c log hi w \<Longrightarrow> write_packet P h p w = (Skipped, w') \<Longrightarrow> writer_run P c log hi w'"
| run_acknowledge: "writer_run P c log hi w \<Longrightarrow>
    writer_run P c log (if bw_connected w \<and> a \<le> bw_sequence w then max hi (nat a) else hi) (acknowledge a w)"
| run_invalidate: "writer_run P c log hi w \<Longrightarrow> writer_run P c log hi (writer_invalidate w)"
| run_revive: "writer_run P c log hi w \<Longrightarrow> writer_run P c log hi (writer_revive w)"
| run_reset: "writer_run P c log hi w \<Longrightarrow> writer_reset P salt w = Inr w' \<Longrightarrow> writer_run P (bw_crypto w') [] 0 w'"

section \<open>Sealing\<close>

lemma length_sealed [simp]: "length (sealed P c log) = length log"
  by (simp add: sealed_def)

lemma sealed_append: "sealed P c (log @ log') = sealed P c log @ sealed P (sealed_state P c log) log'"
  by (simp add: sealed_def sealed_state_def seal_all_append)

lemma sealed_state_append: "sealed_state P c (log @ log') = sealed_state P (sealed_state P c log) log'"
  by (simp add: sealed_state_def seal_all_append)

lemma sealed_single:
  "sealed P c [x] = [fst (seal_packet P c x)]" "sealed_state P c [x] = bump c"
  by (simp_all add: sealed_def sealed_state_def split_beta seal_packet_def Let_def)

lemma sealed_Nil [simp]: "sealed P c [] = []" "sealed_state P c [] = c"
  by (simp_all add: sealed_def sealed_state_def)

lemma length_history [simp]: "length (history P c log) = length log"
  by (simp add: history_def)

lemma history_Nil [simp]: "history P c [] = []"
  by (simp add: history_def)

lemma history_snoc:
  "history P c (log @ [x]) = frame_be_u32 (fst (seal_packet P (sealed_state P c log) x)) # history P c log"
  by (simp add: history_def sealed_append sealed_single)

lemma frame_wire_frame [simp]: "frame_wire (frame_be_u32 s) = int (length s)"
  by (simp add: frame_wire_def frame_be_u32_def length_u32_to_be_bytes)

lemma history_wire_nonneg: "f \<in> set (history P c log) \<Longrightarrow> 0 \<le> frame_wire f"
  by (auto simp: history_def)

lemma wires_Cons [simp]: "wires (f # fs) = frame_wire f + wires fs" "wires [] = 0"
  by (simp_all add: wires_def)

lemma wires_append: "wires (xs @ ys) = wires xs + wires ys"
  by (simp add: wires_def)

section \<open>Trimming\<close>

declare trim_while.simps [simp del]

lemma trim_while_take:
  assumes "sz = wires backup"
  shows "\<exists>k \<le> length backup. trim_while cond backup sz = (take k backup, wires (take k backup))
    \<and> (cond (take k backup) (wires (take k backup)) \<longrightarrow> k = 0)
    \<and> (\<forall>m \<le> length backup. \<not> cond (take m backup) (wires (take m backup)) \<longrightarrow> m \<le> k)"
  using assms
proof (induction cond backup sz rule: trim_while.induct)
  case (1 cond backup sz)
  show ?case
  proof (cases "cond backup sz \<and> backup \<noteq> []")
    case True
    then have split: "backup = butlast backup @ [last backup]" by simp
    have sz: "sz - frame_wire (last backup) = wires (butlast backup)"
      by (subst "1.prems", subst split) (simp add: wires_append)
    have take: "take k (butlast backup) = take k backup" if "k < length backup" for k
      using that by (simp add: butlast_conv_take)
    from 1 True sz obtain k where k: "k \<le> length (butlast backup)"
      "trim_while cond (butlast backup) (sz - frame_wire (last backup)) =
        (take k (butlast backup), wires (take k (butlast backup)))"
      "cond (take k (butlast backup)) (wires (take k (butlast backup))) \<longrightarrow> k = 0"
      "\<forall>m \<le> length (butlast backup). \<not> cond (take m (butlast backup)) (wires (take m (butlast backup))) \<longrightarrow> m \<le> k"
      by blast
    have "0 < length backup" using True by simp
    then have lt: "k < length backup" using k(1) unfolding length_butlast by arith
    have last: "\<not> cond (take m backup) (wires (take m backup)) \<Longrightarrow> m \<le> length backup \<Longrightarrow> m < length backup" for m
      using True "1.prems" by (cases "m = length backup") auto
    have keeps: "m \<le> k" if "m \<le> length backup" "\<not> cond (take m backup) (wires (take m backup))" for m
      using k(4) last [of m] that take [of m] by simp
    show ?thesis using True k(2,3) lt take [OF lt] keeps
      by (intro exI [of _ k]) (simp add: trim_while.simps [of cond backup])
  next
    case False
    then show ?thesis using "1.prems"
      by (intro exI [of _ "length backup"]) (auto simp: trim_while.simps [of cond backup])
  qed
qed

lemma wires_nonneg: "\<forall>f \<in> set xs. 0 \<le> frame_wire f \<Longrightarrow> 0 \<le> wires xs"
  by (auto simp: wires_def intro!: sum_list_nonneg)

lemma wires_take_mono:
  assumes "\<forall>f \<in> set xs. 0 \<le> frame_wire f" "m \<le> n"
  shows "wires (take m xs) \<le> wires (take n xs)"
proof -
  have "take n xs = take m xs @ take (n - m) (drop m xs)"
    using assms(2) by (metis le_add_diff_inverse take_add)
  moreover have "0 \<le> wires (take (n - m) (drop m xs))"
    using assms(1) by (intro wires_nonneg) (meson in_set_dropD in_set_takeD)
  ultimately show ?thesis by (simp add: wires_append)
qed

section \<open>Effects of the operations\<close>

lemma reserve_write_refused: "reserve_write h n w = (None, w') \<Longrightarrow> w' = w \<and> \<not> bw_connected w"
  by (auto simp: reserve_write_def Let_def split_beta split: if_splits)

lemma write_packet_skipped: "write_packet P h p w = (Skipped, w') \<Longrightarrow> w' = w"
  by (auto simp: write_packet_def commit_write_def Let_def
      split: prod.splits option.splits if_splits dest: reserve_write_refused)

text \<open>A write that is not skipped, with the reservation and the encryption carried out.\<close>

definition appended :: "primitives \<Rightarrow> byte \<Rightarrow> bytes \<Rightarrow> backed_writer \<Rightarrow> backed_writer" where
  "appended P h p w =
    (let frame = frame_be_u32 (fst (seal_packet P (bw_crypto w) (h, p))); len = 18 + int (length p)
     in w\<lparr>bw_crypto := bump (bw_crypto w),
          bw_unacknowledged_bytes := bw_unacknowledged_bytes w + len,
          bw_backup := frame # bw_backup w,
          bw_backup_size := bw_backup_size w + len,
          bw_sequence := bw_sequence w + 1\<rparr>)"

lemma reserved_frame:
  assumes "sodium_laws P" "reserve_write h (length p) w = (Some r, w')"
  shows "reserved_encrypt P r p = frame_be_u32 (fst (seal_packet P (bw_crypto w) (h, p)))"
    and "w' = w\<lparr>bw_crypto := bump (bw_crypto w)\<rparr>" and "rw_packet_wire_len r = 18 + length p"
    and "\<not> bw_connected w \<Longrightarrow> 0 \<le> bw_backup_size w \<Longrightarrow>
      bw_disconnected_bytes w + 2 + int (length p) \<le> DISCONNECT_BUFFER_BYTES \<and>
      bw_disconnected_packets w < MAX_DISCONNECT_PACKETS \<and>
      bw_backup_size w + 18 + int (length p) \<le> MAX_RECOVERY_BACKUP_BYTES"
  using assms
  by (auto simp: reserve_write_def Let_def split_beta next_nonce_and_key_def reserved_encrypt_def
      encrypt_detached_def secretbox_with_prefix_def frame_be_u32_def seal_packet_def sodium_lawsD
      MAC_LEN_def fits_within_def i64_checked_add_def i64_try_from_usize_def ac_simps
      i64_max_def MAX_RECOVERY_BACKUP_BYTES_def
      split: if_splits option.splits)

lemma write_packet_disconnected:
  assumes "sodium_laws P" "write_packet P h p w = (out, w')" "out \<noteq> Skipped" "\<not> bw_connected w"
    and "0 \<le> bw_backup_size w"
  shows "out = BufferedOnly"
    and "w' = (appended P h p w)\<lparr>bw_disconnected_bytes := bw_disconnected_bytes w + 18 + int (length p),
       bw_disconnected_packets := bw_disconnected_packets w + 1\<rparr>"
    and "bw_disconnected_bytes w + 2 + int (length p) \<le> DISCONNECT_BUFFER_BYTES"
    and "bw_disconnected_packets w < MAX_DISCONNECT_PACKETS"
    and "bw_backup_size w + 18 + int (length p) \<le> MAX_RECOVERY_BACKUP_BYTES"
proof -
  obtain r v where r: "reserve_write h (length p) w = (Some r, v)"
    using assms(2,3) by (auto simp: write_packet_def split: prod.splits option.splits)
  note f = reserved_frame [OF assms(1) r]
  from assms(2,4) r f(1,2,3) show "out = BufferedOnly"
    "w' = (appended P h p w)\<lparr>bw_disconnected_bytes := bw_disconnected_bytes w + 18 + int (length p),
       bw_disconnected_packets := bw_disconnected_packets w + 1\<rparr>"
    by (auto simp: write_packet_def commit_write_def Let_def appended_def)
  from f(4) [OF assms(4,5)] show "bw_disconnected_bytes w + 2 + int (length p) \<le> DISCONNECT_BUFFER_BYTES"
    "bw_disconnected_packets w < MAX_DISCONNECT_PACKETS"
    "bw_backup_size w + 18 + int (length p) \<le> MAX_RECOVERY_BACKUP_BYTES" by simp_all
qed

lemma commit_write_connected:
  assumes "bw_connected w"
    and "w1 = w\<lparr>bw_unacknowledged_bytes := bw_unacknowledged_bytes w + int (rw_packet_wire_len r),
      bw_backup := f # bw_backup w, bw_backup_size := bw_backup_size w + int (rw_packet_wire_len r),
      bw_sequence := bw_sequence w + 1\<rparr>"
    and "trim_while (over_connected_cap (unacknowledged_packets w1)) (bw_backup w1) (bw_backup_size w1) = (b1, s1)"
    and "trim_while over_hard_cap b1 s1 = (b2, s2)"
  shows "commit_write r f w = (Send f, w1\<lparr>bw_backup := b2, bw_backup_size := s2\<rparr>)"
  using assms by (simp add: commit_write_def Let_def)

lemma write_packet_connected:
  assumes "sodium_laws P" "write_packet P h p w = (out, w')" "bw_connected w"
    and "bw_backup_size w = wires (bw_backup w)"
  defines "w1 \<equiv> appended P h p w"
  shows "out = Send (hd (bw_backup w1))"
    and "\<exists>k1 k. k \<le> k1 \<and> k1 \<le> length (bw_backup w1)
      \<and> w' = w1\<lparr>bw_backup := take k (bw_backup w1), bw_backup_size := wires (take k (bw_backup w1))\<rparr>
      \<and> \<not> over_hard_cap (take k (bw_backup w1)) (wires (take k (bw_backup w1)))
      \<and> \<not> over_connected_cap (unacknowledged_packets w1) (take k1 (bw_backup w1)) (wires (take k1 (bw_backup w1)))
      \<and> (\<forall>m \<le> length (bw_backup w1).
          \<not> over_connected_cap (unacknowledged_packets w1) (take m (bw_backup w1)) (wires (take m (bw_backup w1))) \<and>
          \<not> over_hard_cap (take m (bw_backup w1)) (wires (take m (bw_backup w1))) \<longrightarrow> m \<le> k)"
proof -
  obtain r v where r: "reserve_write h (length p) w = (Some r, v)"
    using assms(3) by (cases "reserve_write h (length p) w")
      (auto simp: reserve_write_def Let_def split_beta)
  note f = reserved_frame [OF assms(1) r]
  let ?c = "over_connected_cap (unacknowledged_packets w1)"
  have sz: "bw_backup_size w1 = wires (bw_backup w1)"
    using assms(1,4) by (simp add: w1_def appended_def Let_def seal_packet_def sodium_lawsD)
  obtain k1 where k1: "k1 \<le> length (bw_backup w1)"
    "trim_while ?c (bw_backup w1) (bw_backup_size w1) = (take k1 (bw_backup w1), wires (take k1 (bw_backup w1)))"
    "?c (take k1 (bw_backup w1)) (wires (take k1 (bw_backup w1))) \<longrightarrow> k1 = 0"
    "\<forall>m \<le> length (bw_backup w1). \<not> ?c (take m (bw_backup w1)) (wires (take m (bw_backup w1))) \<longrightarrow> m \<le> k1"
    using trim_while_take [OF sz, of ?c] by blast
  obtain k where k: "k \<le> length (take k1 (bw_backup w1))"
    "trim_while over_hard_cap (take k1 (bw_backup w1)) (wires (take k1 (bw_backup w1))) =
      (take k (take k1 (bw_backup w1)), wires (take k (take k1 (bw_backup w1))))"
    "over_hard_cap (take k (take k1 (bw_backup w1))) (wires (take k (take k1 (bw_backup w1)))) \<longrightarrow> k = 0"
    "\<forall>m \<le> length (take k1 (bw_backup w1)). \<not> over_hard_cap (take m (take k1 (bw_backup w1)))
      (wires (take m (take k1 (bw_backup w1)))) \<longrightarrow> m \<le> k"
    using trim_while_take [OF refl, of "take k1 (bw_backup w1)" over_hard_cap] by blast
  have kk: "k \<le> k1" using k(1) k1(1) by simp
  then have tk: "take k (take k1 (bw_backup w1)) = take k (bw_backup w1)" by (simp add: min_def)
  have zero: "\<not> over_hard_cap [] 0" "\<not> ?c [] 0"
    by (simp_all add: over_hard_cap_def over_connected_cap_def writer_caps)
  have step: "commit_write r (reserved_encrypt P r p) v =
      (Send (hd (bw_backup w1)), w1\<lparr>bw_backup := take k (bw_backup w1), bw_backup_size := wires (take k (bw_backup w1))\<rparr>)"
  proof -
    have w1: "w1 = v\<lparr>bw_unacknowledged_bytes := bw_unacknowledged_bytes v + int (rw_packet_wire_len r),
        bw_backup := reserved_encrypt P r p # bw_backup v,
        bw_backup_size := bw_backup_size v + int (rw_packet_wire_len r), bw_sequence := bw_sequence v + 1\<rparr>"
      by (simp add: f w1_def appended_def Let_def)
    have v: "bw_connected v" using f(2) assms(3) by simp
    have "hd (bw_backup w1) = reserved_encrypt P r p" by (simp add: f w1_def appended_def Let_def)
    then show ?thesis using commit_write_connected [OF v w1 k1(2) k(2)] tk by simp
  qed
  then have "(out, w') = (Send (hd (bw_backup w1)), w1\<lparr>bw_backup := take k (bw_backup w1),
      bw_backup_size := wires (take k (bw_backup w1))\<rparr>)"
    using assms(2) r by (simp add: write_packet_def)
  then show "out = Send (hd (bw_backup w1))" and "\<exists>k1 k. k \<le> k1 \<and> k1 \<le> length (bw_backup w1)
      \<and> w' = w1\<lparr>bw_backup := take k (bw_backup w1), bw_backup_size := wires (take k (bw_backup w1))\<rparr>
      \<and> \<not> over_hard_cap (take k (bw_backup w1)) (wires (take k (bw_backup w1)))
      \<and> \<not> ?c (take k1 (bw_backup w1)) (wires (take k1 (bw_backup w1)))
      \<and> (\<forall>m \<le> length (bw_backup w1). \<not> ?c (take m (bw_backup w1)) (wires (take m (bw_backup w1))) \<and>
          \<not> over_hard_cap (take m (bw_backup w1)) (wires (take m (bw_backup w1))) \<longrightarrow> m \<le> k)"
  proof -
    assume eq: "(out, w') = (Send (hd (bw_backup w1)), w1\<lparr>bw_backup := take k (bw_backup w1),
      bw_backup_size := wires (take k (bw_backup w1))\<rparr>)"
    have "m \<le> k" if "m \<le> length (bw_backup w1)" "\<not> ?c (take m (bw_backup w1)) (wires (take m (bw_backup w1)))"
      "\<not> over_hard_cap (take m (bw_backup w1)) (wires (take m (bw_backup w1)))" for m
    proof -
      have "m \<le> k1" using k1(4) that by blast
      then show ?thesis using k(4) that by (simp add: min_def)
    qed
    moreover have "\<not> over_hard_cap (take k (bw_backup w1)) (wires (take k (bw_backup w1)))"
      using k(3) zero tk by (cases "k = 0") auto
    moreover have "\<not> ?c (take k1 (bw_backup w1)) (wires (take k1 (bw_backup w1)))"
      using k1(3) zero by (cases "k1 = 0") auto
    ultimately show "\<exists>k1 k. k \<le> k1 \<and> k1 \<le> length (bw_backup w1)
      \<and> w' = w1\<lparr>bw_backup := take k (bw_backup w1), bw_backup_size := wires (take k (bw_backup w1))\<rparr>
      \<and> \<not> over_hard_cap (take k (bw_backup w1)) (wires (take k (bw_backup w1)))
      \<and> \<not> ?c (take k1 (bw_backup w1)) (wires (take k1 (bw_backup w1)))
      \<and> (\<forall>m \<le> length (bw_backup w1). \<not> ?c (take m (bw_backup w1)) (wires (take m (bw_backup w1))) \<and>
          \<not> over_hard_cap (take m (bw_backup w1)) (wires (take m (bw_backup w1))) \<longrightarrow> m \<le> k)"
      using eq kk k1(1) by blast
  qed simp
qed

lemma ack_slack_bounds:
  "keep + min (length fs) (ACK_RETAIN_FLOOR_PACKETS - sp) \<le> ack_slack fs keep sp sb
   \<and> ack_slack fs keep sp sb \<le> keep + min (length fs) (ACK_RETAIN_SLACK_PACKETS - sp)"
proof (induction fs arbitrary: keep sp sb)
  case (Cons f fs)
  show ?case using Cons [of "keep + 1" "sp + 1" "sb + (length f - 4)"]
    by (auto simp: Let_def ACK_RETAIN_FLOOR_PACKETS_def ACK_RETAIN_SLACK_PACKETS_def; arith)
qed simp

lemma ack_slack_bytes:
  "ack_slack fs keep sp sb - keep + sp \<le> ACK_RETAIN_FLOOR_PACKETS \<or>
   ack_slack fs keep sp sb = keep \<or>
   sb + sum_list (map (\<lambda>f. length f - 4) (take (ack_slack fs keep sp sb - keep) fs)) \<le> ACK_RETAIN_SLACK_BYTES"
proof (induction fs arbitrary: keep sp sb)
  case (Cons f fs)
  let ?k = "ack_slack fs (keep + 1) (sp + 1) (sb + (length f - 4))"
  have k: "keep + 1 \<le> ?k"
    using ack_slack_bounds [of "keep + 1" fs "sp + 1" "sb + (length f - 4)"] by simp
  then have "?k - keep = Suc (?k - (keep + 1))" by arith
  then have "take (?k - keep) (f # fs) = f # take (?k - (keep + 1)) fs" by (simp only: take_Suc_Cons)
  then show ?case using Cons [of "keep + 1" "sp + 1" "sb + (length f - 4)"] k
    by (auto simp: Let_def)
qed simp

lemma trim_to_length:
  assumes "k \<le> length b" "s = wires b"
  shows "trim_while (\<lambda>b _. k < length b) b s = (take k b, wires (take k b))"
proof -
  obtain j where j: "j \<le> length b" "trim_while (\<lambda>b _. k < length b) b s = (take j b, wires (take j b))"
    "k < length (take j b) \<longrightarrow> j = 0" "\<forall>m \<le> length b. \<not> k < length (take m b) \<longrightarrow> m \<le> j"
    using trim_while_take [OF assms(2), of "\<lambda>b _. k < length b"] by blast
  have "j = k" using j(1,3) j(4) assms(1) by (auto simp: min_def split: if_splits)
  then show ?thesis using j(2) by simp
qed

lemma acknowledge_effect:
  assumes "bw_backup_size w = wires (bw_backup w)" "bw_connected w" "0 \<le> a" "a \<le> bw_sequence w"
  defines "u \<equiv> nat (bw_sequence w - a)"
  defines "u' \<equiv> min u (length (bw_backup w))"
  defines "k \<equiv> ack_slack (drop u' (bw_backup w)) u' 0 0"
  shows "acknowledge a w = w\<lparr>bw_acknowledged := Some a, bw_unacknowledged_bytes := wires (take u (bw_backup w)),
      bw_backup := take k (bw_backup w), bw_backup_size := wires (take k (bw_backup w))\<rparr>"
    and "u' \<le> k" and "k \<le> length (bw_backup w)" and "k \<le> u' + ACK_RETAIN_SLACK_PACKETS"
    and "min (length (bw_backup w)) (u' + ACK_RETAIN_FLOOR_PACKETS) \<le> k"
proof -
  note b = ack_slack_bounds [of u' "drop u' (bw_backup w)" 0 0, folded k_def]
  show "u' \<le> k" "k \<le> u' + ACK_RETAIN_SLACK_PACKETS"
    "min (length (bw_backup w)) (u' + ACK_RETAIN_FLOOR_PACKETS) \<le> k" using b by auto
  have "u' \<le> length (bw_backup w)" by (simp add: u'_def)
  then show k: "k \<le> length (bw_backup w)" using b by (simp; arith)
  show "acknowledge a w = w\<lparr>bw_acknowledged := Some a, bw_unacknowledged_bytes := wires (take u (bw_backup w)),
      bw_backup := take k (bw_backup w), bw_backup_size := wires (take k (bw_backup w))\<rparr>"
    using assms(2-4) trim_to_length [OF k assms(1)]
    by (simp add: acknowledge_def usize_try_from_i64_def Let_def wires_def flip: u_def u'_def k_def)
qed

lemma acknowledge_ignored:
  "\<not> bw_connected w \<or> a < 0 \<or> bw_sequence w < a \<Longrightarrow> acknowledge a w = w"
  by (auto simp: acknowledge_def)

lemma revive_effect:
  assumes "bw_backup_size w = wires (bw_backup w)"
  shows "\<exists>k \<le> length (bw_backup w). writer_revive w =
      w\<lparr>bw_connected := True, bw_disconnected_bytes := 0, bw_disconnected_packets := 0,
        bw_backup := take k (bw_backup w), bw_backup_size := wires (take k (bw_backup w))\<rparr>
    \<and> wires (take k (bw_backup w)) \<le> MAX_BACKUP_BYTES
    \<and> (\<forall>m \<le> length (bw_backup w). wires (take m (bw_backup w)) \<le> MAX_BACKUP_BYTES \<longrightarrow> m \<le> k)"
proof -
  obtain k where k: "k \<le> length (bw_backup w)" "trim_while over_byte_cap (bw_backup w) (bw_backup_size w) =
      (take k (bw_backup w), wires (take k (bw_backup w)))"
    "over_byte_cap (take k (bw_backup w)) (wires (take k (bw_backup w))) \<longrightarrow> k = 0"
    "\<forall>m \<le> length (bw_backup w). \<not> over_byte_cap (take m (bw_backup w)) (wires (take m (bw_backup w))) \<longrightarrow> m \<le> k"
    using trim_while_take [OF assms, of over_byte_cap] by blast
  have "wires (take k (bw_backup w)) \<le> MAX_BACKUP_BYTES"
    using k(3) by (cases "k = 0") (auto simp: over_byte_cap_def MAX_BACKUP_BYTES_def)
  then show ?thesis using k(1,2,4)
    by (intro exI [of _ k]) (auto simp: writer_revive_def over_byte_cap_def)
qed

section \<open>The invariant\<close>

lemma writer_ok_nonneg:
  assumes "writer_ok P c log w"
  shows "\<forall>f \<in> set (bw_backup w). 0 \<le> frame_wire f" and "0 \<le> bw_backup_size w"
proof -
  show *: "\<forall>f \<in> set (bw_backup w). 0 \<le> frame_wire f"
    using assms history_wire_nonneg by (metis set_mono_prefix subsetD writer_ok_def)
  then show "0 \<le> bw_backup_size w" using assms wires_nonneg by (simp add: writer_ok_def)
qed

lemma writer_ok_take:
  assumes "writer_ok P c log w" "bw_crypto w' = bw_crypto w" "bw_sequence w' = bw_sequence w"
    and "bw_backup w' = take k (bw_backup w)" "bw_backup_size w' = wires (bw_backup w')"
  shows "writer_ok P c log w'"
  using assms by (auto simp: writer_ok_def intro: prefix_order.trans take_is_prefix)

lemma appended_ok:
  assumes "sodium_laws P" "writer_ok P c log w"
  shows "writer_ok P c (log @ [(h, p)]) (appended P h p w)"
  using assms
  by (simp add: writer_ok_def appended_def Let_def history_snoc sealed_state_append sealed_single
      seal_packet_def sodium_lawsD)

lemma appended_retains:
  assumes "writer_retains P c log hi w"
  shows "writer_retains P c (log @ [(h, p)]) hi (appended P h p w)"
proof -
  let ?hs = "history P c (log @ [(h, p)])" and ?b = "bw_backup (appended P h p w)"
  have "m \<le> length ?b" if "m \<le> Suc (length log) - hi" "wires (take m ?hs) \<le> MAX_BACKUP_BYTES"
    "m \<le> MAX_BACKUP_PACKETS" for m
  proof (cases m)
    case (Suc m')
    have "0 \<le> frame_wire (frame_be_u32 (fst (seal_packet P (sealed_state P c log) (h, p))))" by simp
    then have "wires (take m' (history P c log)) \<le> MAX_BACKUP_BYTES"
      using that(2) Suc by (simp add: history_snoc del: frame_wire_frame)
    moreover have "m' \<le> length log - hi" "m' \<le> MAX_BACKUP_PACKETS" using that Suc by auto
    ultimately have "m' \<le> length (bw_backup w)" using assms by (simp add: writer_retains_def)
    then show ?thesis using Suc by (simp add: appended_def Let_def)
  qed simp
  then show ?thesis using assms by (auto simp: writer_retains_def appended_def Let_def split: option.splits)
qed

lemma retains_take:
  assumes "writer_ok P c log w" "writer_retains P c log hi w" "bw_acknowledged w' = bw_acknowledged w"
    and "bw_backup w' = take k (bw_backup w)"
    and "\<And>m. m \<le> length (bw_backup w) \<Longrightarrow> m \<le> length log - hi \<Longrightarrow> wires (take m (bw_backup w)) \<le> MAX_BACKUP_BYTES
      \<Longrightarrow> m \<le> MAX_BACKUP_PACKETS \<Longrightarrow> m \<le> k"
  shows "writer_retains P c log hi w'"
proof -
  have eq: "take m (history P c log) = take m (bw_backup w)" if "m \<le> length (bw_backup w)" for m
    using assms(1) that by (auto simp: writer_ok_def prefix_def)
  have "m \<le> length (bw_backup w')" if "m \<le> length log - hi" "wires (take m (history P c log)) \<le> MAX_BACKUP_BYTES"
    "m \<le> MAX_BACKUP_PACKETS" for m
  proof -
    have "m \<le> length (bw_backup w)" using assms(2) that by (simp add: writer_retains_def)
    moreover from this have "m \<le> k" using assms(5) that eq by simp
    ultimately show ?thesis using assms(4) by simp
  qed
  then show ?thesis using assms(2,3) by (simp add: writer_retains_def)
qed

definition writer_inv :: "primitives \<Rightarrow> crypto_handler \<Rightarrow> (byte \<times> bytes) list \<Rightarrow> nat \<Rightarrow> backed_writer \<Rightarrow> bool" where
  "writer_inv P c log hi w \<longleftrightarrow> writer_ok P c log w \<and> writer_bounded w \<and> writer_retains P c log hi w"

lemma appended_fields [simp]:
  "bw_connected (appended P h p w) = bw_connected w" "bw_acknowledged (appended P h p w) = bw_acknowledged w"
  "bw_disconnected_bytes (appended P h p w) = bw_disconnected_bytes w"
  "bw_disconnected_packets (appended P h p w) = bw_disconnected_packets w"
  "bw_sequence (appended P h p w) = bw_sequence w + 1"
  "bw_backup_size (appended P h p w) = bw_backup_size w + 18 + int (length p)"
  by (simp_all add: appended_def Let_def)

lemma unacknowledged_at_least:
  assumes "writer_ok P c log w" "writer_retains P c log hi w" "m \<le> length log - hi" "m \<le> MAX_BACKUP_PACKETS"
  shows "m \<le> unacknowledged_packets w"
  using assms
  by (auto simp: unacknowledged_packets_def writer_ok_def writer_retains_def usize_try_from_i64_def
      usize_max_def MAX_BACKUP_PACKETS_def split: option.splits)

lemma write_inv:
  assumes P: "sodium_laws P" and inv: "writer_inv P c log hi w"
    and step: "write_packet P h p w = (out, w')" "out \<noteq> Skipped"
  shows "writer_inv P c (log @ [(h, p)]) hi w'"
proof -
  let ?w1 = "appended P h p w" and ?log = "log @ [(h, p)]"
  have ok: "writer_ok P c ?log ?w1" and ret: "writer_retains P c ?log hi ?w1"
    using inv appended_ok [OF P] appended_retains by (simp_all add: writer_inv_def)
  show ?thesis
  proof (cases "bw_connected w")
    case True
    have sz: "bw_backup_size w = wires (bw_backup w)" using inv by (simp add: writer_inv_def writer_ok_def)
    obtain k where k: "w' = ?w1\<lparr>bw_backup := take k (bw_backup ?w1), bw_backup_size := wires (take k (bw_backup ?w1))\<rparr>"
      "\<not> over_hard_cap (take k (bw_backup ?w1)) (wires (take k (bw_backup ?w1)))"
      "\<forall>m \<le> length (bw_backup ?w1).
          \<not> over_connected_cap (unacknowledged_packets ?w1) (take m (bw_backup ?w1)) (wires (take m (bw_backup ?w1))) \<and>
          \<not> over_hard_cap (take m (bw_backup ?w1)) (wires (take m (bw_backup ?w1))) \<longrightarrow> m \<le> k"
      using write_packet_connected(2) [OF P step(1) True sz] by blast
    have "writer_ok P c ?log w'" by (rule writer_ok_take [OF ok, where k = k]) (simp_all add: k(1))
    moreover have "writer_retains P c ?log hi w'"
    proof (rule retains_take [OF ok ret, where k = k])
      fix m assume m: "m \<le> length (bw_backup ?w1)" "m \<le> length ?log - hi"
        "wires (take m (bw_backup ?w1)) \<le> MAX_BACKUP_BYTES" "m \<le> MAX_BACKUP_PACKETS"
      have "m \<le> unacknowledged_packets ?w1" by (rule unacknowledged_at_least [OF ok ret m(2,4)])
      then show "m \<le> k" using k(3) m by (simp add: over_connected_cap_def over_hard_cap_def)
    qed (simp_all add: k(1))
    moreover have "writer_bounded w'"
      using inv True k(2) by (simp add: k(1) writer_bounded_def writer_inv_def over_hard_cap_def writer_caps)
    ultimately show ?thesis by (simp add: writer_inv_def)
  next
    case False
    have nonneg: "0 \<le> bw_backup_size w" using inv writer_ok_nonneg(2) by (auto simp: writer_inv_def)
    note d = write_packet_disconnected [OF P step False nonneg]
    have "writer_ok P c ?log w'" using ok by (simp add: writer_ok_def d(2))
    moreover have "writer_retains P c ?log hi w'" using ret by (simp add: writer_retains_def d(2))
    moreover have "writer_bounded w'"
      using inv False d(3-5) by (simp add: d(2) writer_bounded_def writer_inv_def MAC_LEN_def)
    ultimately show ?thesis by (simp add: writer_inv_def)
  qed
qed

lemma acknowledge_inv:
  assumes inv: "writer_inv P c log hi w"
  shows "writer_inv P c log (if bw_connected w \<and> a \<le> bw_sequence w then max hi (nat a) else hi) (acknowledge a w)"
proof (cases "bw_connected w \<and> 0 \<le> a \<and> a \<le> bw_sequence w")
  case True
  have ok: "writer_ok P c log w" and ret: "writer_retains P c log hi w" and sz: "bw_backup_size w = wires (bw_backup w)"
    using inv by (simp_all add: writer_inv_def writer_ok_def)
  define u' where "u' = min (nat (bw_sequence w - a)) (length (bw_backup w))"
  define k where "k = ack_slack (drop u' (bw_backup w)) u' 0 0"
  note e = acknowledge_effect [OF sz, of a, folded u'_def, folded k_def]
  have w': "acknowledge a w = w\<lparr>bw_acknowledged := Some a,
      bw_unacknowledged_bytes := wires (take (nat (bw_sequence w - a)) (bw_backup w)),
      bw_backup := take k (bw_backup w), bw_backup_size := wires (take k (bw_backup w))\<rparr>"
    and k: "u' \<le> k" using True e(1,2) by simp_all
  let ?v = "w\<lparr>bw_acknowledged := Some a\<rparr>" and ?hi = "max hi (nat a)"
  have "writer_ok P c log (acknowledge a w)" by (rule writer_ok_take [OF ok, where k = k]) (simp_all add: w')
  moreover have "writer_retains P c log ?hi (acknowledge a w)"
  proof (rule retains_take [where w = ?v and k = k])
    show "writer_ok P c log ?v" using ok by (simp add: writer_ok_def)
    show "writer_retains P c log ?hi ?v" using ret ok True by (auto simp: writer_retains_def writer_ok_def)
    fix m assume "m \<le> length (bw_backup ?v)" "m \<le> length log - ?hi"
    then show "m \<le> k" using k ok True by (auto simp: u'_def writer_ok_def)
  qed (simp_all add: w')
  moreover have "wires (take k (bw_backup w)) \<le> bw_backup_size w"
    using wires_take_mono [OF writer_ok_nonneg(1) [OF ok], of k "max k (length (bw_backup w))"] sz by simp
  then have "writer_bounded (acknowledge a w)" using inv True by (simp add: w' writer_inv_def writer_bounded_def)
  ultimately show ?thesis using True by (simp add: writer_inv_def)
next
  case False
  then show ?thesis using inv by (auto simp: acknowledge_ignored)
qed

lemma revive_inv:
  assumes inv: "writer_inv P c log hi w"
  shows "writer_inv P c log hi (writer_revive w)"
proof -
  have ok: "writer_ok P c log w" and ret: "writer_retains P c log hi w" and sz: "bw_backup_size w = wires (bw_backup w)"
    using inv by (simp_all add: writer_inv_def writer_ok_def)
  obtain k where k: "writer_revive w =
      w\<lparr>bw_connected := True, bw_disconnected_bytes := 0, bw_disconnected_packets := 0,
        bw_backup := take k (bw_backup w), bw_backup_size := wires (take k (bw_backup w))\<rparr>"
    "wires (take k (bw_backup w)) \<le> MAX_BACKUP_BYTES"
    "\<forall>m \<le> length (bw_backup w). wires (take m (bw_backup w)) \<le> MAX_BACKUP_BYTES \<longrightarrow> m \<le> k"
    using revive_effect [OF sz] by blast
  have "writer_ok P c log (writer_revive w)" by (rule writer_ok_take [OF ok, where k = k]) (simp_all add: k(1))
  moreover have "writer_retains P c log hi (writer_revive w)"
    by (rule retains_take [OF ok ret, where k = k]) (use k in simp_all)
  moreover have "writer_bounded (writer_revive w)" using k(2) by (simp add: k(1) writer_bounded_def writer_caps)
  ultimately show ?thesis by (simp add: writer_inv_def)
qed

lemma new_inv: "writer_inv P c [] 0 (writer_new c b)"
  by (simp add: writer_inv_def writer_new_def writer_ok_def writer_bounded_def writer_retains_def writer_caps)

lemma reset_inv: "writer_reset P salt w = Inr w' \<Longrightarrow> writer_inv P (bw_crypto w') [] 0 w'"
  by (auto simp: writer_reset_def writer_inv_def writer_ok_def writer_bounded_def writer_retains_def
      writer_caps split: sum.splits)

lemma writer_run_inv:
  assumes P: "sodium_laws P" and run: "writer_run P c log hi w"
  shows "writer_inv P c log hi w"
  using run
proof induction
  case (run_new c b)
  show ?case by (rule new_inv)
next
  case (run_write c log hi w h p out w')
  show ?case by (rule write_inv [OF P run_write.IH run_write.hyps(2,3)])
next
  case (run_skip c log hi w h p w')
  then show ?case using write_packet_skipped by blast
next
  case (run_acknowledge c log hi w a)
  show ?case by (rule acknowledge_inv [OF run_acknowledge.IH])
next
  case (run_invalidate c log hi w)
  then show ?case
    by (simp add: writer_invalidate_def writer_inv_def writer_ok_def writer_bounded_def writer_retains_def)
next
  case (run_revive c log hi w)
  show ?case by (rule revive_inv [OF run_revive.IH])
next
  case (run_reset c log hi w salt w')
  show ?case by (rule reset_inv [OF run_reset.hyps(2)])
qed

lemma recover_ok:
  assumes "writer_ok P c log w"
  shows "recover n w =
    (if int (length log) < n then Inl AheadOfServer
     else if int (length log) - n \<le> int (length (bw_backup w)) then Inr (drop (nat n) (sealed P c log))
     else Inl TooFarBehind)"
proof -
  let ?m = "nat (int (length log) - n)"
  have hist: "take ?m (bw_backup w) = take ?m (history P c log)" if "int (length log) - n \<le> int (length (bw_backup w))"
    using assms that by (auto simp: writer_ok_def prefix_def)
  have len: "length (bw_backup w) \<le> length log"
    using assms prefix_length_le by (fastforce simp: writer_ok_def)
  have "rev (map (drop 4) (take ?m (bw_backup w))) = drop (nat n) (sealed P c log)"
    if "n \<le> int (length log)" "int (length log) - n \<le> int (length (bw_backup w))"
  proof -
    have "0 \<le> n" using that len by simp
    then have "length log - ?m = nat n" using that by simp
    then have "rev (take ?m (history P c log)) = map frame_be_u32 (drop (nat n) (sealed P c log))"
      by (simp add: history_def take_rev drop_map)
    then have "map (drop 4) (rev (take ?m (bw_backup w))) = map (drop 4) (map frame_be_u32 (drop (nat n) (sealed P c log)))"
      using hist [OF that(2)] by simp
    then show ?thesis by (simp add: rev_map frame_be_u32_def length_u32_to_be_bytes comp_def)
  qed
  then show ?thesis using assms len
    by (auto simp: recover_def writer_ok_def usize_try_from_i64_def Let_def)
qed

lemma wires_history:
  "m \<le> length log \<Longrightarrow> wires (take m (history P c log)) = sum_list (map (\<lambda>s. int (length s)) (drop (length log - m) (sealed P c log)))"
  by (simp add: wires_def history_def take_rev drop_map rev_map [symmetric] comp_def)

lemma retained_recover:
  assumes "writer_inv P c log hi w" "hi \<le> n" "n \<le> length log"
    and "sum_list (map (\<lambda>s. int (length s)) (drop n (sealed P c log))) \<le> MAX_BACKUP_BYTES"
    and "length log - n \<le> MAX_BACKUP_PACKETS"
  shows "recover (int n) w = Inr (drop n (sealed P c log))"
proof -
  have "wires (take (length log - n) (history P c log)) \<le> MAX_BACKUP_BYTES"
    using assms(3,4) by (simp add: wires_history)
  then have "length log - n \<le> length (bw_backup w)"
    using assms(1,2,5) by (simp add: writer_inv_def writer_retains_def)
  then have "int (length log) - int n \<le> int (length (bw_backup w))" by simp
  moreover have "writer_ok P c log w" using assms(1) by (simp add: writer_inv_def)
  ultimately show ?thesis using assms(3) by (simp add: recover_ok)
qed

text \<open>Rounds of buffering while disconnected, used to see how far the backup can grow.\<close>

lemma buffer_packets:
  assumes P: "sodium_laws P" and "writer_run P c log hi w" "\<not> bw_connected w"
    and "bw_disconnected_packets w + n \<le> MAX_DISCONNECT_PACKETS"
    and "0 \<le> bw_disconnected_bytes w" "bw_disconnected_bytes w + 18 * int n \<le> DISCONNECT_BUFFER_BYTES"
    and "bw_backup_size w + 18 * int n \<le> MAX_BACKUP_BYTES"
  shows "\<exists>w'. writer_run P c (log @ replicate n (0, [])) hi w' \<and> \<not> bw_connected w' \<and>
    length (bw_backup w') = length (bw_backup w) + n \<and> bw_backup_size w' = bw_backup_size w + 18 * int n"
  using assms(2-)
proof (induction n arbitrary: log w)
  case (Suc n)
  have sz: "0 \<le> bw_backup_size w" using writer_run_inv [OF P Suc.prems(1)] writer_ok_nonneg(2) by (auto simp: writer_inv_def)
  obtain out w1 where step: "write_packet P 0 [] w = (out, w1)" by fastforce
  have out: "out \<noteq> Skipped" using step Suc.prems sz
    by (auto simp: write_packet_def commit_write_def reserve_write_def Let_def split_beta next_nonce_and_key_def
        fits_within_def i64_checked_add_def i64_try_from_usize_def i64_max_def i64_min_def MAC_LEN_def writer_caps
        split: if_splits)
  note d = write_packet_disconnected [OF P step out Suc.prems(2) sz]
  have run: "writer_run P c (log @ [(0, [])]) hi w1" by (rule run_write [OF Suc.prems(1) step out])
  have "\<not> bw_connected w1" "bw_disconnected_packets w1 + n \<le> MAX_DISCONNECT_PACKETS"
    "0 \<le> bw_disconnected_bytes w1" "bw_disconnected_bytes w1 + 18 * int n \<le> DISCONNECT_BUFFER_BYTES"
    "bw_backup_size w1 + 18 * int n \<le> MAX_BACKUP_BYTES" using Suc.prems(2-) by (simp_all add: d(2))
  from Suc.IH [OF run this] show ?case by (auto simp: d(2) appended_def Let_def)
qed auto

lemma buffering_round:
  assumes P: "sodium_laws P" and run: "writer_run P c log 0 w" and "bw_disconnected_packets w = 0" "bw_disconnected_bytes w = 0"
    and "bw_backup_size w + 18 * int MAX_DISCONNECT_PACKETS \<le> MAX_BACKUP_BYTES"
  shows "\<exists>log' w'. writer_run P c log' 0 w' \<and> bw_connected w' \<and> bw_disconnected_packets w' = 0 \<and> bw_disconnected_bytes w' = 0 \<and>
    length (bw_backup w') = length (bw_backup w) + MAX_DISCONNECT_PACKETS \<and>
    bw_backup_size w' = bw_backup_size w + 18 * int MAX_DISCONNECT_PACKETS"
proof -
  let ?v = "writer_invalidate w"
  have "\<exists>w'. writer_run P c (log @ replicate MAX_DISCONNECT_PACKETS (0, [])) 0 w' \<and> \<not> bw_connected w' \<and>
    length (bw_backup w') = length (bw_backup ?v) + MAX_DISCONNECT_PACKETS \<and>
    bw_backup_size w' = bw_backup_size ?v + 18 * int MAX_DISCONNECT_PACKETS"
    by (rule buffer_packets [OF P run_invalidate [OF run]])
      (use assms(3-5) in \<open>simp_all add: writer_invalidate_def writer_caps\<close>)
  then obtain v where v: "writer_run P c (log @ replicate MAX_DISCONNECT_PACKETS (0, [])) 0 v"
    "length (bw_backup v) = length (bw_backup w) + MAX_DISCONNECT_PACKETS"
    "bw_backup_size v = bw_backup_size w + 18 * int MAX_DISCONNECT_PACKETS"
    by (auto simp: writer_invalidate_def)
  have sz: "bw_backup_size v = wires (bw_backup v)"
    using writer_run_inv [OF P v(1)] by (simp add: writer_inv_def writer_ok_def)
  obtain k where k: "k \<le> length (bw_backup v)" "writer_revive v =
      v\<lparr>bw_connected := True, bw_disconnected_bytes := 0, bw_disconnected_packets := 0,
        bw_backup := take k (bw_backup v), bw_backup_size := wires (take k (bw_backup v))\<rparr>"
    "\<forall>m \<le> length (bw_backup v). wires (take m (bw_backup v)) \<le> MAX_BACKUP_BYTES \<longrightarrow> m \<le> k"
    using revive_effect [OF sz] by blast
  have "k = length (bw_backup v)" using k(1,3) sz v(3) assms(5) by (simp add: order_antisym)
  then show ?thesis using run_revive [OF v(1)] v(2,3) sz
    by (intro exI [of _ "log @ replicate MAX_DISCONNECT_PACKETS (0, [])"] exI [of _ "writer_revive v"])
      (simp add: k(2))
qed

lemma write_outcome:
  assumes "sodium_laws P" "writer_ok P c log w" "write_packet P h p w = (out, w')"
  shows "(out = Skipped \<longrightarrow> w' = w \<and> \<not> bw_connected w) \<and>
    (out \<noteq> Skipped \<longrightarrow> bw_crypto w' = bump (bw_crypto w) \<and> bw_sequence w' = bw_sequence w + 1 \<and>
      out = (if bw_connected w then Send (frame_be_u32 (last (sealed P c (log @ [(h, p)])))) else BufferedOnly))"
proof -
  note inv = assms(2)
  then have sz: "bw_backup_size w = wires (bw_backup w)" and cr: "bw_crypto w = sealed_state P c log"
    by (simp_all add: writer_ok_def)
  show ?thesis
  proof (cases "bw_connected w")
    case True
    note e = write_packet_connected [OF assms(1,3) True sz]
    from e(1) have "out = Send (frame_be_u32 (last (sealed P c (log @ [(h, p)]))))"
      by (simp add: appended_def Let_def sealed_append sealed_single cr)
    moreover from e(2) have "bw_crypto w' = bump (bw_crypto w)" "bw_sequence w' = bw_sequence w + 1"
      by (auto simp: appended_def Let_def)
    ultimately show ?thesis using True by simp
  next
    case False
    show ?thesis
    proof (cases "out = Skipped")
      case True
      then show ?thesis using write_packet_skipped assms(3) False by blast
    next
      case out: False
      from write_packet_disconnected [OF assms(1,3) out False writer_ok_nonneg(2) [OF inv]]
      show ?thesis using False by (simp add: appended_def Let_def)
    qed
  qed
qed

section \<open>Properties\<close>

text \<open>Two packets written by a connected writer, the first of them acknowledged.\<close>

definition example_writer :: backed_writer where
  "example_writer = acknowledge 1 (snd (write_packet plain_primitives 5 [66]
     (snd (write_packet plain_primitives 4 [65] (writer_new (crypto_new (replicate 32 7) 0) True)))))"

lemmas writer_eval = write_packet_def reserve_write_def commit_write_def acknowledge_def writer_new_def
  reserved_encrypt_def encrypt_detached_def secretbox_with_prefix_def next_nonce_and_key_def bump_def
  trim_while.simps over_connected_cap_def over_hard_cap_def unacknowledged_packets_def usize_max_def
  usize_try_from_i64_def frame_wire_def plain_primitives_def MAC_LEN_def NONCE_LEN_def crypto_new_def writer_caps Let_def

lemma example_run: "writer_run plain_primitives (crypto_new (replicate 32 7) 0) [(4, [65]), (5, [66])] 1 example_writer"
proof -
  let ?c = "crypto_new (replicate 32 7) 0"
  let ?w1 = "snd (write_packet plain_primitives 4 [65] (writer_new ?c True))"
  let ?w2 = "snd (write_packet plain_primitives 5 [66] ?w1)"
  have out: "fst (write_packet plain_primitives 4 [65] (writer_new ?c True)) \<noteq> Skipped"
    "fst (write_packet plain_primitives 5 [66] ?w1) \<noteq> Skipped"
    "bw_connected ?w2 \<and> bw_sequence ?w2 = 2" by (simp_all add: writer_eval)
  have 1: "writer_run plain_primitives ?c ([] @ [(4, [65])]) 0 ?w1"
    by (rule run_write [OF run_new]) (rule surjective_pairing, rule out)
  have 2: "writer_run plain_primitives ?c (([] @ [(4, [65])]) @ [(5, [66])]) 0 ?w2"
    by (rule run_write [OF 1]) (rule surjective_pairing, rule out)
  from run_acknowledge [OF 2, of 1] out(3) show ?thesis by (simp add: example_writer_def)
qed

lemma example_writer_facts:
  "length (bw_backup example_writer) = 2" "wires (bw_backup example_writer) = 38" "bw_sequence example_writer = 2"
  "bw_backup_size example_writer = 38" "bw_connected example_writer"
proof -
  define v where "v = snd (write_packet plain_primitives 5 [66]
     (snd (write_packet plain_primitives 4 [65] (writer_new (crypto_new (replicate 32 7) 0) True))))"
  have v: "length (bw_backup v) = 2" "wires (bw_backup v) = 38" "bw_sequence v = 2" "bw_backup_size v = 38" "bw_connected v"
    by (simp_all add: v_def writer_eval wires_def length_u32_to_be_bytes)
  note e = acknowledge_effect [of v 1]
  have "min (nat (bw_sequence v - 1)) (length (bw_backup v)) = 1" using v by simp
  then have k: "ack_slack (drop 1 (bw_backup v)) 1 0 0 = 2" using e(2-5) v by (simp add: writer_caps)
  show "length (bw_backup example_writer) = 2" "wires (bw_backup example_writer) = 38" "bw_sequence example_writer = 2"
  "bw_backup_size example_writer = 38" "bw_connected example_writer"
    using e(1) v k by (simp_all add: example_writer_def flip: v_def)
qed

lemma example_sealed:
  "drop 1 (sealed plain_primitives (crypto_new (replicate 32 7) 0) [(4, [65]), (5, [66])]) =
    [[1, 5, 2, 0, 0, 0, 0, 0, 0, 0, 0, 0, 0, 0, 0, 0, 0, 0, 66]]"
  by code_simp

text \<open>C20: After any history of writes, acknowledgements, disconnects, reconnects and resets, asking
  the writer for what follows sequence number \<open>n\<close> gives exactly the packets written after the
  first \<open>n\<close>, sealed with their original nonces and in order, or it is refused: as ahead when
  \<open>n\<close> exceeds what was written, as too far behind only when the backup no longer reaches back.\<close>

theorem replay_exact:
  assumes "sodium_laws P" "writer_run P c log hi w"
  shows "recover n w =
    (if int (length log) < n then Inl AheadOfServer
     else if int (length log) - n \<le> int (length (bw_backup w)) then Inr (drop (nat n) (sealed P c log))
     else Inl TooFarBehind)"
  using writer_run_inv [OF assms] recover_ok unfolding writer_inv_def by blast

lemma replay_exact_witness:
  "sodium_laws plain_primitives \<and> length (bw_backup example_writer) = 2 \<and>
   recover 1 example_writer = Inr [[1, 5, 2, 0, 0, 0, 0, 0, 0, 0, 0, 0, 0, 0, 0, 0, 0, 0, 66]] \<and>
   recover 3 example_writer = Inl AheadOfServer"
proof -
  have "nat 1 = 1" by simp
  then show ?thesis
    using replay_exact [OF plain_sodium_laws example_run, of 1] replay_exact [OF plain_sodium_laws example_run, of 3]
      example_sealed example_writer_facts by simp
qed

text \<open>C19: A packet the peer has not acknowledged is never lost to trimming: as long as the packets
  from \<open>n\<close> on fit 64 MiB and 262144 packets and no acknowledgement beyond \<open>n\<close> was taken, the
  writer can replay all of them, whatever was written, acknowledged, disconnected and revived.\<close>

theorem replay_retained:
  assumes "sodium_laws P" "writer_run P c log hi w" "hi \<le> n" "n \<le> length log"
    and "sum_list (map (\<lambda>s. int (length s)) (drop n (sealed P c log))) \<le> MAX_BACKUP_BYTES"
    and "length log - n \<le> MAX_BACKUP_PACKETS"
  shows "recover (int n) w = Inr (drop n (sealed P c log))"
  using retained_recover [OF writer_run_inv [OF assms(1,2)] assms(3-)] .

lemma replay_retained_witness:
  "sodium_laws plain_primitives \<and>
   recover (int 1) example_writer = Inr [[1, 5, 2, 0, 0, 0, 0, 0, 0, 0, 0, 0, 0, 0, 0, 0, 0, 0, 66]]"
  using replay_retained [OF plain_sodium_laws example_run, of 1] example_sealed
  by (simp add: writer_caps)



text \<open>A write is skipped only while disconnected, and then nothing changes, not even the nonce
  counter; any other write takes the next nonce and sequence number, and a connected one hands out
  the frame that the backup would replay.\<close>

theorem write_packet_outcome:
  assumes "sodium_laws P" "writer_run P c log hi w" "write_packet P h p w = (out, w')"
  shows "(out = Skipped \<longrightarrow> w' = w \<and> \<not> bw_connected w) \<and>
    (out \<noteq> Skipped \<longrightarrow> bw_crypto w' = bump (bw_crypto w) \<and> bw_sequence w' = bw_sequence w + 1 \<and>
      out = (if bw_connected w then Send (frame_be_u32 (last (sealed P c (log @ [(h, p)])))) else BufferedOnly))"
  using write_outcome [OF assms(1) _ assms(3)] writer_run_inv [OF assms(1,2)] unfolding writer_inv_def by blast

lemma write_packet_outcome_witness:
  "sodium_laws plain_primitives \<and>
   fst (write_packet plain_primitives 6 [67] example_writer) \<noteq> Skipped \<and>
   bw_sequence (snd (write_packet plain_primitives 6 [67] example_writer)) = bw_sequence example_writer + 1"
proof -
  have "fst (write_packet plain_primitives 6 [67] example_writer) \<noteq> Skipped"
    using example_writer_facts by (simp add: write_packet_def reserve_write_def commit_write_def Let_def split_beta)
  then show ?thesis using write_packet_outcome [OF plain_sodium_laws example_run surjective_pairing [of "write_packet plain_primitives 6 [67] example_writer"]]
    by simp
qed

text \<open>What an acknowledgement keeps.  While connected, a plausible acknowledgement \<open>a\<close> keeps
  every packet after \<open>a\<close> that the backup had, and behind them at least 16 and at most 1024
  acknowledged packets (as far as the backup has them), more than 16 only while they fit 256 KiB;
  any other acknowledgement changes nothing.\<close>

theorem acknowledge_keeps:
  assumes "bw_backup_size w = wires (bw_backup w)"
  shows "if bw_connected w \<and> 0 \<le> a \<and> a \<le> bw_sequence w
    then \<exists>k. bw_backup (acknowledge a w) = take (min (nat (bw_sequence w - a)) (length (bw_backup w)) + k) (bw_backup w) \<and>
      min (nat (bw_sequence w - a)) (length (bw_backup w)) + k \<le> length (bw_backup w) \<and>
      min 16 (length (bw_backup w) - nat (bw_sequence w - a)) \<le> k \<and> k \<le> 1024 \<and>
      (16 < k \<longrightarrow> sum_list (map (\<lambda>f. length f - 4) (take k (drop (nat (bw_sequence w - a)) (bw_backup w)))) \<le> 256 * 1024)
    else acknowledge a w = w"
proof (cases "bw_connected w \<and> 0 \<le> a \<and> a \<le> bw_sequence w")
  case True
  define u where "u = nat (bw_sequence w - a)"
  define u' where "u' = min u (length (bw_backup w))"
  define k where "k = ack_slack (drop u' (bw_backup w)) u' 0 0"
  note e = acknowledge_effect [OF assms, of a, folded u_def, folded u'_def, folded k_def]
  have d: "drop u' (bw_backup w) = drop u (bw_backup w)" by (simp add: u'_def min_def)
  have b: "bw_backup (acknowledge a w) = take (u' + (k - u')) (bw_backup w)" using True e(1,2) by simp
  have "u' + (k - u') \<le> length (bw_backup w)" "k - u' \<le> 1024" using True e(2-4) by (auto simp: writer_caps)
  moreover have "min 16 (length (bw_backup w) - u) \<le> k - u'"
    using True e(5) by (auto simp: u'_def ACK_RETAIN_FLOOR_PACKETS_def)
  moreover have "sum_list (map (\<lambda>f. length f - 4) (take (k - u') (drop u (bw_backup w)))) \<le> 256 * 1024" if "16 < k - u'"
    using ack_slack_bytes [of "drop u' (bw_backup w)" u' 0 0, folded k_def] that d by (auto simp: writer_caps)
  ultimately show ?thesis using True b by (auto simp flip: u_def u'_def)
next
  case False
  then show ?thesis by (auto simp: acknowledge_ignored)
qed

lemma acknowledge_keeps_witness:
  "bw_backup_size example_writer = wires (bw_backup example_writer) \<and> acknowledge 3 example_writer = example_writer"
  using acknowledge_keeps [of example_writer 3] example_writer_facts by simp

text \<open>Reviving trims the backup by bytes only: a connected writer can hold 786432 packets,
  three times the 262144-packet cap that connected writes enforce.\<close>

theorem revive_exceeds_packet_cap:
  "\<exists>P c log w. sodium_laws P \<and> writer_run P c log 0 w \<and> bw_connected w \<and> length (bw_backup w) = 3 * MAX_BACKUP_PACKETS"
proof -
  let ?c = "crypto_new [] 0"
  have "writer_run plain_primitives ?c [] 0 (writer_new ?c False)" by (rule run_new)
  from buffering_round [OF plain_sodium_laws this] obtain l1 w1 where 1: "writer_run plain_primitives ?c l1 0 w1"
    "bw_disconnected_packets w1 = 0" "bw_disconnected_bytes w1 = 0"
    "length (bw_backup w1) = MAX_DISCONNECT_PACKETS" "bw_backup_size w1 = 18 * int MAX_DISCONNECT_PACKETS"
    by (auto simp: writer_new_def writer_caps)
  from buffering_round [OF plain_sodium_laws 1(1-3)] 1(4,5) obtain l2 w2 where 2: "writer_run plain_primitives ?c l2 0 w2"
    "bw_disconnected_packets w2 = 0" "bw_disconnected_bytes w2 = 0"
    "length (bw_backup w2) = 2 * MAX_DISCONNECT_PACKETS" "bw_backup_size w2 = 36 * int MAX_DISCONNECT_PACKETS"
    by (auto simp: writer_caps)
  from buffering_round [OF plain_sodium_laws 2(1-3)] 2(4,5) show ?thesis
    by (intro exI [of _ plain_primitives] exI [of _ ?c]) (auto simp: writer_caps)
qed

end
