(* ===== verification/Keepalive.thy ===== *)
theory Keepalive
  imports Backed_Writer
begin

text \<open>
  \<^verbatim>\<open>crates/et-core/src/keepalive.rs\<close>: acknowledgements carried by keep-alive packets.  The payload
  is the reader's sequence number as 8 big-endian bytes; \<open>ack_next\<close> decides which keep-alives
  carry it.
\<close>

section \<open>Definitions\<close>

definition ACK_PAYLOAD_LEN :: nat where "ACK_PAYLOAD_LEN = 8"
definition ACK_INTERVAL_BYTES :: nat where "ACK_INTERVAL_BYTES = 512 * 1024"

definition encode_ack :: "int \<Rightarrow> bytes" where
  "encode_ack sequence = i64_to_be_bytes (max sequence 0)"

definition decode_ack :: "bytes \<Rightarrow> int option" where
  "decode_ack payload =
    (if length payload \<noteq> ACK_PAYLOAD_LEN then None
     else let v = i64_from_be_bytes payload in if 0 \<le> v then Some v else None)"

definition ack_bytes :: "bytes option \<Rightarrow> bytes" where
  "ack_bytes ack = (case ack of None \<Rightarrow> [] | Some a \<Rightarrow> a)"

datatype ack_side = Initiator | Responder

record ack_schedule =
  attached :: "int option"

definition ack_schedule_default :: ack_schedule where
  "ack_schedule_default = \<lparr>attached = None\<rparr>"

definition ack_next ::
  "ack_side \<Rightarrow> int \<Rightarrow> int \<Rightarrow> bool \<Rightarrow> bool \<Rightarrow> ack_schedule \<Rightarrow> bytes option \<times> ack_schedule" where
  "ack_next side sequence data_sequence peer_acknowledges volume s =
    (let attach = (case attached s of
         None \<Rightarrow> peer_acknowledges \<or> side = Initiator
       | Some a \<Rightarrow> peer_acknowledges \<and>
           (volume \<or> a < data_sequence \<or> int ACK_RETAIN_FLOOR_PACKETS \<le> sequence - a))
     in if attach then (Some (encode_ack sequence), s\<lparr>attached := Some sequence\<rparr>) else (None, s))"

text \<open>A run of keep-alives: for each the arguments of the call, and what was attached.\<close>

fun ack_run :: "ack_side \<Rightarrow> (int \<times> int \<times> bool \<times> bool) list \<Rightarrow> ack_schedule \<Rightarrow> bytes option list \<times> ack_schedule" where
  "ack_run side [] s = ([], s)"
| "ack_run side ((sequence, data_sequence, peer, volume) # calls) s =
    (let (a, s1) = ack_next side sequence data_sequence peer volume s; (as, s2) = ack_run side calls s1
     in (a # as, s2))"

section \<open>Properties\<close>

lemma decode_encode_ack: "0 \<le> a \<Longrightarrow> a \<le> i64_max \<Longrightarrow> decode_ack (encode_ack a) = Some a"
  using i64_be_roundtrip [of a]
  by (simp add: decode_ack_def encode_ack_def ACK_PAYLOAD_LEN_def length_i64_bytes i64_min_def)

text \<open>Acknowledgement payloads round-trip for every sequence number, a negative one is sent as
  zero, and the empty payload of a legacy keep-alive, like any payload that is not 8 bytes long or
  decodes to a negative number, is no acknowledgement.\<close>

theorem ack_roundtrip:
  assumes "i64_min \<le> a" "a \<le> i64_max"
  shows "decode_ack (ack_bytes (Some (encode_ack a))) = Some (max a 0) \<and> decode_ack (ack_bytes None) = None \<and>
    (decode_ack payload = Some v \<longrightarrow> length payload = 8 \<and> 0 \<le> v \<and> v = i64_from_be_bytes payload)"
proof -
  have "encode_ack (max a 0) = encode_ack a" by (simp add: encode_ack_def max_def)
  moreover have "decode_ack (encode_ack (max a 0)) = Some (max a 0)"
    using assms by (intro decode_encode_ack) (simp_all add: i64_max_def)
  ultimately show ?thesis
    by (auto simp: ack_bytes_def decode_ack_def ACK_PAYLOAD_LEN_def Let_def split: if_splits)
qed

lemma ack_roundtrip_witness: "i64_min \<le> 42 \<and> 42 \<le> i64_max \<and> decode_ack (ack_bytes (Some (encode_ack 42))) = Some 42"
proof -
  have "i64_min \<le> 42" "42 \<le> i64_max" by (simp_all add: i64_min_def i64_max_def)
  then show ?thesis using ack_roundtrip [of 42] by simp
qed

lemma ack_run_silent: "attached s \<noteq> None \<Longrightarrow> list_all (\<lambda>(sq, d, peer, v). \<not> peer) calls \<Longrightarrow>
  fst (ack_run side calls s) = replicate (length calls) None"
proof (induction calls)
  case (Cons call calls)
  obtain sq d peer v where "call = (sq, d, peer, v)" by (cases call)
  moreover have "ack_next side sq d False v s = (None, s)"
    using Cons.prems(1) by (auto simp: ack_next_def)
  ultimately show ?case using Cons by (simp add: split_beta)
qed simp

text \<open>A peer that never acknowledges (an upstream implementation) sees upstream's empty
  keep-alives: a responder attaches nothing at all to any of them, an initiator only announces
  itself on the first one.\<close>

theorem legacy_peer_keepalives:
  assumes "list_all (\<lambda>(sq, d, peer, v). \<not> peer) calls"
  shows "fst (ack_run Responder calls ack_schedule_default) = replicate (length calls) None \<and>
    fst (ack_run Initiator calls ack_schedule_default) =
      (case calls of [] \<Rightarrow> [] | (sq, _) # rest \<Rightarrow> Some (encode_ack sq) # replicate (length rest) None)"
proof -
  have "fst (ack_run Responder calls ack_schedule_default) = replicate (length calls) None"
    using assms
    by (induction calls) (auto simp: ack_next_def ack_schedule_default_def split_beta Let_def)
  moreover have "fst (ack_run Initiator calls ack_schedule_default) =
      (case calls of [] \<Rightarrow> [] | (sq, _) # rest \<Rightarrow> Some (encode_ack sq) # replicate (length rest) None)"
    using assms ack_run_silent
    by (cases calls) (auto simp: ack_next_def ack_schedule_default_def split_beta Let_def)
  ultimately show ?thesis by blast
qed

lemma legacy_peer_keepalives_witness:
  "list_all (\<lambda>(sq, d, peer, v). \<not> peer) [(0 :: int, 0 :: int, False, False), (40, 40, False, True)] \<and>
   fst (ack_run Initiator [(0, 0, False, False), (40, 40, False, True)] ack_schedule_default) = [Some (encode_ack 0), None]"
  using legacy_peer_keepalives [of "[(0, 0, False, False), (40, 40, False, True)]"] by simp

text \<open>Towards a peer that acknowledges, no keep-alive leaves the peer's knowledge stale: after
  each one, the last acknowledgement sent covers every packet that was not a keep-alive and lags the
  reader by fewer than 16 packets, and what is attached is always the reader's sequence number.\<close>

theorem ack_never_stale:
  assumes "data_sequence \<le> sequence" "ack_next side sequence data_sequence True volume s = (ack, s')"
  shows "\<exists>a. attached s' = Some a \<and> data_sequence \<le> a \<and> sequence - a < 16 \<and>
    (ack = None \<and> s' = s \<or> ack = Some (encode_ack sequence) \<and> a = sequence)"
  using assms by (auto simp: ack_next_def ACK_RETAIN_FLOOR_PACKETS_def split: option.splits if_splits)

lemma ack_never_stale_witness:
  "(5 :: int) \<le> 6 \<and> (\<exists>a. attached (snd (ack_next Initiator 6 5 True False \<lparr>attached = Some 3\<rparr>)) = Some a \<and> 5 \<le> a \<and> 6 - a < 16)"
  using ack_never_stale [of 5 6 Initiator False "\<lparr>attached = Some 3\<rparr>", OF _ surjective_pairing] by fastforce

end
