(* ===== verification/Backed_Reader.thy ===== *)
theory Backed_Reader
  imports Backed_Writer
begin

text \<open>
  \<^verbatim>\<open>crates/et-core/src/backed_reader.rs\<close>: the reading end of a reconnectable stream.  Bytes from the
  socket are collected in a buffer of which the range \<open>offset..<filled\<close> is still unread; whole
  frames are decoded, decrypted and counted; after a reconnect the peer's catchup is decoded first.

  The buffer is kept as the code keeps it (with the compaction and the reset of both indices), and
  \<open>abs_reader\<close> maps it to the stream of unread bytes.  A slice handed out for a socket read is
  the buffer from \<open>filled\<close> on: \<open>fill_slice\<close> is what the caller writes there.  The capacity
  of the buffer, which the allocator chooses, is an argument where the code asks for it.
\<close>

section \<open>Definitions\<close>

datatype read_item = ReadPacket packet | NeedMore

datatype read_error = ReadFrame frame_error | ReadPacketError packet_error | ReadCrypto decrypt_error | Unencrypted

definition MIN_SOCKET_READ :: nat where "MIN_SOCKET_READ = 16 * 1024"
definition MAX_SOCKET_READ :: nat where "MAX_SOCKET_READ = 256 * 1024"
definition CLIENT_MAX_SOCKET_READ :: nat where "CLIENT_MAX_SOCKET_READ = 64 * 1024"
definition SERVER_MAX_SOCKET_READ :: nat where "SERVER_MAX_SOCKET_READ = 96 * 1024"
definition KEEP_ALIVE :: byte where "KEEP_ALIVE = 0"

record backed_reader =
  br_crypto :: crypto_handler
  br_partial :: bytes
  br_offset :: nat
  br_filled :: nat
  br_replay :: "packet list"
  br_sequence :: int
  br_data_sequence :: int
  br_connected :: bool
  br_read_hint :: nat
  br_read_requested :: nat
  br_last_frame_len :: nat
  br_max_socket_read :: nat

definition reader_new :: "crypto_handler \<Rightarrow> bool \<Rightarrow> backed_reader" where
  "reader_new c connected = \<lparr>br_crypto = c, br_partial = [], br_offset = 0, br_filled = 0, br_replay = [],
     br_sequence = 0, br_data_sequence = 0, br_connected = connected, br_read_hint = MIN_SOCKET_READ,
     br_read_requested = 0, br_last_frame_len = 0, br_max_socket_read = MAX_SOCKET_READ\<rparr>"

definition with_max_socket_read :: "nat \<Rightarrow> backed_reader \<Rightarrow> backed_reader" where
  "with_max_socket_read n r = r\<lparr>br_max_socket_read := max n MIN_SOCKET_READ\<rparr>"

definition compact_buffer :: "nat \<Rightarrow> backed_reader \<Rightarrow> backed_reader" where
  "compact_buffer min_space r =
    (if br_offset r = br_filled r then r\<lparr>br_offset := 0, br_filled := 0\<rparr>
     else if 0 < br_offset r \<and>
        (length (br_partial r) - br_filled r < min_space \<or> 64 * 1024 \<le> br_offset r \<or>
         br_filled r - br_offset r \<le> 16 * 1024)
     then let remaining = br_filled r - br_offset r in
       r\<lparr>br_partial := take remaining (drop (br_offset r) (br_partial r)) @ drop remaining (br_partial r),
         br_offset := 0, br_filled := remaining\<rparr>
     else r)"

definition prepare_read_slice :: "nat \<Rightarrow> backed_reader \<Rightarrow> backed_reader" where
  "prepare_read_slice min_space r =
    (let r1 = compact_buffer min_space r;
         required = br_filled r1 + min_space
     in if length (br_partial r1) < required
        then r1\<lparr>br_partial := br_partial r1 @ replicate (required - length (br_partial r1)) 0\<rparr>
        else r1)"

definition fill_slice :: "bytes \<Rightarrow> backed_reader \<Rightarrow> backed_reader" where
  "fill_slice bs r = r\<lparr>br_partial := take (br_filled r) (br_partial r) @ bs @ drop (br_filled r + length bs) (br_partial r)\<rparr>"

definition commit_read :: "nat \<Rightarrow> backed_reader \<Rightarrow> backed_reader" where
  "commit_read n r = r\<lparr>br_filled := br_filled r + n\<rparr>"

definition feed :: "bytes \<Rightarrow> backed_reader \<Rightarrow> backed_reader" where
  "feed bs r = (if bs = [] then r else commit_read (length bs) (fill_slice bs (prepare_read_slice (length bs) r)))"

definition available :: "backed_reader \<Rightarrow> bytes" where
  "available r = drop (br_offset r) (take (br_filled r) (br_partial r))"

definition aligned_read_len :: "nat \<Rightarrow> backed_reader \<Rightarrow> nat" where
  "aligned_read_len limit r =
    (let frame = br_last_frame_len r; pending = available r in
     if frame < MIN_SOCKET_READ div 4 then limit
     else case (if length pending = 0 then Some 0
           else if length pending \<le> 3 then None
           else case parse_be_u32_len pending of Inr len \<Rightarrow> Some ((4 + len) - length pending) | Inl _ \<Rightarrow> None) of
       None \<Rightarrow> limit
     | Some rest \<Rightarrow>
         if limit \<le> rest then rest
         else let whole = (limit - rest) div frame in
           if rest = 0 \<and> whole = 0 then limit else rest + whole * frame)"

definition prepare_socket_read :: "nat \<Rightarrow> backed_reader \<Rightarrow> backed_reader" where
  "prepare_socket_read capacity r =
    (let r1 = (if br_offset r = br_filled r \<and> br_read_hint r = MIN_SOCKET_READ \<and> 4 * MIN_SOCKET_READ < capacity
          then r\<lparr>br_partial := [], br_offset := 0, br_filled := 0\<rparr> else r);
         n = aligned_read_len (br_read_hint r1) r1
     in prepare_read_slice n (r1\<lparr>br_read_requested := n\<rparr>))"

definition commit_socket_read :: "nat \<Rightarrow> backed_reader \<Rightarrow> backed_reader" where
  "commit_socket_read n r =
    (let r1 = commit_read n r in
     if br_read_requested r1 \<le> n
     then r1\<lparr>br_read_hint := min (br_read_hint r1 * 4) (br_max_socket_read r1)\<rparr>
     else if n < br_read_hint r1 div 4
     then r1\<lparr>br_read_hint := max (br_read_hint r1 div 2) MIN_SOCKET_READ\<rparr>
     else r1)"

definition has_buffered_data :: "backed_reader \<Rightarrow> bool" where
  "has_buffered_data r =
    (if \<not> br_connected r then False
     else if br_replay r \<noteq> [] then True
     else if length (available r) < 4 then False
     else case parse_be_u32_len (available r) of
       Inr len \<Rightarrow> len < HEADER_LEN \<or> 4 + len \<le> length (available r)
     | Inl _ \<Rightarrow> True)"

definition decode_packet ::
  "primitives \<Rightarrow> bytes \<Rightarrow> crypto_handler \<Rightarrow> (read_error + packet) \<times> crypto_handler" where
  "decode_packet P serialized c =
    (if length serialized < HEADER_LEN then (Inl (ReadPacketError PacketShort), c)
     else if serialized ! 0 = 0 then (Inl Unencrypted, c)
     else case decrypt P (drop HEADER_LEN serialized) c of
       (Inl e, c') \<Rightarrow> (Inl (ReadCrypto e), c')
     | (Inr plaintext, c') \<Rightarrow> (Inr (packet_raw False (serialized ! 1) plaintext), c'))"

definition note_data :: "packet \<Rightarrow> backed_reader \<Rightarrow> backed_reader" where
  "note_data p r = (if pkt_header p \<noteq> KEEP_ALIVE then r\<lparr>br_data_sequence := br_sequence r\<rparr> else r)"

definition pop_live :: "primitives \<Rightarrow> backed_reader \<Rightarrow> (read_error + read_item) \<times> backed_reader" where
  "pop_live P r =
    (if \<not> br_connected r then (Inr NeedMore, r)
     else if length (available r) < 4 then (Inr NeedMore, r)
     else case parse_be_u32_len (available r) of
       Inl e \<Rightarrow> (Inl (ReadFrame e), r)
     | Inr len \<Rightarrow>
         if len < HEADER_LEN then (Inl (ReadFrame TooSmall), r)
         else if length (available r) < 4 + len then (Inr NeedMore, r)
         else let start = br_offset r + 4; stop = start + len;
             r1 = r\<lparr>br_offset := stop, br_last_frame_len := 4 + len\<rparr>;
             (result, c') = decode_packet P (take (stop - start) (drop start (br_partial r1))) (br_crypto r1);
             r2 = r1\<lparr>br_crypto := c'\<rparr>;
             r3 = (if br_offset r2 = br_filled r2 then r2\<lparr>br_offset := 0, br_filled := 0\<rparr> else r2)
           in case result of
             Inl e \<Rightarrow> (Inl e, r3)
           | Inr p \<Rightarrow> (Inr (ReadPacket p), note_data p (r3\<lparr>br_sequence := br_sequence r3 + 1\<rparr>)))"

definition pop :: "primitives \<Rightarrow> backed_reader \<Rightarrow> (read_error + read_item) \<times> backed_reader" where
  "pop P r =
    (if \<not> br_connected r then (Inr NeedMore, r)
     else case br_replay r of
       p # ps \<Rightarrow> (Inr (ReadPacket p), r\<lparr>br_replay := ps\<rparr>)
     | [] \<Rightarrow> pop_live P r)"

definition reader_reset :: "primitives \<Rightarrow> bytes \<Rightarrow> backed_reader \<Rightarrow> proof_error + backed_reader" where
  "reader_reset P salt r =
    (case rekey P salt (br_crypto r) of
       Inl e \<Rightarrow> Inl e
     | Inr c \<Rightarrow> Inr (r\<lparr>br_crypto := c, br_partial := [], br_offset := 0, br_filled := 0, br_replay := [],
         br_sequence := 0, br_data_sequence := 0, br_connected := False\<rparr>))"

definition reader_revive :: "primitives \<Rightarrow> bytes list \<Rightarrow> backed_reader \<Rightarrow> (read_error + unit) \<times> backed_reader" where
  "reader_revive P catchup r =
    (case unseal_all (\<lambda>c w. decode_packet P w c) (br_crypto r) catchup of
       (Inl e, _) \<Rightarrow> (Inl e, r)
     | (Inr decoded, c) \<Rightarrow>
         let n = length catchup;
             carries_data = list_ex (\<lambda>p. pkt_header p \<noteq> KEEP_ALIVE) decoded;
             sequence' = br_sequence r + int n
         in (Inr (), r\<lparr>br_partial := [], br_offset := 0, br_filled := 0, br_crypto := c,
              br_replay := br_replay r @ decoded, br_sequence := sequence',
              br_data_sequence := (if carries_data then sequence' else br_data_sequence r),
              br_connected := True\<rparr>))"

definition unread :: "packet \<Rightarrow> backed_reader \<Rightarrow> backed_reader" where
  "unread p r = r\<lparr>br_replay := br_replay r @ [p]\<rparr>"

definition reader_invalidate :: "backed_reader \<Rightarrow> backed_reader" where
  "reader_invalidate r = r\<lparr>br_partial := [], br_offset := 0, br_filled := 0, br_connected := False\<rparr>"

text \<open>The invariant, and the abstract reader: a stream of unread bytes without a buffer.\<close>

definition reader_ok :: "backed_reader \<Rightarrow> bool" where
  "reader_ok r \<longleftrightarrow> br_offset r \<le> br_filled r \<and> br_filled r \<le> length (br_partial r) \<and>
     MIN_SOCKET_READ \<le> br_read_hint r \<and> br_read_hint r \<le> br_max_socket_read r"

record stream_reader =
  sr_crypto :: crypto_handler
  sr_pending :: bytes
  sr_replay :: "packet list"
  sr_sequence :: int
  sr_data_sequence :: int
  sr_connected :: bool

definition abs_reader :: "backed_reader \<Rightarrow> stream_reader" where
  "abs_reader r = \<lparr>sr_crypto = br_crypto r, sr_pending = available r, sr_replay = br_replay r,
     sr_sequence = br_sequence r, sr_data_sequence = br_data_sequence r, sr_connected = br_connected r\<rparr>"

definition stream_pop_live :: "primitives \<Rightarrow> stream_reader \<Rightarrow> (read_error + read_item) \<times> stream_reader" where
  "stream_pop_live P a =
    (if \<not> sr_connected a \<or> length (sr_pending a) < 4 then (Inr NeedMore, a)
     else case parse_be_u32_len (sr_pending a) of
       Inl e \<Rightarrow> (Inl (ReadFrame e), a)
     | Inr len \<Rightarrow>
         if len < 2 then (Inl (ReadFrame TooSmall), a)
         else if length (sr_pending a) < 4 + len then (Inr NeedMore, a)
         else case decode_packet P (take len (drop 4 (sr_pending a))) (sr_crypto a) of
           (Inl e, c) \<Rightarrow> (Inl e, a\<lparr>sr_pending := drop (4 + len) (sr_pending a), sr_crypto := c\<rparr>)
         | (Inr p, c) \<Rightarrow> (Inr (ReadPacket p),
             a\<lparr>sr_pending := drop (4 + len) (sr_pending a), sr_crypto := c, sr_sequence := sr_sequence a + 1,
               sr_data_sequence := (if pkt_header p \<noteq> KEEP_ALIVE then sr_sequence a + 1 else sr_data_sequence a)\<rparr>))"

definition stream_pop :: "primitives \<Rightarrow> stream_reader \<Rightarrow> (read_error + read_item) \<times> stream_reader" where
  "stream_pop P a =
    (if sr_connected a \<and> sr_replay a \<noteq> [] then (Inr (ReadPacket (hd (sr_replay a))), a\<lparr>sr_replay := tl (sr_replay a)\<rparr>)
     else stream_pop_live P a)"

section \<open>Facts\<close>

lemma available_append:
  assumes "br_offset r \<le> br_filled r" "br_filled r \<le> length (br_partial r)"
  shows "available (commit_read (length bs) (fill_slice bs r)) = available r @ bs"
  using assms by (simp add: available_def commit_read_def fill_slice_def)

lemma length_available: "reader_ok r \<Longrightarrow> length (available r) = br_filled r - br_offset r"
  by (simp add: available_def reader_ok_def)

lemma compact_buffer_ok:
  assumes "reader_ok r"
  shows "reader_ok (compact_buffer n r)" and "available (compact_buffer n r) = available r"
proof -
  let ?m = "br_filled r - br_offset r"
  let ?moved = "r\<lparr>br_partial := take ?m (drop (br_offset r) (br_partial r)) @ drop ?m (br_partial r),
      br_offset := 0, br_filled := ?m\<rparr>"
  have len: "length (take ?m (drop (br_offset r) (br_partial r))) = ?m"
    using assms by (auto simp: reader_ok_def min_def)
  have moved: "reader_ok ?moved" "available ?moved = available r"
    using assms len by (auto simp: reader_ok_def available_def drop_take)
  consider "br_offset r = br_filled r" | "compact_buffer n r = ?moved" | "compact_buffer n r = r"
    unfolding compact_buffer_def Let_def by presburger
  then have "reader_ok (compact_buffer n r) \<and> available (compact_buffer n r) = available r"
  proof cases
    case 1
    then show ?thesis using assms by (simp add: compact_buffer_def reader_ok_def available_def)
  qed (use assms moved in simp_all)
  then show "reader_ok (compact_buffer n r)" "available (compact_buffer n r) = available r" by simp_all
qed

lemma prepare_read_slice_ok:
  assumes "reader_ok r"
  shows "reader_ok (prepare_read_slice n r)" and "available (prepare_read_slice n r) = available r"
    and "br_filled (prepare_read_slice n r) + n \<le> length (br_partial (prepare_read_slice n r))"
  using compact_buffer_ok [OF assms, of n]
  by (simp_all add: prepare_read_slice_def Let_def reader_ok_def available_def)

lemma compact_buffer_fields [simp]:
  "br_crypto (compact_buffer n r) = br_crypto r" "br_replay (compact_buffer n r) = br_replay r"
  "br_sequence (compact_buffer n r) = br_sequence r" "br_data_sequence (compact_buffer n r) = br_data_sequence r"
  "br_connected (compact_buffer n r) = br_connected r" "br_read_hint (compact_buffer n r) = br_read_hint r"
  "br_read_requested (compact_buffer n r) = br_read_requested r"
  "br_last_frame_len (compact_buffer n r) = br_last_frame_len r"
  "br_max_socket_read (compact_buffer n r) = br_max_socket_read r"
  by (simp_all add: compact_buffer_def Let_def)

lemma prepare_read_slice_fields [simp]:
  "br_crypto (prepare_read_slice n r) = br_crypto r" "br_replay (prepare_read_slice n r) = br_replay r"
  "br_sequence (prepare_read_slice n r) = br_sequence r" "br_data_sequence (prepare_read_slice n r) = br_data_sequence r"
  "br_connected (prepare_read_slice n r) = br_connected r" "br_read_hint (prepare_read_slice n r) = br_read_hint r"
  "br_read_requested (prepare_read_slice n r) = br_read_requested r"
  "br_last_frame_len (prepare_read_slice n r) = br_last_frame_len r"
  "br_max_socket_read (prepare_read_slice n r) = br_max_socket_read r"
  by (simp_all add: prepare_read_slice_def Let_def)

text \<open>Taking a frame of \<open>4 + len\<close> bytes out of the buffer.\<close>

definition skip_frame :: "nat \<Rightarrow> crypto_handler \<Rightarrow> backed_reader \<Rightarrow> backed_reader" where
  "skip_frame len c r =
    (let r1 = r\<lparr>br_offset := br_offset r + 4 + len, br_last_frame_len := 4 + len, br_crypto := c\<rparr>
     in if br_offset r1 = br_filled r1 then r1\<lparr>br_offset := 0, br_filled := 0\<rparr> else r1)"

lemma skip_frame_available:
  assumes "reader_ok r" "4 + len \<le> length (available r)"
  shows "available (skip_frame len c r) = drop (4 + len) (available r)" and "reader_ok (skip_frame len c r)"
proof -
  have fit: "br_offset r + (4 + len) \<le> br_filled r" using assms by (simp add: length_available)
  show "available (skip_frame len c r) = drop (4 + len) (available r)"
    by (simp add: skip_frame_def Let_def available_def ac_simps)
  show "reader_ok (skip_frame len c r)"
    using assms(1) fit by (simp add: skip_frame_def Let_def reader_ok_def ac_simps)
qed

lemma frame_body:
  assumes "reader_ok r" "4 + len \<le> length (available r)"
  shows "take (br_offset r + 4 + len - (br_offset r + 4)) (drop (br_offset r + 4) (br_partial r)) = take len (drop 4 (available r))"
proof -
  have "len \<le> br_filled r - (br_offset r + 4)" using assms by (simp add: length_available)
  then show ?thesis by (simp add: available_def drop_take add.commute min_def)
qed

lemma pop_live_frame:
  assumes "reader_ok r" "br_connected r" "4 \<le> length (available r)" "parse_be_u32_len (available r) = Inr len"
    and "2 \<le> len" "4 + len \<le> length (available r)"
  shows "pop_live P r =
    (case decode_packet P (take len (drop 4 (available r))) (br_crypto r) of
       (Inl e, c) \<Rightarrow> (Inl e, skip_frame len c r)
     | (Inr p, c) \<Rightarrow> (Inr (ReadPacket p), note_data p ((skip_frame len c r)\<lparr>br_sequence := br_sequence r + 1\<rparr>)))"
proof -
  obtain result c where d: "decode_packet P (take len (drop 4 (available r))) (br_crypto r) = (result, c)" by fastforce
  from frame_body [OF assms(1,6)] d
  have "decode_packet P (take (br_offset r + 4 + len - (br_offset r + 4)) (drop (br_offset r + 4) (br_partial r))) (br_crypto r) = (result, c)"
    by simp
  then show ?thesis using assms(2-6) d
    by (cases result) (simp_all add: pop_live_def Let_def HEADER_LEN_def skip_frame_def)
qed

lemma skip_frame_fields [simp]:
  "br_crypto (skip_frame len c r) = c" "br_replay (skip_frame len c r) = br_replay r"
  "br_sequence (skip_frame len c r) = br_sequence r" "br_data_sequence (skip_frame len c r) = br_data_sequence r"
  "br_connected (skip_frame len c r) = br_connected r"
  by (simp_all add: skip_frame_def Let_def)

lemma available_cong:
  "br_partial r = br_partial r' \<Longrightarrow> br_offset r = br_offset r' \<Longrightarrow> br_filled r = br_filled r' \<Longrightarrow> available r = available r'"
  by (simp add: available_def)

lemma note_data_fields [simp]:
  "br_crypto (note_data p r) = br_crypto r" "br_replay (note_data p r) = br_replay r"
  "br_sequence (note_data p r) = br_sequence r" "br_connected (note_data p r) = br_connected r"
  "available (note_data p r) = available r"
  "br_data_sequence (note_data p r) = (if pkt_header p \<noteq> KEEP_ALIVE then br_sequence r else br_data_sequence r)"
  by (simp_all add: note_data_def available_def)

lemma reader_ok_note_data [simp]: "reader_ok (note_data p r) = reader_ok r"
  by (simp add: note_data_def reader_ok_def)

lemma reader_ok_sequence [simp]: "reader_ok (r\<lparr>br_sequence := n\<rparr>) = reader_ok r" "available (r\<lparr>br_sequence := n\<rparr>) = available r"
  by (simp_all add: reader_ok_def available_def)

lemma abs_pop_live:
  assumes "reader_ok r"
  shows "map_prod id abs_reader (pop_live P r) = stream_pop_live P (abs_reader r) \<and> reader_ok (snd (pop_live P r))"
proof (cases "br_connected r \<and> 4 \<le> length (available r)")
  case c: True
  show ?thesis
  proof (cases "parse_be_u32_len (available r)")
    case (Inl e)
    then show ?thesis using c assms by (simp add: pop_live_def stream_pop_live_def abs_reader_def)
  next
    case (Inr len)
    show ?thesis
    proof (cases "2 \<le> len \<and> 4 + len \<le> length (available r)")
      case True
      obtain result d where d: "decode_packet P (take len (drop 4 (available r))) (br_crypto r) = (result, d)" by fastforce
      have c': "br_connected r" "4 \<le> length (available r)" using c by simp_all
      have t': "2 \<le> len" "4 + len \<le> length (available r)" using True by simp_all
      note p = pop_live_frame [OF assms c' Inr t', of P]
      note k = skip_frame_available [OF assms t'(2), of d]
      show ?thesis using c Inr True p d k
        by (cases result) (simp_all add: stream_pop_live_def abs_reader_def)
    next
      case False
      then show ?thesis using c Inr assms by (auto simp: pop_live_def stream_pop_live_def abs_reader_def HEADER_LEN_def)
    qed
  qed
next
  case False
  then show ?thesis using assms by (auto simp: pop_live_def stream_pop_live_def abs_reader_def)
qed

lemma abs_pop:
  assumes "reader_ok r"
  shows "map_prod id abs_reader (pop P r) = stream_pop P (abs_reader r) \<and> reader_ok (snd (pop P r))"
proof (cases "br_connected r \<and> br_replay r \<noteq> []")
  case True
  then show ?thesis using assms
    by (auto simp: pop_def stream_pop_def abs_reader_def available_def reader_ok_def neq_Nil_conv)
next
  case False
  then have "pop P r = pop_live P r" by (auto simp: pop_def pop_live_def split: list.split)
  moreover have "stream_pop P (abs_reader r) = stream_pop_live P (abs_reader r)"
    using False by (auto simp: stream_pop_def abs_reader_def)
  ultimately show ?thesis using abs_pop_live [OF assms] by simp
qed

lemma feed_abs:
  assumes "reader_ok r"
  shows "abs_reader (feed bs r) = (abs_reader r)\<lparr>sr_pending := available r @ bs\<rparr>" and "reader_ok (feed bs r)"
proof -
  note p = prepare_read_slice_ok [OF assms, of "length bs"]
  let ?s = "prepare_read_slice (length bs) r"
  have "available (commit_read (length bs) (fill_slice bs ?s)) = available r @ bs"
    using p(1,2) available_append [of ?s bs] by (simp add: reader_ok_def)
  then show "abs_reader (feed bs r) = (abs_reader r)\<lparr>sr_pending := available r @ bs\<rparr>"
    by (simp add: feed_def abs_reader_def) (simp add: commit_read_def fill_slice_def)
  show "reader_ok (feed bs r)"
    using p(1,3) assms by (simp add: feed_def reader_ok_def commit_read_def fill_slice_def)
qed

lemma parse_be_u32_len_le: "parse_be_u32_len bs = Inr len \<Longrightarrow> len \<le> MAX_PROTO_LEN"
  by (auto simp: parse_be_u32_len_def Let_def split: if_splits)

lemma aligned_read_len_bounds:
  assumes "0 < limit"
  shows "0 < aligned_read_len limit r" and "aligned_read_len limit r \<le> max limit (4 + MAX_PROTO_LEN)"
proof -
  let ?f = "br_last_frame_len r"
  let ?n = "\<lambda>rest. if limit \<le> rest then rest else if rest = 0 \<and> (limit - rest) div ?f = 0 then limit
    else rest + (limit - rest) div ?f * ?f"
  have n: "0 < ?n rest \<and> ?n rest \<le> max limit rest" if "MIN_SOCKET_READ div 4 \<le> ?f" for rest
  proof -
    have "0 < ?f" using that by (simp add: MIN_SOCKET_READ_def)
    moreover have "rest + (limit - rest) div ?f * ?f \<le> limit" if "rest < limit"
      using div_times_less_eq_dividend [of "limit - rest" ?f] that by linarith
    ultimately show ?thesis using assms by auto
  qed
  have "aligned_read_len limit r = limit \<or>
    (\<exists>rest \<le> 4 + MAX_PROTO_LEN. MIN_SOCKET_READ div 4 \<le> ?f \<and> aligned_read_len limit r = ?n rest)"
  proof (cases "MIN_SOCKET_READ div 4 \<le> ?f")
    case True
    have le: "4 + len - length (available r) \<le> 4 + MAX_PROTO_LEN" if "parse_be_u32_len (available r) = Inr len" for len
      using parse_be_u32_len_le [OF that] by linarith
    show ?thesis
    proof (cases "length (available r) = 0")
      case 0: True
      then have "aligned_read_len limit r = ?n 0" using True unfolding aligned_read_len_def Let_def by simp
      then show ?thesis using True by blast
    next
      case False
      show ?thesis
      proof (cases "3 < length (available r) \<and> (\<exists>len. parse_be_u32_len (available r) = Inr len)")
        case t: True
        then obtain len where len: "parse_be_u32_len (available r) = Inr len" by blast
        have "aligned_read_len limit r = ?n (4 + len - length (available r))"
          using True False t len unfolding aligned_read_len_def Let_def by simp
        then show ?thesis using True le [OF len] by blast
      next
        case f: False
        then have "aligned_read_len limit r = limit"
          using True False unfolding aligned_read_len_def Let_def
          by (cases "parse_be_u32_len (available r)") auto
        then show ?thesis by blast
      qed
    qed
  qed (simp add: aligned_read_len_def)
  then have "0 < aligned_read_len limit r \<and> aligned_read_len limit r \<le> max limit (4 + MAX_PROTO_LEN)"
  proof (elim disjE exE conjE)
    fix rest assume "rest \<le> 4 + MAX_PROTO_LEN" "MIN_SOCKET_READ div 4 \<le> ?f" "aligned_read_len limit r = ?n rest"
    then show ?thesis using n [of rest] by linarith
  qed (use assms in simp)
  then show "0 < aligned_read_len limit r" "aligned_read_len limit r \<le> max limit (4 + MAX_PROTO_LEN)" by simp_all
qed

lemma prepare_socket_read_ok:
  fixes cap :: nat
  assumes "reader_ok r"
  defines "s \<equiv> prepare_socket_read cap r"
  shows "reader_ok s" and "abs_reader s = abs_reader r"
    and "br_filled s + br_read_requested s \<le> length (br_partial s)"
    and "0 < br_read_requested s" and "br_read_requested s \<le> max (br_read_hint r) (4 + MAX_PROTO_LEN)"
    and "br_read_hint s = br_read_hint r" and "br_max_socket_read s = br_max_socket_read r"
proof -
  define r1 where "r1 = (if br_offset r = br_filled r \<and> br_read_hint r = MIN_SOCKET_READ \<and> 4 * MIN_SOCKET_READ < cap
          then r\<lparr>br_partial := [], br_offset := 0, br_filled := 0\<rparr> else r)"
  define n where "n = aligned_read_len (br_read_hint r1) r1"
  have s: "s = prepare_read_slice n (r1\<lparr>br_read_requested := n\<rparr>)"
    by (simp add: s_def prepare_socket_read_def Let_def flip: r1_def n_def)
  have r1: "reader_ok (r1\<lparr>br_read_requested := n\<rparr>)" "abs_reader (r1\<lparr>br_read_requested := n\<rparr>) = abs_reader r"
    "br_read_hint r1 = br_read_hint r" "br_max_socket_read r1 = br_max_socket_read r"
    using assms(1) by (auto simp: r1_def reader_ok_def abs_reader_def available_def)
  note p = prepare_read_slice_ok [OF r1(1), of n]
  have hint: "0 < br_read_hint r1" using assms(1) r1(3) by (simp add: reader_ok_def MIN_SOCKET_READ_def)
  show "reader_ok s" "br_filled s + br_read_requested s \<le> length (br_partial s)"
    "br_read_hint s = br_read_hint r" "br_max_socket_read s = br_max_socket_read r"
    using p r1 by (simp_all add: s)
  show "abs_reader s = abs_reader r" using p(2) r1(2) by (simp add: s abs_reader_def)
  show "0 < br_read_requested s" "br_read_requested s \<le> max (br_read_hint r) (4 + MAX_PROTO_LEN)"
    using aligned_read_len_bounds [OF hint, of r1] r1(3) by (simp_all add: s n_def)
qed

lemma commit_socket_read_ok:
  assumes "reader_ok s" "length bs \<le> br_read_requested s" "br_filled s + br_read_requested s \<le> length (br_partial s)"
  shows "reader_ok (commit_socket_read (length bs) (fill_slice bs s))"
    and "abs_reader (commit_socket_read (length bs) (fill_slice bs s)) = (abs_reader s)\<lparr>sr_pending := available s @ bs\<rparr>"
proof -
  let ?t = "commit_read (length bs) (fill_slice bs s)"
  have t: "reader_ok ?t" "available ?t = available s @ bs"
    using assms available_append [of s bs] by (simp_all add: reader_ok_def commit_read_def fill_slice_def)
  show "reader_ok (commit_socket_read (length bs) (fill_slice bs s))"
    using t(1) by (auto simp: commit_socket_read_def Let_def reader_ok_def commit_read_def fill_slice_def)
  show "abs_reader (commit_socket_read (length bs) (fill_slice bs s)) = (abs_reader s)\<lparr>sr_pending := available s @ bs\<rparr>"
    using t(2) by (auto simp: commit_socket_read_def Let_def abs_reader_def available_def commit_read_def fill_slice_def)
qed

interpretation packet_stream: sealed_stream "seal_packet P" "\<lambda>c w. decode_packet P w c"
  "\<lambda>(h, p). packet_raw False h p" "crypto_sync P" for P
proof
  fix e d :: crypto_handler and p :: "byte \<times> bytes"
  assume sync: "crypto_sync P e d"
  obtain h m where p: "p = (h, m)" by fastforce
  from crypto_stream.unseal_seal [OF sync, of m] obtain d' where
    d': "decrypt P (fst (encrypt P m e)) d = (Inr m, d')" "crypto_sync P (bump e) d'" by auto
  moreover have "fst (encrypt P m e) = secretbox_easy P m (nonce (bump e)) (base_key e)"
    by (simp add: encrypt_def Let_def secretbox_def secretbox_with_prefix_def)
  ultimately show "\<exists>d'. decode_packet P (fst (seal_packet P e p)) d = (Inr (case p of (h, p) \<Rightarrow> packet_raw False h p), d') \<and>
      crypto_sync P (snd (seal_packet P e p)) d'"
    by (simp add: p seal_packet_def decode_packet_def HEADER_LEN_def Let_def)
qed

lemma reader_new_ok: "reader_ok (reader_new c b)" "reader_ok (with_max_socket_read n (reader_new c b))"
  by (simp_all add: reader_ok_def reader_new_def with_max_socket_read_def MIN_SOCKET_READ_def MAX_SOCKET_READ_def)

lemma reader_ok_cleared:
  "reader_ok r \<Longrightarrow> reader_ok (r\<lparr>br_partial := [], br_offset := 0, br_filled := 0\<rparr>)"
  by (simp add: reader_ok_def)

lemma revive_sealed:
  assumes "crypto_sync P c (br_crypto r)"
  shows "\<exists>d. reader_revive P (sealed P c log) r =
      (Inr (), r\<lparr>br_partial := [], br_offset := 0, br_filled := 0, br_crypto := d,
        br_replay := br_replay r @ map (\<lambda>(h, p). packet_raw False h p) log, br_sequence := br_sequence r + int (length log),
        br_data_sequence := (if \<exists>x \<in> set log. fst x \<noteq> KEEP_ALIVE then br_sequence r + int (length log) else br_data_sequence r),
        br_connected := True\<rparr>)
    \<and> crypto_sync P (sealed_state P c log) d"
proof -
  from packet_stream.unseal_all_seal_all [OF assms, of log] obtain d where
    "unseal_all (\<lambda>c w. decode_packet P w c) (br_crypto r) (sealed P c log) = (Inr (map (\<lambda>(h, p). packet_raw False h p) log), d)"
    "crypto_sync P (sealed_state P c log) d" by (auto simp: sealed_def sealed_state_def)
  moreover have "list_ex (\<lambda>p. pkt_header p \<noteq> KEEP_ALIVE) (map (\<lambda>(h, p). packet_raw False h p) log)
      = (\<exists>x \<in> set log. fst x \<noteq> KEEP_ALIVE)"
    by (force simp: list_ex_iff split: prod.splits)
  ultimately show ?thesis by (auto simp: reader_revive_def Let_def)
qed

section \<open>Properties\<close>

text \<open>C6: The buffered reader is a stream parser.  Whatever the buffer's compaction and growth did,
  feeding bytes appends them to the unread stream, and \<open>pop\<close> gives exactly what parsing the
  unread stream gives: the replayed packets first, then one decoded frame, or nothing yet, or the
  error, with the same crypto state, counters and remaining bytes.\<close>

theorem reader_refines_stream:
  assumes "reader_ok r"
  shows "map_prod id abs_reader (pop P r) = stream_pop P (abs_reader r) \<and> reader_ok (snd (pop P r)) \<and>
    abs_reader (feed bs r) = (abs_reader r)\<lparr>sr_pending := sr_pending (abs_reader r) @ bs\<rparr> \<and> reader_ok (feed bs r)"
  using abs_pop [OF assms] feed_abs [OF assms] by (simp add: abs_reader_def)

lemma reader_refines_stream_witness:
  "reader_ok (reader_new (crypto_new (replicate 32 7) 0) True) \<and>
   sr_pending (abs_reader (feed [0, 0, 0] (reader_new (crypto_new (replicate 32 7) 0) True))) = [0, 0, 0]"
  using reader_refines_stream [OF reader_new_ok(1), of plain_primitives "crypto_new (replicate 32 7) 0" True "[0, 0, 0]"]
    reader_new_ok(1) by (simp add: abs_reader_def reader_new_def available_def)

text \<open>A socket read appends what was read to the unread stream and nothing else, it never asks
  for zero bytes (which a socket answers as if it were closed), there is room in the buffer for all
  it asks for, and it asks for at most the adapted size or the rest of one frame.\<close>

theorem socket_read_appends:
  assumes "reader_ok r" "length bs \<le> br_read_requested (prepare_socket_read capacity r)"
  shows "abs_reader (commit_socket_read (length bs) (fill_slice bs (prepare_socket_read capacity r))) =
      (abs_reader r)\<lparr>sr_pending := sr_pending (abs_reader r) @ bs\<rparr> \<and>
    reader_ok (commit_socket_read (length bs) (fill_slice bs (prepare_socket_read capacity r))) \<and>
    0 < br_read_requested (prepare_socket_read capacity r) \<and>
    br_read_requested (prepare_socket_read capacity r) \<le> max (br_read_hint r) (4 + MAX_PROTO_LEN) \<and>
    br_filled (prepare_socket_read capacity r) + br_read_requested (prepare_socket_read capacity r)
      \<le> length (br_partial (prepare_socket_read capacity r))"
proof -
  note s = prepare_socket_read_ok [OF assms(1), of capacity]
  have "available (prepare_socket_read capacity r) = available r"
    using s(2) by (simp add: abs_reader_def)
  then show ?thesis using s(3-5) commit_socket_read_ok [OF s(1) assms(2) s(3)] s(2) by (simp add: abs_reader_def)
qed

lemma socket_read_appends_witness:
  "reader_ok (reader_new (crypto_new (replicate 32 7) 0) True) \<and>
   length [1 :: byte, 2] \<le> br_read_requested (prepare_socket_read 0 (reader_new (crypto_new (replicate 32 7) 0) True)) \<and>
   sr_pending (abs_reader (commit_socket_read 2 (fill_slice [1, 2] (prepare_socket_read 0 (reader_new (crypto_new (replicate 32 7) 0) True))))) = [1, 2]"
proof -
  let ?r = "reader_new (crypto_new (replicate 32 7) 0) True"
  have req: "br_read_requested (prepare_socket_read 0 ?r) = 16384"
    by (simp add: prepare_socket_read_def aligned_read_len_def reader_new_def MIN_SOCKET_READ_def Let_def)
  have pend: "sr_pending (abs_reader ?r) = []" by (simp add: abs_reader_def available_def reader_new_def)
  show ?thesis
    using socket_read_appends [of ?r "[1, 2]" 0] reader_new_ok(1) req pend by (simp add: numeral_2_eq_2)
qed

text \<open>\<open>has_buffered_data\<close> answers exactly whether \<open>pop\<close> would make progress without
  another socket read: a packet or an error, not \<open>NeedMore\<close>.\<close>

theorem has_buffered_data_iff:
  assumes "reader_ok r"
  shows "has_buffered_data r \<longleftrightarrow> fst (pop P r) \<noteq> Inr NeedMore"
proof -
  have "fst (pop P r) = fst (stream_pop P (abs_reader r))"
    using abs_pop [OF assms, of P] by (metis fst_map_prod id_apply)
  moreover have "has_buffered_data r \<longleftrightarrow> fst (stream_pop P (abs_reader r)) \<noteq> Inr NeedMore"
    by (auto simp: has_buffered_data_def stream_pop_def stream_pop_live_def abs_reader_def HEADER_LEN_def
        split: sum.splits prod.splits)
  ultimately show ?thesis by simp
qed

lemma has_buffered_data_iff_witness:
  "reader_ok (reader_new (crypto_new [] 0) True) \<and> fst (pop plain_primitives (reader_new (crypto_new [] 0) True)) = Inr NeedMore"
  using has_buffered_data_iff [OF reader_new_ok(1), of "crypto_new [] 0" True plain_primitives] reader_new_ok(1)
  by (simp add: has_buffered_data_def reader_new_def available_def)

text \<open>C7: Reviving with a catchup is all or nothing: an undecodable entry leaves the reader as it
  was, and a catchup sealed by an in-step peer is queued completely and in order, counted, and
  leaves the crypto state in step with the peer after those packets.\<close>

theorem reader_revive_atomic:
  assumes "crypto_sync P c (br_crypto r)"
  shows "(fst (reader_revive P ws r) = Inl e \<longrightarrow> snd (reader_revive P ws r) = r) \<and>
    fst (reader_revive P (sealed P c log) r) = Inr () \<and>
    (let r' = snd (reader_revive P (sealed P c log) r) in
      br_replay r' = br_replay r @ map (\<lambda>(h, p). packet_raw False h p) log \<and>
      br_sequence r' = br_sequence r + int (length log) \<and> br_connected r' \<and> available r' = [] \<and>
      crypto_sync P (sealed_state P c log) (br_crypto r'))"
proof -
  have "fst (reader_revive P ws r) = Inl e \<longrightarrow> snd (reader_revive P ws r) = r"
    by (auto simp: reader_revive_def Let_def split: prod.splits sum.splits)
  with revive_sealed [OF assms, of log] show ?thesis by (auto simp: Let_def available_def)
qed

lemma reader_revive_atomic_witness:
  "crypto_sync plain_primitives (crypto_new [] 0) (br_crypto (reader_new (crypto_new [] 0) False)) \<and>
   br_replay (snd (reader_revive plain_primitives (sealed plain_primitives (crypto_new [] 0) [(1, [65])])
     (reader_new (crypto_new [] 0) False))) = [packet_raw False 1 [65]]"
proof -
  have sync: "crypto_sync plain_primitives (crypto_new [] 0) (br_crypto (reader_new (crypto_new [] 0) False))"
    by (simp add: crypto_sync_def reader_new_def)
  show ?thesis using reader_revive_atomic [OF sync, of "[]" _ "[(1, [65])]"] sync
    by (simp add: Let_def) (simp add: reader_new_def)
qed

end
