(* ===== verification/Session.thy ===== *)
theory Session
  imports Backed_Reader
begin

text \<open>
  One direction of a connection, end to end: the sending side's backed writer, the transport, and
  the receiving side's backed reader, through any number of transport failures and recoveries.

  The steps are the operations of \<^verbatim>\<open>crates/et-net/src/connection.rs\<close> and
  \<^verbatim>\<open>connection_recovery.rs\<close> that touch this direction: writing a packet, reading bytes, popping a
  packet, soft disconnects of either side, an acknowledgement carried by a keep-alive, the recovery
  exchange (the receiver's sequence number against the sender's catchup), and the two revivals,
  which happen at different times.  The transport delivers bytes in order, loses any suffix when it
  breaks, and recovery always uses a new one.  While a recovery handshake is in flight nothing is
  written: the client holds the connection exclusively and the server parks output in
  \<^verbatim>\<open>recover_hold\<close> (\<^verbatim>\<open>crates/et-server/src/session.rs\<close>).

  \<open>s_log\<close> and \<open>s_got\<close> record what the sending application handed in and what the
  receiving application was given.
\<close>

section \<open>Definitions\<close>

record session =
  s_writer :: backed_writer
  s_reader :: backed_reader
  s_wire :: bytes
  s_link :: bool
  s_catchup :: "bytes list option"
  s_log :: "(byte \<times> bytes) list"
  s_got :: "packet list"
  s_failed :: bool

definition plain_packet :: "byte \<times> bytes \<Rightarrow> packet" where
  "plain_packet = (\<lambda>(h, p). packet_raw False h p)"

definition session_new :: "bytes \<Rightarrow> byte \<Rightarrow> nat \<Rightarrow> session" where
  "session_new key dir max_read = \<lparr>s_writer = writer_new (crypto_new key dir) True,
     s_reader = with_max_socket_read max_read (reader_new (crypto_new key dir) True),
     s_wire = [], s_link = True, s_catchup = None, s_log = [], s_got = [], s_failed = False\<rparr>"

definition session_write :: "primitives \<Rightarrow> byte \<Rightarrow> bytes \<Rightarrow> session \<Rightarrow> session" where
  "session_write P h p s =
    (case write_packet P h p (s_writer s) of
       (Skipped, w) \<Rightarrow> s\<lparr>s_writer := w\<rparr>
     | (BufferedOnly, w) \<Rightarrow> s\<lparr>s_writer := w, s_log := s_log s @ [(h, p)]\<rparr>
     | (Send f, w) \<Rightarrow> s\<lparr>s_writer := w, s_log := s_log s @ [(h, p)],
         s_wire := (if s_link s then s_wire s @ f else s_wire s)\<rparr>)"

definition session_deliver :: "nat \<Rightarrow> session \<Rightarrow> session" where
  "session_deliver n s = s\<lparr>s_reader := feed (take n (s_wire s)) (s_reader s), s_wire := drop n (s_wire s)\<rparr>"

definition session_pop :: "primitives \<Rightarrow> session \<Rightarrow> session" where
  "session_pop P s =
    (case pop P (s_reader s) of
       (Inr (ReadPacket p), r) \<Rightarrow> s\<lparr>s_reader := r, s_got := s_got s @ [p]\<rparr>
     | (Inr NeedMore, r) \<Rightarrow> s\<lparr>s_reader := r\<rparr>
     | (Inl _, r) \<Rightarrow> s\<lparr>s_reader := reader_invalidate r, s_failed := True\<rparr>)"

definition session_recover :: "session \<Rightarrow> session" where
  "session_recover s =
    (case recover (br_sequence (s_reader s)) (s_writer s) of
       Inl _ \<Rightarrow> s
     | Inr ws \<Rightarrow> s\<lparr>s_writer := writer_invalidate (s_writer s), s_reader := reader_invalidate (s_reader s),
         s_wire := [], s_link := True, s_catchup := Some ws\<rparr>)"

definition session_receiver_revive :: "primitives \<Rightarrow> bytes list \<Rightarrow> session \<Rightarrow> session" where
  "session_receiver_revive P ws s =
    (case reader_revive P ws (s_reader s) of
       (Inr _, r) \<Rightarrow> s\<lparr>s_reader := r, s_catchup := None\<rparr>
     | (Inl _, r) \<Rightarrow> s\<lparr>s_reader := r, s_failed := True\<rparr>)"

inductive session_step :: "primitives \<Rightarrow> session \<Rightarrow> session \<Rightarrow> bool" for P where
  step_write: "length p + 18 \<le> MAX_PROTO_LEN \<Longrightarrow> (s_link s \<longrightarrow> bw_connected (s_writer s)) \<Longrightarrow>
    session_step P s (session_write P h p s)"
| step_deliver: "s_catchup s = None \<Longrightarrow> br_connected (s_reader s) \<Longrightarrow> session_step P s (session_deliver n s)"
| step_pop: "session_step P s (session_pop P s)"
| step_acknowledge: "a \<le> br_sequence (s_reader s) \<Longrightarrow>
    session_step P s (s\<lparr>s_writer := acknowledge a (s_writer s)\<rparr>)"
| step_lose: "session_step P s (s\<lparr>s_wire := take n (s_wire s), s_link := False\<rparr>)"
| step_sender_down: "session_step P s (s\<lparr>s_writer := writer_invalidate (s_writer s), s_link := False\<rparr>)"
| step_receiver_down: "session_step P s
    (s\<lparr>s_reader := reader_invalidate (s_reader s), s_wire := [], s_link := False, s_catchup := None\<rparr>)"
| step_recover: "br_sequence (s_reader s) \<le> i32_max \<Longrightarrow> session_step P s (session_recover s)"
| step_sender_revive: "s_link s \<Longrightarrow> session_step P s (s\<lparr>s_writer := writer_revive (s_writer s)\<rparr>)"
| step_receiver_revive: "s_catchup s = Some ws \<Longrightarrow> session_step P s (session_receiver_revive P ws s)"

text \<open>The server recovers on a snapshot (\<^verbatim>\<open>prepare_recovery_candidate\<close>): the candidate's reader is
  a disconnected copy of the live one, which the terminal bridge goes on reading meanwhile.\<close>

definition recovery_candidate_reader :: "backed_reader \<Rightarrow> backed_reader" where
  "recovery_candidate_reader r = reader_invalidate r"

definition recovery_candidate_writer :: "backed_writer \<Rightarrow> backed_writer" where
  "recovery_candidate_writer w = writer_invalidate w"

text \<open>The bytes of the frames of \<open>log\<close>, sealed from handler state \<open>c\<close> on.\<close>

definition stream_of :: "primitives \<Rightarrow> crypto_handler \<Rightarrow> (byte \<times> bytes) list \<Rightarrow> bytes" where
  "stream_of P c log = concat (map frame_be_u32 (sealed P c log))"

definition session_ok :: "primitives \<Rightarrow> crypto_handler \<Rightarrow> nat \<Rightarrow> nat \<Rightarrow> session \<Rightarrow> bool" where
  "session_ok P c0 k hi s \<longleftrightarrow>
    k \<le> length (s_log s) \<and> hi \<le> k \<and> br_sequence (s_reader s) = int k \<and>
    writer_inv P c0 (s_log s) hi (s_writer s) \<and>
    reader_ok (s_reader s) \<and> \<not> s_failed s \<and>
    list_all (\<lambda>x. length (snd x) + 18 \<le> MAX_PROTO_LEN) (s_log s) \<and>
    crypto_sync P (sealed_state P c0 (take k (s_log s))) (br_crypto (s_reader s)) \<and>
    s_got s @ br_replay (s_reader s) = map plain_packet (take k (s_log s))"

text \<open>What is on its way: the bytes \<open>bs\<close> continue the stream after the first \<open>k\<close> packets,
  completely when the transport is up.\<close>

definition in_flight :: "primitives \<Rightarrow> crypto_handler \<Rightarrow> nat \<Rightarrow> (byte \<times> bytes) list \<Rightarrow> bool \<Rightarrow> bytes \<Rightarrow> bool" where
  "in_flight P c0 k log link bs \<longleftrightarrow>
    (let rest = stream_of P (sealed_state P c0 (take k log)) (drop k log) in prefix bs rest \<and> (link \<longrightarrow> bs = rest))"

definition transit_ok :: "primitives \<Rightarrow> crypto_handler \<Rightarrow> nat \<Rightarrow> session \<Rightarrow> bool" where
  "transit_ok P c0 k s \<longleftrightarrow>
    (case s_catchup s of
       None \<Rightarrow> (br_connected (s_reader s) \<longrightarrow>
           in_flight P c0 k (s_log s) (s_link s) (available (s_reader s) @ s_wire s)) \<and>
         (\<not> br_connected (s_reader s) \<longrightarrow> \<not> s_link s \<and> s_wire s = [])
     | Some ws \<Rightarrow> \<not> br_connected (s_reader s) \<and>
         (\<exists>m. k \<le> m \<and> m \<le> length (s_log s) \<and> ws = drop k (take m (sealed P c0 (s_log s))) \<and>
           in_flight P c0 m (s_log s) (s_link s) (s_wire s)))"

definition session_inv :: "primitives \<Rightarrow> crypto_handler \<Rightarrow> session \<Rightarrow> bool" where
  "session_inv P c0 s \<longleftrightarrow> (\<exists>k hi. session_ok P c0 k hi s \<and> transit_ok P c0 k s)"

section \<open>Streams of sealed packets\<close>

lemma sealed_take: "take m (sealed P c log) = sealed P c (take m log)"
proof (cases "m \<le> length log")
  case True
  have "sealed P c log = sealed P c (take m log) @ sealed P (sealed_state P c (take m log)) (drop m log)"
    by (simp flip: sealed_append)
  then show ?thesis using True by simp
qed simp

lemma sealed_drop: "drop k (sealed P c log) = sealed P (sealed_state P c (take k log)) (drop k log)"
  by (simp add: sealed_def sealed_state_def drop_seal_all)

lemma sealed_state_take_drop: "sealed_state P (sealed_state P c (take k log)) (drop k log) = sealed_state P c log"
  by (simp flip: sealed_state_append)

lemma stream_of_append: "stream_of P c (log @ log') = stream_of P c log @ stream_of P (sealed_state P c log) log'"
  by (simp add: stream_of_def sealed_append)

lemma stream_of_Nil [simp]: "stream_of P c [] = []"
  by (simp add: stream_of_def)

lemma stream_of_single: "stream_of P c [x] = frame_be_u32 (fst (seal_packet P c x))"
  by (simp add: stream_of_def sealed_single)

lemma stream_of_Cons: "stream_of P c (x # log) = frame_be_u32 (fst (seal_packet P c x)) @ stream_of P (bump c) log"
  using stream_of_append [of P c "[x]" log] by (simp add: stream_of_single sealed_single)

lemma length_seal_packet: "sodium_laws P \<Longrightarrow> length (fst (seal_packet P c x)) = 18 + length (snd x)"
  by (simp add: seal_packet_def Let_def sodium_lawsD)

text \<open>Reading the front of such a stream: either the first frame is still incomplete, or it is
  decoded and consumed.\<close>

lemma stream_pop_step:
  assumes sync: "crypto_sync P c (sr_crypto a)" and conn: "sr_connected a" "sr_replay a = []"
    and pre: "prefix (sr_pending a) (stream_of P c log)"
    and small: "list_all (\<lambda>x. length (snd x) + 18 \<le> MAX_PROTO_LEN) log"
  shows "(stream_pop P a = (Inr NeedMore, a) \<and>
      (log = [] \<or> length (sr_pending a) < length (frame_be_u32 (fst (seal_packet P c (hd log))))))
    \<or> (\<exists>x log' d. log = x # log' \<and>
        sr_pending a = frame_be_u32 (fst (seal_packet P c x)) @ drop (length (frame_be_u32 (fst (seal_packet P c x)))) (sr_pending a) \<and>
        crypto_sync P (bump c) d \<and>
        stream_pop P a = (Inr (ReadPacket (plain_packet x)),
          a\<lparr>sr_pending := drop (length (frame_be_u32 (fst (seal_packet P c x)))) (sr_pending a), sr_crypto := d,
            sr_sequence := sr_sequence a + 1,
            sr_data_sequence := (if fst x \<noteq> KEEP_ALIVE then sr_sequence a + 1 else sr_data_sequence a)\<rparr>))"
proof (cases log)
  case Nil
  then show ?thesis using pre conn by (simp add: stream_pop_def stream_pop_live_def)
next
  case (Cons x log')
  have P: "sodium_laws P" using sync by (simp add: crypto_sync_def)
  let ?w = "fst (seal_packet P c x)"
  have len: "length ?w = 18 + length (snd x)" "length ?w \<le> MAX_PROTO_LEN"
    using small Cons length_seal_packet [OF P] by simp_all
  have flen: "length (frame_be_u32 ?w) = 4 + length ?w" by (simp add: frame_be_u32_def length_u32_to_be_bytes)
  have pre': "prefix (sr_pending a) (frame_be_u32 ?w @ stream_of P (bump c) log')"
    using pre Cons by (simp add: stream_of_Cons)
  show ?thesis
  proof (cases "length (frame_be_u32 ?w) \<le> length (sr_pending a)")
    case True
    then obtain ys where ys: "sr_pending a = frame_be_u32 ?w @ ys"
      using prefix_length_prefix [OF _ pre' True] by (auto simp: prefix_def)
    have parse: "parse_be_u32_len (sr_pending a) = Inr (length ?w)"
      using be_u32.get_frame [OF len(2), of "?w @ ys"] by (simp add: ys frame_be_u32_def)
    have body: "take (length ?w) (drop 4 (sr_pending a)) = ?w"
      by (simp add: ys frame_be_u32_def length_u32_to_be_bytes)
    obtain d where d: "decode_packet P ?w (sr_crypto a) = (Inr (plain_packet x), d)" "crypto_sync P (bump c) d"
      using packet_stream.unseal_seal [OF sync, of x] by (auto simp: plain_packet_def seal_packet_def Let_def split: prod.splits)
    have hdr: "pkt_header (plain_packet x) = fst x" by (simp add: plain_packet_def split: prod.split)
    have "stream_pop P a = (Inr (ReadPacket (plain_packet x)),
          a\<lparr>sr_pending := drop (length (frame_be_u32 ?w)) (sr_pending a), sr_crypto := d,
            sr_sequence := sr_sequence a + 1,
            sr_data_sequence := (if fst x \<noteq> KEEP_ALIVE then sr_sequence a + 1 else sr_data_sequence a)\<rparr>)"
      using conn parse body d(1) len True flen hdr by (simp add: stream_pop_def stream_pop_live_def)
    moreover have "sr_pending a = frame_be_u32 ?w @ drop (length (frame_be_u32 ?w)) (sr_pending a)" by (simp add: ys)
    ultimately show ?thesis using Cons d(2) by blast
  next
    case False
    have "prefix (sr_pending a) (frame_be_u32 ?w)"
      using pre' False by (metis nle_le prefix_length_prefix prefixI)
    then have parse: "parse_be_u32_len (sr_pending a) = Inr (length ?w)" if "4 \<le> length (sr_pending a)"
      using be_u32.get_partial [of "sr_pending a" ?w] len(2) that by (simp add: frame_be_u32_def)
    have "stream_pop P a = (Inr NeedMore, a)"
      using conn parse False flen len(1) by (auto simp: stream_pop_def stream_pop_live_def not_less)
    then show ?thesis using Cons False by simp
  qed
qed

section \<open>The invariant\<close>

lemma in_flight_snoc:
  assumes "in_flight P c0 k log link bs" "k \<le> length log"
  shows "in_flight P c0 k (log @ [x]) link
    (if link then bs @ frame_be_u32 (fst (seal_packet P (sealed_state P c0 log) x)) else bs)"
proof -
  have "stream_of P (sealed_state P c0 (take k log)) (drop k (log @ [x])) =
      stream_of P (sealed_state P c0 (take k log)) (drop k log) @ frame_be_u32 (fst (seal_packet P (sealed_state P c0 log) x))"
    using assms(2) by (simp add: stream_of_append stream_of_single sealed_state_take_drop)
  then show ?thesis using assms by (auto simp: in_flight_def Let_def)
qed

lemma in_flight_take: "in_flight P c0 k log link bs \<Longrightarrow> in_flight P c0 k log False (take n bs)"
  by (auto simp: in_flight_def Let_def intro: prefix_order.trans take_is_prefix)

lemma in_flight_weaken: "in_flight P c0 k log link bs \<Longrightarrow> in_flight P c0 k log False bs"
  by (auto simp: in_flight_def Let_def)

lemma write_session_inv:
  assumes P: "sodium_laws P" and inv: "session_inv P c0 s" and fit: "length p + 18 \<le> MAX_PROTO_LEN"
    and idle: "s_link s \<longrightarrow> bw_connected (s_writer s)"
  shows "session_inv P c0 (session_write P h p s)"
proof -
  obtain k hi where ok: "session_ok P c0 k hi s" and tr: "transit_ok P c0 k s"
    using inv by (auto simp: session_inv_def)
  have winv: "writer_inv P c0 (s_log s) hi (s_writer s)" and k: "k \<le> length (s_log s)" using ok by (simp_all add: session_ok_def)
  obtain out w' where step: "write_packet P h p (s_writer s) = (out, w')" by fastforce
  have wok: "writer_ok P c0 (s_log s) (s_writer s)" using winv by (simp add: writer_inv_def)
  note o = write_outcome [OF P wok step]
  show ?thesis
  proof (cases "out = Skipped")
    case True
    then have "session_write P h p s = s" using step o by (simp add: session_write_def)
    then show ?thesis using inv by simp
  next
    case False
    let ?log = "s_log s @ [(h, p)]" and ?f = "frame_be_u32 (fst (seal_packet P (sealed_state P c0 (s_log s)) (h, p)))"
    let ?s = "session_write P h p s"
    have f: "frame_be_u32 (last (sealed P c0 ?log)) = ?f" by (simp add: sealed_append sealed_single)
    have s': "?s = s\<lparr>s_writer := w', s_log := ?log, s_wire := (if s_link s then s_wire s @ ?f else s_wire s)\<rparr>"
      using False step o f idle by (cases "bw_connected (s_writer s)") (auto simp: session_write_def)
    have "session_ok P c0 k hi ?s"
      using ok fit write_inv [OF P winv step False] by (simp add: session_ok_def s')
    moreover have "transit_ok P c0 k ?s"
    proof (cases "s_catchup s")
      case None
      then show ?thesis using tr in_flight_snoc [of P c0 k "s_log s" "s_link s" _ "(h, p)"] k
        by (fastforce simp: transit_ok_def s')
    next
      case (Some ws)
      then obtain m where m: "k \<le> m" "m \<le> length (s_log s)" "ws = drop k (take m (sealed P c0 (s_log s)))"
        "in_flight P c0 m (s_log s) (s_link s) (s_wire s)" using tr by (auto simp: transit_ok_def)
      have "take m (sealed P c0 ?log) = take m (sealed P c0 (s_log s))" using m(2) by (simp add: sealed_take)
      then show ?thesis using Some tr m in_flight_snoc [OF m(4,2), of "(h, p)"]
        by (auto simp: transit_ok_def s' intro!: exI [of _ m])
    qed
    ultimately show ?thesis by (auto simp: session_inv_def)
  qed
qed

lemma abs_reader_sel:
  "sr_crypto (abs_reader r) = br_crypto r" "sr_pending (abs_reader r) = available r"
  "sr_replay (abs_reader r) = br_replay r" "sr_sequence (abs_reader r) = br_sequence r"
  "sr_connected (abs_reader r) = br_connected r"
  by (simp_all add: abs_reader_def)

lemma abs_readerD:
  assumes "abs_reader r = a"
  shows "br_crypto r = sr_crypto a" "available r = sr_pending a" "br_replay r = sr_replay a"
    "br_sequence r = sr_sequence a" "br_connected r = sr_connected a"
  using assms by (auto simp: abs_reader_def)

lemma deliver_session_inv:
  assumes inv: "session_inv P c0 s" and "s_catchup s = None" "br_connected (s_reader s)"
  shows "session_inv P c0 (session_deliver n s)"
proof -
  obtain k hi where ok: "session_ok P c0 k hi s" and tr: "transit_ok P c0 k s"
    using inv by (auto simp: session_inv_def)
  have r: "reader_ok (s_reader s)" using ok by (simp add: session_ok_def)
  note f = feed_abs [OF r, of "take n (s_wire s)"]
  note d = abs_readerD [OF f(1), simplified, unfolded abs_reader_sel]
  have "session_ok P c0 k hi (session_deliver n s)"
    using ok f(2) by (simp add: session_ok_def session_deliver_def d)
  moreover have "transit_ok P c0 k (session_deliver n s)"
    using tr assms(2,3) by (simp add: transit_ok_def session_deliver_def d)
  ultimately show ?thesis by (auto simp: session_inv_def)
qed

lemma take_drop_Suc:
  assumes "drop k log = x # rest"
  shows "take (Suc k) log = take k log @ [x]" "drop (Suc k) log = rest" "k < length log"
proof -
  show k: "k < length log" using assms by (metis drop_all list.discI not_le)
  then have "log ! k = x" using assms by (simp add: Cons_nth_drop_Suc [symmetric])
  then show "take (Suc k) log = take k log @ [x]" using k by (simp add: take_Suc_conv_app_nth)
  show "drop (Suc k) log = rest" using assms k by (simp add: Cons_nth_drop_Suc [symmetric])
qed

lemma pop_live_session:
  assumes ok: "session_ok P c0 k hi s" and tr: "transit_ok P c0 k s"
    and conn: "br_connected (s_reader s)" "br_replay (s_reader s) = []"
  shows "(\<exists>r. pop P (s_reader s) = (Inr NeedMore, r) \<and> abs_reader r = abs_reader (s_reader s) \<and> reader_ok r \<and>
      (k = length (s_log s) \<or> available (s_reader s) @ s_wire s \<noteq> stream_of P (sealed_state P c0 (take k (s_log s))) (drop k (s_log s)) \<or> s_wire s \<noteq> []))
    \<or> session_inv P c0 (session_pop P s) \<and> fst (pop P (s_reader s)) \<noteq> Inr NeedMore"
proof -
  let ?r = "s_reader s" and ?c = "sealed_state P c0 (take k (s_log s))" and ?rest = "drop k (s_log s)"
  have r: "reader_ok ?r" and sync: "crypto_sync P ?c (br_crypto ?r)" using ok by (simp_all add: session_ok_def)
  have none: "s_catchup s = None" using tr conn by (auto simp: transit_ok_def split: option.splits)
  then have fl: "in_flight P c0 k (s_log s) (s_link s) (available ?r @ s_wire s)" using tr conn by (simp add: transit_ok_def)
  then have pre: "prefix (available ?r) (stream_of P ?c ?rest)"
    by (auto simp: in_flight_def Let_def dest: append_prefixD)
  have small: "list_all (\<lambda>x. length (snd x) + 18 \<le> MAX_PROTO_LEN) ?rest"
    using ok by (auto simp: session_ok_def list_all_iff dest: in_set_dropD)
  have abs: "map_prod id abs_reader (pop P ?r) = stream_pop P (abs_reader ?r)" "reader_ok (snd (pop P ?r))"
    using abs_pop [OF r, of P] by simp_all
  from stream_pop_step [of P ?c "abs_reader ?r" ?rest, unfolded abs_reader_sel, OF sync conn pre small]
  show ?thesis
  proof (elim disjE exE conjE)
    assume "stream_pop P (abs_reader ?r) = (Inr NeedMore, abs_reader ?r)"
    then obtain r' where r': "pop P ?r = (Inr NeedMore, r')" "abs_reader r' = abs_reader ?r"
      using abs(1) by (cases "pop P ?r") auto
    assume "?rest = []"
    then have "k = length (s_log s)" using ok by (simp add: session_ok_def)
    then show ?thesis using r' abs(2) by auto
  next
    assume "stream_pop P (abs_reader ?r) = (Inr NeedMore, abs_reader ?r)"
    then obtain r' where r': "pop P ?r = (Inr NeedMore, r')" "abs_reader r' = abs_reader ?r"
      using abs(1) by (cases "pop P ?r") auto
    assume short: "length (available ?r) < length (frame_be_u32 (fst (seal_packet P ?c (hd ?rest))))"
    have "k = length (s_log s) \<or> available ?r \<noteq> stream_of P ?c ?rest"
    proof (cases ?rest)
      case Nil
      then show ?thesis using ok by (simp add: session_ok_def)
    next
      case (Cons x xs)
      then show ?thesis using short by (auto simp: stream_of_Cons dest: arg_cong [where f = length])
    qed
    then show ?thesis using r' abs(2) by auto
  next
    fix x log' d
    let ?f = "frame_be_u32 (fst (seal_packet P ?c x))"
    assume rest: "?rest = x # log'" and front: "available ?r = ?f @ drop (length ?f) (available ?r)"
      and d: "crypto_sync P (bump ?c) d"
      and sp: "stream_pop P (abs_reader ?r) = (Inr (ReadPacket (plain_packet x)),
          (abs_reader ?r)\<lparr>sr_pending := drop (length ?f) (available ?r), sr_crypto := d,
            sr_sequence := br_sequence ?r + 1,
            sr_data_sequence := (if fst x \<noteq> KEEP_ALIVE then br_sequence ?r + 1 else sr_data_sequence (abs_reader ?r))\<rparr>)"
    from sp abs(1) obtain r' where r': "pop P ?r = (Inr (ReadPacket (plain_packet x)), r')"
      "abs_reader r' = (abs_reader ?r)\<lparr>sr_pending := drop (length ?f) (available ?r), sr_crypto := d,
            sr_sequence := br_sequence ?r + 1,
            sr_data_sequence := (if fst x \<noteq> KEEP_ALIVE then br_sequence ?r + 1 else sr_data_sequence (abs_reader ?r))\<rparr>"
      by (cases "pop P ?r") auto
    note e = abs_readerD [OF r'(2), simplified, unfolded abs_reader_sel]
    note t = take_drop_Suc [OF rest]
    have s': "session_pop P s = s\<lparr>s_reader := r', s_got := s_got s @ [plain_packet x]\<rparr>"
      using r'(1) by (simp add: session_pop_def)
    have "reader_ok r'" using abs(2) r'(1) by simp
    then have "session_ok P c0 (Suc k) hi (session_pop P s)"
      using ok t d conn(2) by (simp add: session_ok_def s' e sealed_state_append sealed_single)
    moreover have "in_flight P c0 (Suc k) (s_log s) (s_link s) (drop (length ?f) (available ?r) @ s_wire s)"
    proof -
      have "stream_of P ?c ?rest = ?f @ stream_of P (bump ?c) log'" by (simp add: rest stream_of_Cons)
      moreover obtain y where "available ?r = ?f @ y" using front by metis
      ultimately show ?thesis using fl
        by (simp add: in_flight_def Let_def t sealed_state_append sealed_single)
    qed
    then have "transit_ok P c0 (Suc k) (session_pop P s)"
      using none conn by (simp add: transit_ok_def s' e)
    ultimately show ?thesis using r'(1) by (auto simp: session_inv_def)
  qed
qed

lemma session_inv_reader_cong:
  assumes "session_ok P c0 k hi s" "transit_ok P c0 k s" "abs_reader r = abs_reader (s_reader s)" "reader_ok r"
  shows "session_inv P c0 (s\<lparr>s_reader := r\<rparr>)"
proof -
  note e = abs_readerD [OF assms(3), unfolded abs_reader_sel]
  have "session_ok P c0 k hi (s\<lparr>s_reader := r\<rparr>)" using assms(1,4) by (simp add: session_ok_def e)
  moreover have "transit_ok P c0 k (s\<lparr>s_reader := r\<rparr>)" using assms(2) by (cases "s_catchup s") (simp_all add: transit_ok_def e)
  ultimately show ?thesis by (auto simp: session_inv_def)
qed

lemma pop_session_inv:
  assumes inv: "session_inv P c0 s"
  shows "session_inv P c0 (session_pop P s)"
proof -
  obtain k hi where ok: "session_ok P c0 k hi s" and tr: "transit_ok P c0 k s"
    using inv by (auto simp: session_inv_def)
  consider "\<not> br_connected (s_reader s)" | p ps where "br_connected (s_reader s)" "br_replay (s_reader s) = p # ps"
    | "br_connected (s_reader s)" "br_replay (s_reader s) = []" by (cases "br_replay (s_reader s)") auto
  then show ?thesis
  proof cases
    case 1
    then show ?thesis using inv by (simp add: session_pop_def pop_def)
  next
    case (2 p ps)
    then have s': "session_pop P s = s\<lparr>s_reader := (s_reader s)\<lparr>br_replay := ps\<rparr>, s_got := s_got s @ [p]\<rparr>"
      by (simp add: session_pop_def pop_def)
    have "session_ok P c0 k hi (session_pop P s)" using ok 2 by (simp add: session_ok_def s' reader_ok_def)
    moreover have "transit_ok P c0 k (session_pop P s)"
      using tr by (simp add: transit_ok_def s' available_def split: option.splits)
    ultimately show ?thesis by (auto simp: session_inv_def)
  next
    case 3
    from pop_live_session [OF ok tr 3] show ?thesis
      using session_inv_reader_cong [OF ok tr] by (auto simp: session_pop_def)
  qed
qed

lemma acknowledge_session_inv:
  assumes inv: "session_inv P c0 s" and a: "a \<le> br_sequence (s_reader s)"
  shows "session_inv P c0 (s\<lparr>s_writer := acknowledge a (s_writer s)\<rparr>)"
proof -
  obtain k hi where ok: "session_ok P c0 k hi s" and tr: "transit_ok P c0 k s"
    using inv by (auto simp: session_inv_def)
  let ?hi = "if bw_connected (s_writer s) \<and> a \<le> bw_sequence (s_writer s) then max hi (nat a) else hi"
  have "writer_inv P c0 (s_log s) ?hi (acknowledge a (s_writer s))"
    using ok by (intro acknowledge_inv) (simp add: session_ok_def)
  moreover have "?hi \<le> k" using ok a by (auto simp: session_ok_def)
  ultimately have "session_ok P c0 k ?hi (s\<lparr>s_writer := acknowledge a (s_writer s)\<rparr>)"
    using ok by (simp add: session_ok_def)
  moreover have "transit_ok P c0 k (s\<lparr>s_writer := acknowledge a (s_writer s)\<rparr>)" using tr by (cases "s_catchup s") (simp_all add: transit_ok_def)
  ultimately show ?thesis by (auto simp only: session_inv_def)
qed

lemma writer_session_inv:
  assumes inv: "session_inv P c0 s" and w: "\<And>hi. writer_inv P c0 (s_log s) hi (s_writer s) \<Longrightarrow> writer_inv P c0 (s_log s) hi w"
  shows "session_inv P c0 (s\<lparr>s_writer := w\<rparr>)"
proof -
  obtain k hi where ok: "session_ok P c0 k hi s" and tr: "transit_ok P c0 k s"
    using inv by (auto simp: session_inv_def)
  have "session_ok P c0 k hi (s\<lparr>s_writer := w\<rparr>)" using ok w by (simp add: session_ok_def)
  moreover have "transit_ok P c0 k (s\<lparr>s_writer := w\<rparr>)" using tr by (cases "s_catchup s") (simp_all add: transit_ok_def)
  ultimately show ?thesis by (auto simp only: session_inv_def)
qed

lemma invalidate_inv: "writer_inv P c log hi w \<Longrightarrow> writer_inv P c log hi (writer_invalidate w)"
  by (simp add: writer_invalidate_def writer_inv_def writer_ok_def writer_bounded_def writer_retains_def)

lemma lose_session_inv:
  assumes inv: "session_inv P c0 s"
  shows "session_inv P c0 (s\<lparr>s_wire := take n (s_wire s), s_link := False\<rparr>)"
proof -
  obtain k hi where ok: "session_ok P c0 k hi s" and tr: "transit_ok P c0 k s"
    using inv by (auto simp: session_inv_def)
  have "transit_ok P c0 k (s\<lparr>s_wire := take n (s_wire s), s_link := False\<rparr>)"
  proof (cases "s_catchup s")
    case None
    have "in_flight P c0 k (s_log s) False (available (s_reader s) @ take n (s_wire s))" if "br_connected (s_reader s)"
      using in_flight_take [of P c0 k "s_log s" "s_link s" "available (s_reader s) @ s_wire s" "length (available (s_reader s)) + n"]
        tr that None by (simp add: transit_ok_def)
    then show ?thesis using tr None by (auto simp: transit_ok_def)
  next
    case (Some ws)
    then show ?thesis using tr in_flight_take by (fastforce simp: transit_ok_def)
  qed
  moreover have "session_ok P c0 k hi (s\<lparr>s_wire := take n (s_wire s), s_link := False\<rparr>)" using ok by (simp add: session_ok_def)
  ultimately show ?thesis by (auto simp only: session_inv_def)
qed

lemma reader_invalidate_fields [simp]:
  "br_crypto (reader_invalidate r) = br_crypto r" "br_replay (reader_invalidate r) = br_replay r"
  "br_sequence (reader_invalidate r) = br_sequence r" "\<not> br_connected (reader_invalidate r)"
  "reader_ok r \<Longrightarrow> reader_ok (reader_invalidate r)"
  by (simp_all add: reader_invalidate_def reader_ok_def)

lemma receiver_down_session_inv:
  assumes inv: "session_inv P c0 s"
  shows "session_inv P c0
    (s\<lparr>s_reader := reader_invalidate (s_reader s), s_wire := [], s_link := False, s_catchup := None\<rparr>)" (is "session_inv P c0 ?s")
proof -
  obtain k hi where ok: "session_ok P c0 k hi s" using inv by (auto simp: session_inv_def)
  then have "session_ok P c0 k hi ?s" by (simp add: session_ok_def)
  moreover have "transit_ok P c0 k ?s" by (simp add: transit_ok_def)
  ultimately show ?thesis by (auto simp only: session_inv_def)
qed

lemma recover_session_inv:
  assumes inv: "session_inv P c0 s"
  shows "session_inv P c0 (session_recover s)"
proof -
  obtain k hi where ok: "session_ok P c0 k hi s" using inv by (auto simp: session_inv_def)
  have wok: "writer_ok P c0 (s_log s) (s_writer s)" and k: "k \<le> length (s_log s)" "br_sequence (s_reader s) = int k"
    using ok by (simp_all add: session_ok_def writer_inv_def)
  show ?thesis
  proof (cases "recover (br_sequence (s_reader s)) (s_writer s)")
    case (Inl e)
    then show ?thesis using inv by (simp add: session_recover_def)
  next
    case (Inr ws)
    then have ws: "ws = drop k (sealed P c0 (s_log s))"
      using recover_ok [OF wok, of "int k"] k by (auto split: if_splits)
    let ?s = "session_recover s"
    have s': "?s = s\<lparr>s_writer := writer_invalidate (s_writer s), s_reader := reader_invalidate (s_reader s),
         s_wire := [], s_link := True, s_catchup := Some ws\<rparr>" using Inr by (simp add: session_recover_def)
    have "session_ok P c0 k hi ?s" using ok invalidate_inv by (simp add: session_ok_def s')
    moreover have "transit_ok P c0 k ?s"
      using k ws by (auto simp: transit_ok_def s' in_flight_def intro!: exI [of _ "length (s_log s)"])
    ultimately show ?thesis by (auto simp only: session_inv_def)
  qed
qed

lemma receiver_revive_session_inv:
  assumes P: "sodium_laws P" and inv: "session_inv P c0 s" and ws: "s_catchup s = Some ws"
  shows "session_inv P c0 (session_receiver_revive P ws s)"
proof -
  obtain k hi where ok: "session_ok P c0 k hi s" and tr: "transit_ok P c0 k s"
    using inv by (auto simp: session_inv_def)
  obtain m where m: "k \<le> m" "m \<le> length (s_log s)" "ws = drop k (take m (sealed P c0 (s_log s)))"
    "in_flight P c0 m (s_log s) (s_link s) (s_wire s)" using tr ws by (auto simp: transit_ok_def)
  let ?c = "sealed_state P c0 (take k (s_log s))" and ?new = "drop k (take m (s_log s))"
  have kt: "take k (take m (s_log s)) = take k (s_log s)" using m(1) by (simp add: min_def)
  have ws': "ws = sealed P ?c ?new" unfolding m(3) sealed_take sealed_drop kt ..
  have app: "take k (s_log s) @ ?new = take m (s_log s)" by (metis append_take_drop_id kt)
  have sync: "crypto_sync P ?c (br_crypto (s_reader s))" using ok by (simp add: session_ok_def)
  from revive_sealed [OF sync, of ?new, folded ws'] obtain d where
    rv: "reader_revive P ws (s_reader s) = (Inr (), (s_reader s)\<lparr>br_partial := [], br_offset := 0, br_filled := 0, br_crypto := d,
        br_replay := br_replay (s_reader s) @ map (\<lambda>(h, p). packet_raw False h p) ?new, br_sequence := br_sequence (s_reader s) + int (length ?new),
        br_data_sequence := (if \<exists>x \<in> set ?new. fst x \<noteq> KEEP_ALIVE then br_sequence (s_reader s) + int (length ?new) else br_data_sequence (s_reader s)),
        br_connected := True\<rparr>)" and d: "crypto_sync P (sealed_state P ?c ?new) d" by blast
  have st: "sealed_state P ?c ?new = sealed_state P c0 (take m (s_log s))"
    unfolding sealed_state_append [symmetric] app ..
  let ?s = "session_receiver_revive P ws s"
  have "map plain_packet (take m (s_log s)) = map plain_packet (take k (s_log s)) @ map plain_packet ?new"
    using arg_cong [OF app, of "map plain_packet"] by (simp only: map_append)
  also have "\<dots> = s_got s @ br_replay (s_reader s) @ map plain_packet ?new" using ok by (simp add: session_ok_def)
  finally have got: "s_got s @ br_replay (s_reader s) @ map plain_packet ?new = map plain_packet (take m (s_log s))" by simp
  have len: "int k + int (length ?new) = int m" using m(1,2) by simp
  have "session_ok P c0 m hi ?s"
    using ok m(1,2) d got len unfolding st
    by (simp add: session_receiver_revive_def rv session_ok_def reader_ok_def plain_packet_def)
  moreover have "transit_ok P c0 m ?s"
    using m(4) by (simp add: session_receiver_revive_def rv transit_ok_def available_def)
  ultimately show ?thesis by (auto simp only: session_inv_def)
qed

lemma session_step_inv:
  assumes "sodium_laws P" "session_inv P c0 s" "session_step P s s'"
  shows "session_inv P c0 s'"
  using assms(3)
proof cases
  case (step_write p h)
  then show ?thesis using write_session_inv [OF assms(1,2)] by simp
next
  case (step_deliver n)
  then show ?thesis using deliver_session_inv [OF assms(2)] by simp
next
  case step_pop
  then show ?thesis using pop_session_inv [OF assms(2)] by simp
next
  case (step_acknowledge a)
  then show ?thesis using acknowledge_session_inv [OF assms(2)] by simp
next
  case (step_lose n)
  then show ?thesis using lose_session_inv [OF assms(2)] by simp
next
  case step_sender_down
  have "session_inv P c0 (s\<lparr>s_writer := writer_invalidate (s_writer s)\<rparr>)"
    using writer_session_inv [OF assms(2)] invalidate_inv by simp
  from lose_session_inv [OF this, of "length (s_wire s)"] show ?thesis using step_sender_down by simp
next
  case step_receiver_down
  then show ?thesis using receiver_down_session_inv [OF assms(2)] by simp
next
  case step_recover
  then show ?thesis using recover_session_inv [OF assms(2)] by simp
next
  case step_sender_revive
  then show ?thesis using writer_session_inv [OF assms(2)] revive_inv by simp
next
  case (step_receiver_revive ws)
  then show ?thesis using receiver_revive_session_inv [OF assms(1,2)] by simp
qed

lemma session_new_inv:
  assumes "sodium_laws P"
  shows "session_inv P (crypto_new key dir) (session_new key dir n)"
proof -
  let ?s = "session_new key dir n"
  have "session_ok P (crypto_new key dir) 0 0 ?s"
    using assms new_inv reader_new_ok(2) [of n "crypto_new key dir" True]
    by (simp add: session_ok_def session_new_def) (simp add: crypto_sync_def with_max_socket_read_def reader_new_def)
  moreover have "transit_ok P (crypto_new key dir) 0 ?s"
    by (simp add: transit_ok_def session_new_def with_max_socket_read_def reader_new_def in_flight_def available_def)
  ultimately show ?thesis by (auto simp only: session_inv_def)
qed

lemma session_reach_inv:
  assumes "sodium_laws P" "(session_step P)\<^sup>*\<^sup>* (session_new key dir n) s"
  shows "session_inv P (crypto_new key dir) s"
  using assms(2) session_new_inv [OF assms(1)]
  by (induction rule: rtranclp_induct) (auto intro: session_step_inv [OF assms(1)])

lemma recover_available:
  assumes "session_inv P c0 s"
    and "sum_list (map (\<lambda>x. int (length (snd x)) + 18) (drop (nat (br_sequence (s_reader s))) (s_log s))) \<le> MAX_BACKUP_BYTES"
    and "length (s_log s) - nat (br_sequence (s_reader s)) \<le> MAX_BACKUP_PACKETS" "sodium_laws P"
  shows "recover (br_sequence (s_reader s)) (s_writer s) = Inr (drop (nat (br_sequence (s_reader s))) (sealed P c0 (s_log s)))"
proof -
  obtain k hi where ok: "session_ok P c0 k hi s" using assms(1) by (auto simp: session_inv_def)
  have wok: "writer_inv P c0 (s_log s) hi (s_writer s)" and k: "k \<le> length (s_log s)" "hi \<le> k" "br_sequence (s_reader s) = int k"
    using ok by (simp_all add: session_ok_def)
  have lens: "map (\<lambda>w. int (length w)) (sealed P c log) = map (\<lambda>x. int (length (snd x)) + 18) log" for c log
    using length_seal_packet [OF assms(4)]
    by (induction log arbitrary: c) (simp_all add: sealed_def split_beta)
  show ?thesis using retained_recover [OF wok k(2,1)] assms(2,3) k(3) by (simp add: sealed_drop lens)
qed

lemma pop_replay_all:
  assumes "br_connected (s_reader s)" "br_replay (s_reader s) = ps" "s_link s"
  shows "\<exists>s'. (session_step P)\<^sup>*\<^sup>* s s' \<and> s_got s' = s_got s @ ps \<and> s_log s' = s_log s \<and>
    br_connected (s_reader s') \<and> s_link s'"
  using assms
proof (induction ps arbitrary: s)
  case (Cons p ps)
  let ?s = "session_pop P s"
  have s': "?s = s\<lparr>s_reader := (s_reader s)\<lparr>br_replay := ps\<rparr>, s_got := s_got s @ [p]\<rparr>"
    using Cons.prems by (simp add: session_pop_def pop_def)
  obtain s'' where "(session_step P)\<^sup>*\<^sup>* ?s s''" "s_got s'' = s_got ?s @ ps" "s_log s'' = s_log ?s"
    "br_connected (s_reader s'')" "s_link s''" using Cons.IH [of ?s] Cons.prems s' by auto
  moreover have "session_step P s ?s" by (rule step_pop)
  ultimately show ?case using s' by (auto intro: converse_rtranclp_into_rtranclp)
qed auto

lemma recovery_round:
  assumes P: "sodium_laws P" and inv: "session_inv P c0 s" and i32: "br_sequence (s_reader s) \<le> i32_max"
    and rec: "recover (br_sequence (s_reader s)) (s_writer s) = Inr ws"
  shows "\<exists>s'. (session_step P)\<^sup>*\<^sup>* s s' \<and> s_got s' = map plain_packet (s_log s) \<and> s_log s' = s_log s \<and>
    br_connected (s_reader s') \<and> s_link s'"
proof -
  define s1 where "s1 = s\<lparr>s_writer := writer_invalidate (s_writer s), s_reader := reader_invalidate (s_reader s),
         s_wire := [], s_link := True, s_catchup := Some ws\<rparr>"
  have s1: "session_recover s = s1" using rec by (simp add: session_recover_def s1_def)
  have inv1: "session_inv P c0 s1" using recover_session_inv [OF inv] s1 by simp
  have cu: "s_catchup s1 = Some ws" by (simp add: s1_def)
  have inv2: "session_inv P c0 (session_receiver_revive P ws s1)" by (rule receiver_revive_session_inv [OF P inv1 cu])
  have "\<not> s_failed (session_receiver_revive P ws s1)" using inv2 by (auto simp: session_inv_def session_ok_def)
  then obtain r where rv: "reader_revive P ws (s_reader s1) = (Inr (), r)"
    by (auto simp: session_receiver_revive_def split: prod.splits sum.splits)
  define s2 where "s2 = s1\<lparr>s_reader := r, s_catchup := None\<rparr>"
  have s2: "session_receiver_revive P ws s1 = s2" by (simp add: session_receiver_revive_def rv s2_def)
  have sel: "s_got s2 = s_got s" "s_log s2 = s_log s" "s_reader s2 = r" "s_link s2" "s_wire s2 = []" "s_catchup s2 = None"
    by (simp_all add: s2_def s1_def)
  have r: "br_connected r" "available r = []"
    using rv by (auto simp: reader_revive_def Let_def available_def split: prod.splits sum.splits)
  obtain k hi where ok2: "session_ok P c0 k hi s2" and tr2: "transit_ok P c0 k s2"
    using inv2 s2 by (auto simp: session_inv_def)
  have k: "k = length (s_log s)"
  proof (cases "drop k (s_log s)")
    case Nil
    then show ?thesis using ok2 by (simp add: session_ok_def sel)
  next
    case (Cons x xs)
    have "stream_of P (sealed_state P c0 (take k (s_log s))) (drop k (s_log s)) = []"
      using tr2 r by (simp add: transit_ok_def sel in_flight_def Let_def)
    then have "length (frame_be_u32 (fst (seal_packet P (sealed_state P c0 (take k (s_log s))) x))) = 0"
      by (simp add: Cons stream_of_Cons)
    then show ?thesis by (simp add: frame_be_u32_def length_u32_to_be_bytes)
  qed
  have got: "s_got s @ br_replay r = map plain_packet (s_log s)" using ok2 k by (simp add: session_ok_def sel)
  have steps: "session_step P s s1" "session_step P s1 s2"
    using step_recover [OF i32, of P] step_receiver_revive [OF cu, of P] s1 s2 by simp_all
  obtain s' where "(session_step P)\<^sup>*\<^sup>* s2 s'" "s_got s' = s_got s2 @ br_replay r" "s_log s' = s_log s2"
    "br_connected (s_reader s')" "s_link s'" using pop_replay_all [of s2 "br_replay r" P] r sel by auto
  then show ?thesis using steps got sel
    by (intro exI [of _ s']) (auto intro: converse_rtranclp_into_rtranclp)
qed

section \<open>Properties\<close>

text \<open>A session in which the transport lost the one packet written.\<close>

definition example_session :: session where
  "example_session =
    (let s = session_write plain_primitives 4 [65] (session_new [] 0 0) in s\<lparr>s_wire := take 3 (s_wire s), s_link := False\<rparr>)"

lemma example_session_reach: "(session_step plain_primitives)\<^sup>*\<^sup>* (session_new [] 0 0) example_session"
proof -
  let ?s = "session_write plain_primitives 4 [65] (session_new [] 0 0)"
  have "session_step plain_primitives (session_new [] 0 0) ?s"
    by (rule step_write) (simp_all add: MAX_PROTO_LEN_def session_new_def writer_new_def)
  moreover have "session_step plain_primitives ?s example_session"
    unfolding example_session_def Let_def by (rule step_lose)
  ultimately show ?thesis by simp
qed

lemma example_session_facts:
  "s_log example_session = [(4, [65])]" "br_sequence (s_reader example_session) = 0" "s_got example_session = []"
proof -
  obtain out w where step: "write_packet plain_primitives 4 [65] (writer_new (crypto_new [] 0) True) = (out, w)" by fastforce
  have ok: "writer_ok plain_primitives (crypto_new [] 0) [] (writer_new (crypto_new [] 0) True)"
    using new_inv by (simp add: writer_inv_def)
  have "\<exists>f. out = Send f"
    using write_outcome [OF plain_sodium_laws ok step] by (auto simp: writer_new_def split: if_splits)
  then show "s_log example_session = [(4, [65])]" "br_sequence (s_reader example_session) = 0" "s_got example_session = []"
    using step by (auto simp: example_session_def session_write_def session_new_def Let_def with_max_socket_read_def reader_new_def)
qed





text \<open>C2: A session can always catch up: from any reachable state in which what the receiver has not
  read fits the replay cap (64 MiB, 262144 packets) and its sequence number fits the wire's 32 bits,
  one recovery leads to a connected state in which everything written so far has been handed over.\<close>

theorem recovery_delivers_everything:
  assumes "sodium_laws P" "(session_step P)\<^sup>*\<^sup>* (session_new key dir n) s"
    and "sum_list (map (\<lambda>x. int (length (snd x)) + 18) (drop (nat (br_sequence (s_reader s))) (s_log s))) \<le> MAX_BACKUP_BYTES"
    and "length (s_log s) - nat (br_sequence (s_reader s)) \<le> MAX_BACKUP_PACKETS"
    and "br_sequence (s_reader s) \<le> i32_max"
  shows "\<exists>s'. (session_step P)\<^sup>*\<^sup>* s s' \<and> s_got s' = map plain_packet (s_log s) \<and> s_log s' = s_log s \<and>
    br_connected (s_reader s') \<and> s_link s'"
  using recovery_round [OF assms(1) session_reach_inv [OF assms(1,2)] assms(5)
      recover_available [OF session_reach_inv [OF assms(1,2)] assms(3,4,1)]] .

lemma recovery_delivers_everything_witness:
  "sodium_laws plain_primitives \<and> (session_step plain_primitives)\<^sup>*\<^sup>* (session_new [] 0 0) example_session \<and>
   (\<exists>s'. (session_step plain_primitives)\<^sup>*\<^sup>* example_session s' \<and> s_got s' = [packet_raw False 4 [65]])"
proof -
  have "br_sequence (s_reader example_session) = 0" "s_log example_session = [(4, [65])]"
    using example_session_facts by simp_all
  then show ?thesis
    using recovery_delivers_everything [OF plain_sodium_laws example_session_reach] example_session_reach
    by (auto simp: writer_caps i32_max_def plain_packet_def)
qed

text \<open>C8: Recovering on a snapshot can deliver twice.  The server copies the reader for the recovery
  handshake and keeps reading the old transport meanwhile; a packet that arrives there after the
  copy is handed over by the live reader, and again by the recovered copy, whose sequence number
  made the peer send it once more.\<close>

theorem snapshot_recovery_duplicates:
  assumes "sodium_laws P" "int (length p) + 18 \<le> MAX_BACKUP_BYTES"
  shows "\<exists>w frame catchup recovered.
    write_packet P h p (writer_new c True) = (Send frame, w) \<and>
    fst (pop P (feed frame (reader_new c True))) = Inr (ReadPacket (packet_raw False h p)) \<and>
    recover (br_sequence (recovery_candidate_reader (reader_new c True))) (recovery_candidate_writer w) = Inr catchup \<and>
    reader_revive P catchup (recovery_candidate_reader (reader_new c True)) = (Inr (), recovered) \<and>
    fst (pop P recovered) = Inr (ReadPacket (packet_raw False h p))"
proof -
  obtain out w where step: "write_packet P h p (writer_new c True) = (out, w)" by fastforce
  have inv0: "writer_inv P c [] 0 (writer_new c True)" by (rule new_inv)
  have ok0: "writer_ok P c [] (writer_new c True)" using inv0 by (simp add: writer_inv_def)
  have conn: "bw_connected (writer_new c True)" by (simp add: writer_new_def)
  note o = write_outcome [OF assms(1) ok0 step, unfolded append_Nil]
  have notskip: "out \<noteq> Skipped" using o conn by auto
  let ?x = "(h, p)" and ?w = "fst (seal_packet P c (h, p))"
  have out: "out = Send (frame_be_u32 ?w)" using o conn notskip by (simp add: sealed_single)
  have inv1: "writer_inv P c [?x] 0 w" using write_inv [OF assms(1) inv0 step notskip] by simp
  have sync: "crypto_sync P c (sr_crypto ((abs_reader (reader_new c True))\<lparr>sr_pending := frame_be_u32 ?w\<rparr>))"
    using assms(1) by (simp add: crypto_sync_def abs_reader_def reader_new_def)
  have av: "available (reader_new c True) = []" by (simp add: reader_new_def available_def)
  have fd: "abs_reader (feed (frame_be_u32 ?w) (reader_new c True)) = (abs_reader (reader_new c True))\<lparr>sr_pending := frame_be_u32 ?w\<rparr>"
    using feed_abs(1) [OF reader_new_ok(1), of "frame_be_u32 ?w" c True] av by simp
  have pre: "prefix (frame_be_u32 ?w) (stream_of P c [?x])" by (simp add: stream_of_single)
  have "fst (stream_pop P ((abs_reader (reader_new c True))\<lparr>sr_pending := frame_be_u32 ?w\<rparr>)) = Inr (ReadPacket (packet_raw False h p))"
    using stream_pop_step [OF sync, of "[?x]"] pre assms(2)
    by (auto simp: abs_reader_def reader_new_def plain_packet_def MAX_PROTO_LEN_def writer_caps)
  then have live: "fst (pop P (feed (frame_be_u32 ?w) (reader_new c True))) = Inr (ReadPacket (packet_raw False h p))"
    using abs_pop [OF feed_abs(2) [OF reader_new_ok(1)], of P "frame_be_u32 ?w" c True] fd by (metis fst_map_prod id_apply)
  have inv2: "writer_inv P c [?x] 0 (recovery_candidate_writer w)"
    using invalidate_inv [OF inv1] by (simp add: recovery_candidate_writer_def)
  have rec: "recover 0 (recovery_candidate_writer w) = Inr (sealed P c [?x])"
    using retained_recover [OF inv2, of 0] assms(2) length_seal_packet [OF assms(1)]
    by (simp add: sealed_single writer_caps)
  let ?r = "recovery_candidate_reader (reader_new c True)"
  have r: "br_sequence ?r = 0" "br_replay ?r = []" "crypto_sync P c (br_crypto ?r)"
    using assms(1) by (simp_all add: recovery_candidate_reader_def) (simp_all add: reader_new_def crypto_sync_def)
  from revive_sealed [OF r(3), of "[?x]"] obtain rr where rr: "reader_revive P (sealed P c [?x]) ?r = (Inr (), rr)"
    "br_replay rr = [packet_raw False h p]" "br_connected rr" using r(2) by auto
  have "fst (pop P rr) = Inr (ReadPacket (packet_raw False h p))" using rr(2,3) by (simp add: pop_def)
  then show ?thesis using step live rec rr(1) unfolding out r(1) by blast
qed

lemma snapshot_recovery_duplicates_witness:
  "sodium_laws plain_primitives \<and> int (length [65 :: byte]) + 18 \<le> MAX_BACKUP_BYTES \<and>
   (\<exists>w frame catchup recovered.
      write_packet plain_primitives 4 [65] (writer_new (crypto_new [] 0) True) = (Send frame, w) \<and>
      fst (pop plain_primitives (feed frame (reader_new (crypto_new [] 0) True))) = fst (pop plain_primitives recovered) \<and>
      reader_revive plain_primitives catchup (recovery_candidate_reader (reader_new (crypto_new [] 0) True)) = (Inr (), recovered))"
proof -
  have small: "int (length [65 :: byte]) + 18 \<le> MAX_BACKUP_BYTES" by (simp add: writer_caps)
  from snapshot_recovery_duplicates [OF plain_sodium_laws small, of 4 "crypto_new [] 0"] show ?thesis
    using small plain_sodium_laws by metis
qed

end
