(* ===== verification/Terminal_Stream.thy ===== *)
theory Terminal_Stream
  imports Crypto
begin

text \<open>
  \<^verbatim>\<open>crates/et-core/src/output_interrupt.rs\<close>: recognising interrupt requests in client input, and
  tracking terminal output well enough to drop a backlog on Ctrl+C without cutting tmux control-mode
  messages.  The scanner's fast paths (whole-buffer searches) are modelled as the code has them;
  \<open>observe_byte\<close> is its loop body, which serves as the reference.
\<close>

section \<open>Definitions\<close>

definition FLUSH_THRESHOLD :: nat where "FLUSH_THRESHOLD = 64 * 1024"

subsection \<open>Interrupt requests\<close>

function split_ascii_whitespace :: "bytes \<Rightarrow> bytes list" where
  "split_ascii_whitespace bs =
    (let rest = dropWhile is_ascii_whitespace bs in
     if rest = [] then [] else
       takeWhile (\<lambda>b. \<not> is_ascii_whitespace b) rest #
       split_ascii_whitespace (dropWhile (\<lambda>b. \<not> is_ascii_whitespace b) rest))"
  by pat_completeness auto
termination
proof (relation "measure length")
  fix bs rest :: bytes
  assume rest: "rest = dropWhile is_ascii_whitespace bs" "rest \<noteq> []"
  then have "\<not> is_ascii_whitespace (hd rest)" by (metis hd_dropWhile)
  then have "dropWhile (\<lambda>b. \<not> is_ascii_whitespace b) rest = dropWhile (\<lambda>b. \<not> is_ascii_whitespace b) (tl rest)"
    using rest(2) by (cases rest) auto
  also have "length \<dots> \<le> length (tl rest)" by (rule length_dropWhile_le)
  also have "\<dots> < length rest" using rest(2) by (cases rest) auto
  also have "\<dots> \<le> length bs" unfolding rest(1) by (rule length_dropWhile_le)
  finally show "(dropWhile (\<lambda>b. \<not> is_ascii_whitespace b) rest, bs) \<in> measure length" by simp
qed simp

definition to_ascii_lowercase :: "byte \<Rightarrow> byte" where
  "to_ascii_lowercase b = (if 65 \<le> b \<and> b \<le> 90 then b + 32 else b)"

definition eq_ignore_ascii_case :: "bytes \<Rightarrow> bytes \<Rightarrow> bool" where
  "eq_ignore_ascii_case a b \<longleftrightarrow> map to_ascii_lowercase a = map to_ascii_lowercase b"

text \<open>\<^verbatim>\<open>u8::from_str_radix(s, 16)\<close>: an optional plus sign, then digits without overflow.\<close>

definition u8_from_hex :: "bytes \<Rightarrow> nat option" where
  "u8_from_hex s =
    (let digits = (case s of b # r \<Rightarrow> if b = 43 \<and> r \<noteq> [] then r else s | [] \<Rightarrow> s) in
     if digits = [] then None
     else fold (\<lambda>b acc. case (acc, hex_digit b) of
         (Some v, Some d) \<Rightarrow> if 16 * v + d \<le> 255 then Some (16 * v + d) else None
       | _ \<Rightarrow> None) digits (Some 0))"

definition interrupt_code :: "nat \<Rightarrow> bool" where
  "interrupt_code n \<longleftrightarrow> n = 3 \<or> n = 26 \<or> n = 28"

text \<open>The loop over the tokens after \<^verbatim>\<open>send-keys\<close>.\<close>

fun interrupt_tokens :: "bool \<Rightarrow> bool \<Rightarrow> bytes list \<Rightarrow> bool" where
  "interrupt_tokens hex literal [] = False"
| "interrupt_tokens hex literal (token # tokens) =
    (case strip_prefix [45] token of
       Some flags \<Rightarrow>
         let (hex', literal') = (if 72 \<in> set flags then (True, False)
               else if 108 \<in> set flags then (False, True) else (hex, literal))
         in if list_ex (\<lambda>f. f = 116 \<or> f = 99 \<or> f = 78) flags
            then (case tokens of [] \<Rightarrow> False | _ # rest \<Rightarrow> interrupt_tokens hex' literal' rest)
            else interrupt_tokens hex' literal' tokens
     | None \<Rightarrow>
         if literal then interrupt_tokens hex literal tokens
         else
           let number = (case strip_prefix [48, 120] token of Some n \<Rightarrow> Some n | None \<Rightarrow> strip_prefix [48, 88] token)
           in if hex \<or> number \<noteq> None
              then let n = (case number of Some n \<Rightarrow> n | None \<Rightarrow> token) in
                if 1 \<le> length n \<and> length n \<le> 2 \<and> (case u8_from_hex n of Some v \<Rightarrow> interrupt_code v | None \<Rightarrow> False)
                then True else interrupt_tokens hex literal tokens
              else if list_ex (eq_ignore_ascii_case token)
                  (map ascii [''C-c'', ''^C'', ''C-z'', ''^Z'', [CHR ''C'', CHR ''-'', CHR 0x5C], ''C-|''])
                then True else interrupt_tokens hex literal tokens)"

definition command_requests_interrupt :: "bytes \<Rightarrow> bool" where
  "command_requests_interrupt bs =
    (if \<not> valid_utf8 bs then False
     else case split_ascii_whitespace bs of
       [] \<Rightarrow> False
     | t # tokens \<Rightarrow> if t = ascii ''send-keys'' \<or> t = ascii ''send'' then interrupt_tokens False False tokens else False)"

record interrupt_input =
  ii_carry :: bytes
  ii_overlong :: bool

definition interrupt_input_default :: interrupt_input where
  "interrupt_input_default = \<lparr>ii_carry = [], ii_overlong = False\<rparr>"

definition interrupt_byte :: "byte \<Rightarrow> bool \<times> interrupt_input \<Rightarrow> bool \<times> interrupt_input" where
  "interrupt_byte b = (\<lambda>(interrupt, s).
    if b = 10 \<or> b = 13
    then (interrupt \<or> (\<not> ii_overlong s \<and> command_requests_interrupt (ii_carry s)), s\<lparr>ii_carry := [], ii_overlong := False\<rparr>)
    else if \<not> ii_overlong s
    then (interrupt, if length (ii_carry s) = 4096 then s\<lparr>ii_carry := [], ii_overlong := True\<rparr>
                     else s\<lparr>ii_carry := ii_carry s @ [b]\<rparr>)
    else (interrupt, s))"

definition interrupt_feed :: "bytes \<Rightarrow> interrupt_input \<Rightarrow> bool \<times> interrupt_input" where
  "interrupt_feed bs s =
    (let (interrupt, s') = fold interrupt_byte bs (list_ex (\<lambda>b. b = 3 \<or> b = 26 \<or> b = 28) bs, s)
     in (interrupt \<or> (\<not> ii_overlong s' \<and> command_requests_interrupt (ii_carry s')), s'))"

subsection \<open>tmux control mode\<close>

definition TMUX_DCS :: bytes where "TMUX_DCS = 27 # ascii ''P1000p''"

definition strip_dcs :: "bytes \<Rightarrow> bytes" where
  "strip_dcs token = (case strip_prefix TMUX_DCS token of Some t \<Rightarrow> t | None \<Rightarrow> token)"

definition control_tokens :: "bytes list" where
  "control_tokens = map ascii [''%begin'', ''%end'', ''%error'', ''%output'', ''%extended-output'', ''%exit'',
     ''%layout-change'', ''%window-add'', ''%window-close'', ''%window-renamed'', ''%pane-mode-changed'',
     ''%window-pane-changed'', ''%unlinked-window-add'', ''%unlinked-window-close'', ''%unlinked-window-renamed'',
     ''%session-changed'', ''%session-renamed'', ''%session-window-changed'', ''%sessions-changed'',
     ''%client-detached'', ''%client-session-changed'', ''%subscription-changed'', ''%message'',
     ''%config-error'', ''%continue'', ''%pause'', ''%paste-buffer-changed'', ''%paste-buffer-deleted'']"

definition is_tmux_control_token :: "bytes \<Rightarrow> bool" where
  "is_tmux_control_token token \<longleftrightarrow> strip_dcs token \<in> set control_tokens"

definition arms_control_mode :: "bytes \<Rightarrow> bool" where
  "arms_control_mode token \<longleftrightarrow> strip_dcs token \<noteq> ascii ''%exit'' \<and> is_tmux_control_token (strip_dcs token)"

definition line_first_token :: "bytes \<Rightarrow> bytes" where
  "line_first_token line = strip_dcs (takeWhile (\<lambda>b. \<not> is_ascii_whitespace b) line)"

record terminal_stream =
  ts_token :: bytes
  ts_token_done :: bool
  ts_midline :: bool
  ts_control :: bool
  ts_block :: bool
  ts_escape :: bool

definition terminal_stream_default :: terminal_stream where
  "terminal_stream_default = \<lparr>ts_token = [], ts_token_done = False, ts_midline = False,
     ts_control = False, ts_block = False, ts_escape = False\<rparr>"

definition token_may_be_control :: "terminal_stream \<Rightarrow> bool" where
  "token_may_be_control s =
    (if ts_token s = [] then False
     else if prefix (ts_token s) TMUX_DCS then True
     else let token = strip_dcs (ts_token s) in
       token = [37] \<or> (prefix [37] token \<and> 1 < length token \<and> is_ascii_lowercase (token ! 1)))"

definition may_contain_control :: "bytes \<Rightarrow> terminal_stream \<Rightarrow> bool" where
  "may_contain_control bs s =
    (if ts_control s \<or> (\<not> ts_token_done s \<and> token_may_be_control s) then True
     else if list_ex (\<lambda>b. b = 37 \<or> b = 27) (drop (length bs - 3) bs) then True
     else list_ex (\<lambda>i. (bs ! i = 37 \<or> bs ! i = 27) \<and>
       (if bs ! i = 37 then i + 1 < length bs \<and> is_ascii_lowercase (bs ! (i + 1))
        else i + 1 < length bs \<and> bs ! (i + 1) = 80)) [0..<length bs])"

text \<open>The body of the scanning loop.\<close>

definition observe_newline :: "terminal_stream \<Rightarrow> terminal_stream" where
  "observe_newline s =
    (let token = strip_dcs (ts_token s)
     in s\<lparr>ts_control := ts_control s \<or> arms_control_mode token,
          ts_block := (if token = ascii ''%begin'' then True
            else if token = ascii ''%end'' \<or> token = ascii ''%error'' then False else ts_block s),
          ts_token := [], ts_token_done := False, ts_midline := False\<rparr>)"

definition observe_other :: "byte \<Rightarrow> terminal_stream \<Rightarrow> terminal_stream" where
  "observe_other b s =
    (let s1 = s\<lparr>ts_midline := True\<rparr>;
         s2 = (if is_ascii_whitespace b
               then s1\<lparr>ts_control := ts_control s1 \<or> (\<not> ts_token_done s1 \<and> arms_control_mode (ts_token s1)),
                       ts_token_done := True\<rparr>
               else s1)
     in if \<not> ts_token_done s2 \<and> length (ts_token s2) < 32
        then let token = ts_token s2 @ [b] in
          if token = TMUX_DCS
          then s2\<lparr>ts_control := True, ts_token := [], ts_midline := False\<rparr>
          else s2\<lparr>ts_token := token\<rparr>
        else s2)"

definition observe_byte :: "byte \<Rightarrow> terminal_stream \<Rightarrow> terminal_stream" where
  "observe_byte b s =
    (if ts_control s \<and> \<not> ts_block s \<and> ts_escape s \<and> b = 92
     then s\<lparr>ts_control := False, ts_token := [], ts_token_done := False, ts_midline := False, ts_escape := False\<rparr>
     else let s1 = s\<lparr>ts_escape := (b = 27)\<rparr> in
       if b = 10 then observe_newline s1 else observe_other b s1)"

function observe_loop :: "bytes \<Rightarrow> terminal_stream \<Rightarrow> terminal_stream" where
  "observe_loop bs s =
    (if bs = [] then s
     else if \<not> ts_control s \<and> (ts_token_done s \<or> 32 \<le> length (ts_token s))
     then (case position (\<lambda>b. b = 10) bs of
             Some rel \<Rightarrow> observe_loop (drop (rel + 1) bs) (observe_byte (bs ! rel) s)
           | None \<Rightarrow> s\<lparr>ts_midline := True, ts_escape := (last bs = 27)\<rparr>)
     else observe_loop (tl bs) (observe_byte (hd bs) s))"
  by pat_completeness auto
termination
  by (relation "measure (\<lambda>(bs, s). length bs)") auto

definition observe :: "bytes \<Rightarrow> terminal_stream \<Rightarrow> terminal_stream" where
  "observe bs s =
    (if \<not> ts_control s \<and> (ts_token_done s \<or> \<not> token_may_be_control s) \<and> \<not> list_ex (\<lambda>b. b = 37 \<or> b = 27) bs
     then case rposition (\<lambda>b. b = 10) bs of
         Some last_nl \<Rightarrow>
           observe_loop (drop (last_nl + 1) bs)
             (s\<lparr>ts_token := [], ts_token_done := False, ts_midline := False, ts_escape := False\<rparr>)
       | None \<Rightarrow>
           if ts_token_done s \<or> 32 \<le> length (ts_token s)
           then (if bs \<noteq> [] then s\<lparr>ts_midline := True, ts_escape := False\<rparr> else s)
           else observe_loop bs s
     else observe_loop bs s)"

subsection \<open>Filtering a backlog\<close>

record filtered_output =
  fo_kept :: bytes
  fo_dropped :: nat
  fo_skip_until_newline :: bool
  fo_droppable :: bytes

text \<open>The loop that finishes a control-mode line whose beginning was sent: kept bytes, the scanner
  after them, and what is left.\<close>

function finish_sent :: "bytes \<Rightarrow> terminal_stream \<Rightarrow> bytes \<Rightarrow> bytes \<times> terminal_stream \<times> bytes" where
  "finish_sent rest st kept =
    (if rest \<noteq> [] \<and> hd rest \<noteq> 37 \<and> hd rest \<noteq> 10
     then (case position (\<lambda>b. b = 10) rest of
             None \<Rightarrow> finish_sent [] (observe rest st) (kept @ rest)
           | Some nl \<Rightarrow> finish_sent (drop (nl + 1) rest) (observe (take (nl + 1) rest) st) (kept @ take (nl + 1) rest))
     else (kept, st, rest))"
  by pat_completeness auto
termination
  by (relation "measure (\<lambda>(rest, st, kept). length rest)") auto

definition keep_line :: "terminal_stream \<Rightarrow> bytes \<Rightarrow> bool" where
  "keep_line st line =
    (let token = line_first_token line;
         pane = (token = ascii ''%output'' \<or> token = ascii ''%extended-output'');
         control_token = (is_tmux_control_token token \<or> (ts_control st \<and> prefix [37] token));
         dcs_terminator = (ts_control st \<and> \<not> ts_block st \<and>
           (prefix [27, 92] token \<or> (ts_escape st \<and> prefix [92] line)))
     in ts_block st \<or> (ts_control st \<and> ts_midline st) \<or> (control_token \<and> \<not> pane) \<or> dcs_terminator \<or>
        (ts_control st \<and> token = []))"

definition pane_line :: "bytes \<Rightarrow> bool" where
  "pane_line line \<longleftrightarrow> line_first_token line = ascii ''%output'' \<or> line_first_token line = ascii ''%extended-output''"

fun partition_lines :: "bool \<Rightarrow> bytes list \<Rightarrow> terminal_stream \<Rightarrow> bytes \<Rightarrow> bytes \<Rightarrow> bool \<Rightarrow> bytes \<times> bytes \<times> bool" where
  "partition_lines retain [] st kept droppable skip = (kept, droppable, skip)"
| "partition_lines retain (line # lines) st kept droppable skip =
    (if keep_line st line
     then partition_lines retain lines (observe line st) (kept @ line) droppable skip
     else partition_lines retain lines (observe line st) kept
       (if retain then droppable @ line else droppable) (skip \<or> (pane_line line \<and> \<not> suffix [10] line)))"

definition partition_output :: "bytes \<Rightarrow> bool \<Rightarrow> terminal_stream \<Rightarrow> filtered_output" where
  "partition_output bs retain s =
    (let (kept0, st, rest) = (if ts_control s \<and> ts_midline s \<and> bs \<noteq> [] \<and> hd bs \<noteq> 37 \<and> hd bs \<noteq> 10
           then finish_sent bs s [] else ([], s, bs));
         (kept, droppable, skip) = partition_lines retain (split_inclusive (\<lambda>b. b = 10) rest) st kept0 [] False
     in \<lparr>fo_kept = kept, fo_dropped = length bs - length kept, fo_skip_until_newline = skip, fo_droppable = droppable\<rparr>)"

definition filter_output :: "bytes \<Rightarrow> terminal_stream \<Rightarrow> filtered_output" where
  "filter_output bs s = partition_output bs False s"

text \<open>How far the backlog consists of complete lines outside response blocks.\<close>

fun complete_prefix :: "bytes list \<Rightarrow> terminal_stream \<Rightarrow> nat \<Rightarrow> nat \<Rightarrow> nat" where
  "complete_prefix [] st off complete = complete"
| "complete_prefix (line # lines) st off complete =
    (let st' = observe line st; off' = off + length line
     in complete_prefix lines st' off' (if suffix [10] line \<and> \<not> ts_block st' then off' else complete))"

definition promote_control :: "bytes \<Rightarrow> terminal_stream \<Rightarrow> bytes option" where
  "promote_control bs s =
    (if \<not> ts_control s \<and> \<not> list_ex (\<lambda>line. is_tmux_control_token (line_first_token line)) (split_on (\<lambda>b. b = 10) bs)
     then None
     else let complete = complete_prefix (split_inclusive (\<lambda>b. b = 10) bs) s 0 0;
              result = partition_output (take complete bs) True s
       in if fo_kept result = [] \<or> fo_droppable result = [] then None
          else Some (fo_kept result @ fo_droppable result @ drop complete bs))"

section \<open>The scanner against its reference\<close>

text \<open>The invariant of the scanner, and the states it cannot tell apart: once 32 bytes of a token
  are collected it does not matter whether its end was seen.\<close>

definition stream_ok :: "terminal_stream \<Rightarrow> bool" where
  "stream_ok s \<longleftrightarrow> \<not> prefix TMUX_DCS (ts_token s) \<and>
     (ts_token_done s \<and> \<not> ts_control s \<longrightarrow> \<not> arms_control_mode (ts_token s)) \<and> (ts_block s \<longrightarrow> ts_control s)"

definition sat :: "terminal_stream \<Rightarrow> terminal_stream" where
  "sat s = s\<lparr>ts_token_done := ts_token_done s \<or> 32 \<le> length (ts_token s)\<rparr>"

lemma control_tokens_shape:
  "t \<in> set control_tokens \<Longrightarrow> prefix [37] t \<and> 1 < length t \<and> length t < 25 \<and> is_ascii_lowercase (t ! 1)"
  by (auto simp: control_tokens_def ascii_def is_ascii_lowercase_def)

lemma TMUX_DCS_bytes: "TMUX_DCS = [27, 80, 49, 48, 48, 48, 112]"
  by (simp add: TMUX_DCS_def ascii_def)

lemma strip_dcs_id [simp]: "\<not> prefix TMUX_DCS t \<Longrightarrow> strip_dcs t = t"
  by (simp add: strip_dcs_def strip_prefix_None [symmetric])

lemma control_token_no_dcs: "t \<in> set control_tokens \<Longrightarrow> \<not> prefix TMUX_DCS t"
  using control_tokens_shape [of t] by (cases t) (auto simp: TMUX_DCS_bytes)

lemma arms_iff:
  assumes "\<not> prefix TMUX_DCS t"
  shows "arms_control_mode t \<longleftrightarrow> t \<noteq> ascii ''%exit'' \<and> t \<in> set control_tokens"
  using assms by (simp add: arms_control_mode_def is_tmux_control_token_def)

lemma arms_short: "arms_control_mode t \<Longrightarrow> \<not> prefix TMUX_DCS t \<Longrightarrow> length t < 25"
  using control_tokens_shape by (simp add: arms_iff)

lemma prefix_snocD: "prefix xs (ys @ [y]) \<Longrightarrow> xs = ys @ [y] \<or> prefix xs ys"
  by simp

lemma block_tokens_arm:
  "arms_control_mode (ascii ''%begin'')" "arms_control_mode (ascii ''%end'')" "arms_control_mode (ascii ''%error'')"
proof -
  have "ascii ''%begin'' \<in> set control_tokens" "ascii ''%end'' \<in> set control_tokens" "ascii ''%error'' \<in> set control_tokens"
    by (simp_all add: control_tokens_def)
  then show "arms_control_mode (ascii ''%begin'')" "arms_control_mode (ascii ''%end'')" "arms_control_mode (ascii ''%error'')"
    using control_token_no_dcs by (simp_all add: arms_iff) (simp_all add: ascii_def)
qed

lemma observe_newline_ok: "stream_ok s \<Longrightarrow> stream_ok (observe_newline s)"
  using block_tokens_arm by (auto simp: stream_ok_def observe_newline_def Let_def TMUX_DCS_def)

lemma observe_other_ok: "stream_ok s \<Longrightarrow> stream_ok (observe_other b s)"
  by (auto simp: stream_ok_def observe_other_def Let_def TMUX_DCS_def dest: prefix_snocD)

lemma stream_ok_escape [simp]: "stream_ok (s\<lparr>ts_escape := e\<rparr>) = stream_ok s" "stream_ok (s\<lparr>ts_midline := m\<rparr>) = stream_ok s"
  by (simp_all add: stream_ok_def)

lemma observe_byte_ok:
  assumes "stream_ok s"
  shows "stream_ok (observe_byte b s)"
proof (cases "ts_control s \<and> \<not> ts_block s \<and> ts_escape s \<and> b = 92")
  case True
  then show ?thesis using assms by (simp add: observe_byte_def stream_ok_def TMUX_DCS_def)
next
  case False
  then have "observe_byte b s = (if b = 10 then observe_newline (s\<lparr>ts_escape := (b = 27)\<rparr>) else observe_other b (s\<lparr>ts_escape := (b = 27)\<rparr>))"
    by (auto simp: observe_byte_def Let_def)
  then show ?thesis using assms observe_newline_ok observe_other_ok by simp
qed

lemma observe_bytes_ok: "stream_ok s \<Longrightarrow> stream_ok (fold observe_byte bs s)"
  by (induction bs arbitrary: s) (simp_all add: observe_byte_ok)

lemma stream_ok_sat: "stream_ok (sat s) = stream_ok s"
  using arms_short [of "ts_token s"] by (auto simp: stream_ok_def sat_def)

lemma sat_idem [simp]: "sat (sat s) = sat s"
  by (simp add: sat_def)

lemma sat_observe_byte:
  assumes "stream_ok s"
  shows "sat (observe_byte b (sat s)) = sat (observe_byte b s)"
proof -
  have "\<not> arms_control_mode (ts_token s)" if "32 \<le> length (ts_token s)"
    using assms arms_short [of "ts_token s"] that by (auto simp: stream_ok_def)
  then show ?thesis
    by (cases "32 \<le> length (ts_token s)")
      (simp_all add: sat_def observe_byte_def observe_newline_def observe_other_def Let_def)
qed

lemma sat_fold:
  assumes "stream_ok s" "stream_ok s'" "sat s = sat s'"
  shows "sat (fold observe_byte bs s) = sat (fold observe_byte bs s')"
  using assms
proof (induction bs arbitrary: s s')
  case (Cons b bs)
  have "sat (observe_byte b s) = sat (observe_byte b s')"
    using sat_observe_byte [OF Cons.prems(1), of b] sat_observe_byte [OF Cons.prems(2), of b] Cons.prems(3) by simp
  then show ?case using Cons.IH observe_byte_ok Cons.prems(1,2) by simp
qed simp

lemma skip_byte:
  assumes "stream_ok s" "\<not> ts_control s" "ts_token_done s \<or> 32 \<le> length (ts_token s)" "b \<noteq> 10"
  shows "sat (observe_byte b s) = sat (s\<lparr>ts_midline := True, ts_escape := (b = 27)\<rparr>)"
proof -
  have "\<not> (\<not> ts_token_done s \<and> arms_control_mode (ts_token s))"
    using assms(1,3) arms_short [of "ts_token s"] by (auto simp: stream_ok_def)
  then show ?thesis using assms(2-4)
    by (auto simp: sat_def observe_byte_def observe_other_def Let_def)
qed

lemma skip_bytes:
  assumes "stream_ok s" "\<not> ts_control s" "ts_token_done s \<or> 32 \<le> length (ts_token s)" "\<forall>b \<in> set bs. b \<noteq> 10" "bs \<noteq> []"
  shows "sat (fold observe_byte bs s) = sat (s\<lparr>ts_midline := True, ts_escape := (last bs = 27)\<rparr>)"
  using assms
proof (induction bs arbitrary: s)
  case (Cons b bs)
  let ?t = "s\<lparr>ts_midline := True, ts_escape := (b = 27)\<rparr>"
  have b: "sat (observe_byte b s) = sat ?t" using Cons.prems by (intro skip_byte) auto
  have t: "stream_ok ?t" using Cons.prems(1) by simp
  have "sat (fold observe_byte bs (observe_byte b s)) = sat (fold observe_byte bs ?t)"
    using sat_fold [OF observe_byte_ok [OF Cons.prems(1)] t b] .
  also have "\<dots> = sat (s\<lparr>ts_midline := True, ts_escape := (last (b # bs) = 27)\<rparr>)"
  proof (cases "bs = []")
    case False
    then show ?thesis using Cons.IH [OF t] Cons.prems by simp
  qed simp
  finally show ?case by simp
qed simp

lemma observe_newline_forgets:
  assumes "\<not> ts_control s"
  shows "observe_byte 10 (s\<lparr>ts_midline := m, ts_escape := e\<rparr>) = observe_byte 10 s"
  using assms by (simp add: observe_byte_def observe_newline_def Let_def)

lemma skip_to_newline:
  assumes "stream_ok s" "\<not> ts_control s" "ts_token_done s \<or> 32 \<le> length (ts_token s)" "\<forall>b \<in> set ys. b \<noteq> 10"
  shows "sat (fold observe_byte (ys @ [10]) s) = sat (observe_byte 10 s)"
proof (cases "ys = []")
  case False
  let ?t = "s\<lparr>ts_midline := True, ts_escape := (last ys = 27)\<rparr>"
  have "sat (fold observe_byte [10] (fold observe_byte ys s)) = sat (fold observe_byte [10] ?t)"
    using assms(1) skip_bytes [OF assms False] by (intro sat_fold observe_bytes_ok) simp_all
  also have "\<dots> = sat (observe_byte 10 s)" using observe_newline_forgets [OF assms(2)] by simp
  finally show ?thesis by simp
qed simp

declare observe_loop.simps [simp del] finish_sent.simps [simp del] split_ascii_whitespace.simps [simp del]

lemma observe_loop_eq: "stream_ok s \<Longrightarrow> sat (observe_loop bs s) = sat (fold observe_byte bs s)"
proof (induction bs s rule: observe_loop.induct)
  case (1 bs s)
  consider "bs = []" | "bs \<noteq> []" "\<not> ts_control s" "ts_token_done s \<or> 32 \<le> length (ts_token s)"
    | "bs \<noteq> []" "\<not> (\<not> ts_control s \<and> (ts_token_done s \<or> 32 \<le> length (ts_token s)))" by blast
  then show ?case
  proof cases
    case 1
    then show ?thesis by (simp add: observe_loop.simps)
  next
    case 2
    show ?thesis
    proof (cases "position (\<lambda>b. b = 10) bs")
      case None
      then have "\<forall>b \<in> set bs. b \<noteq> 10" by (simp add: position_None)
      then show ?thesis using 2 None skip_bytes [OF "1.prems" 2(2,3) _ 2(1)] by (simp add: observe_loop.simps [of bs])
    next
      case (Some rel)
      then obtain ys zs where bs: "bs = ys @ 10 # zs" "length ys = rel" "\<forall>y \<in> set ys. y \<noteq> 10"
        by (auto simp: position_split)
      have at: "bs ! rel = 10" "drop (rel + 1) bs = zs" using bs by (simp_all add: nth_append)
      have "sat (observe_loop bs s) = sat (observe_loop zs (observe_byte 10 s))"
        using 2 Some at by (simp add: observe_loop.simps [of bs])
      also have "\<dots> = sat (fold observe_byte zs (observe_byte 10 s))"
        using "1.IH"(1) [OF 2(1) conjI [OF 2(2,3)] Some] at observe_byte_ok [OF "1.prems"] by simp
      also have "\<dots> = sat (fold observe_byte zs (fold observe_byte (ys @ [10]) s))"
        using skip_to_newline [OF "1.prems" 2(2,3) bs(3)] "1.prems" by (intro sat_fold observe_byte_ok observe_bytes_ok) simp_all
      finally show ?thesis by (simp add: bs(1))
    qed
  next
    case 3
    then have "sat (observe_loop bs s) = sat (observe_loop (tl bs) (observe_byte (hd bs) s))"
      by (auto simp: observe_loop.simps [of bs])
    also have "\<dots> = sat (fold observe_byte (tl bs) (observe_byte (hd bs) s))"
      using "1.IH"(2) [OF 3] observe_byte_ok [OF "1.prems"] by blast
    finally show ?thesis using 3(1) by (cases bs) simp_all
  qed
qed

text \<open>A calm state: outside control mode, with a first token that cannot become a control token.\<close>

definition calm :: "terminal_stream \<Rightarrow> bool" where
  "calm s \<longleftrightarrow> stream_ok s \<and> \<not> ts_control s \<and> (ts_token_done s \<or> \<not> token_may_be_control s)"

lemma arms_may_be_control: "arms_control_mode (ts_token s) \<Longrightarrow> stream_ok s \<Longrightarrow> token_may_be_control s"
  using control_tokens_shape [of "ts_token s"]
  by (auto simp: stream_ok_def arms_iff token_may_be_control_def Let_def)

lemma calm_not_armed: "calm s \<Longrightarrow> \<not> arms_control_mode (ts_token s)"
  using arms_may_be_control by (auto simp: calm_def stream_ok_def)

lemma calm_newline:
  assumes "calm s"
  shows "observe_byte 10 s = s\<lparr>ts_token := [], ts_token_done := False, ts_midline := False, ts_escape := False\<rparr>"
proof -
  have n: "\<not> arms_control_mode (ts_token s)" using assms by (rule calm_not_armed)
  then have "ts_token s \<noteq> ascii ''%begin''" "ts_token s \<noteq> ascii ''%end''" "ts_token s \<noteq> ascii ''%error''"
    using block_tokens_arm by metis+
  with n show ?thesis using assms
    by (simp add: observe_byte_def observe_newline_def calm_def stream_ok_def)
qed

lemma calm_reset:
  assumes "calm s"
  shows "calm (s\<lparr>ts_token := [], ts_token_done := d, ts_midline := m, ts_escape := e\<rparr>)"
proof -
  have "\<not> arms_control_mode []"
    using control_tokens_shape [of "[]"] by (auto simp: arms_iff TMUX_DCS_bytes)
  then show ?thesis using assms
    by (auto simp: calm_def stream_ok_def TMUX_DCS_bytes token_may_be_control_def)
qed

lemma not_may_snoc:
  assumes "\<not> token_may_be_control s" "ts_token s \<noteq> []" "\<not> prefix TMUX_DCS (ts_token s)"
  shows "ts_token s @ [b] \<noteq> TMUX_DCS" "\<not> token_may_be_control (s\<lparr>ts_token := ts_token s @ [b], ts_midline := m, ts_escape := e\<rparr>)"
proof -
  have np: "\<not> prefix (ts_token s) TMUX_DCS"
    using assms(1,2) by (auto simp: token_may_be_control_def)
  then show ne: "ts_token s @ [b] \<noteq> TMUX_DCS" by (metis prefixI)
  have "\<not> prefix TMUX_DCS (ts_token s @ [b])" using ne assms(3) by auto
  moreover have "\<not> prefix (ts_token s @ [b]) TMUX_DCS" using np append_prefixD by blast
  moreover have "\<not> (prefix [37] (ts_token s) \<and> is_ascii_lowercase ((ts_token s @ [b]) ! 1) \<or> ts_token s = [37])"
    using assms np by (cases "ts_token s") (auto simp: token_may_be_control_def Let_def nth_append)
  ultimately show "\<not> token_may_be_control (s\<lparr>ts_token := ts_token s @ [b], ts_midline := m, ts_escape := e\<rparr>)"
    using assms(2) by (cases "ts_token s") (auto simp: token_may_be_control_def Let_def)
qed

text \<open>Plain bytes in a calm state: a byte that could start a control token is fine when a token is
  already under way.\<close>

lemma calm_space:
  assumes "calm s" "is_ascii_whitespace b" "b \<noteq> 10"
  shows "calm (observe_byte b s)" "ts_block (observe_byte b s) = ts_block s"
  using assms calm_not_armed [OF assms(1)]
  by (auto simp: observe_byte_def observe_other_def Let_def calm_def stream_ok_def)

lemma calm_full:
  assumes "calm s" "ts_token_done s \<or> 32 \<le> length (ts_token s)" "b \<noteq> 10" "\<not> is_ascii_whitespace b"
  shows "calm (observe_byte b s)" "ts_block (observe_byte b s) = ts_block s"
  using assms by (auto simp: observe_byte_def observe_other_def Let_def calm_def token_may_be_control_def)

lemma push_byte:
  assumes "\<not> ts_control s" "\<not> ts_token_done s" "length (ts_token s) < 32" "b \<noteq> 10" "\<not> is_ascii_whitespace b"
    "ts_token s @ [b] \<noteq> TMUX_DCS"
  shows "observe_byte b s = s\<lparr>ts_token := ts_token s @ [b], ts_midline := True, ts_escape := (b = 27)\<rparr>"
  using assms by (simp add: observe_byte_def observe_other_def Let_def)

lemma calm_push:
  assumes "calm s" "\<not> ts_token_done s" "length (ts_token s) < 32" "b \<noteq> 10" "\<not> is_ascii_whitespace b"
    "ts_token s = [] \<Longrightarrow> b \<noteq> 37 \<and> b \<noteq> 27"
  shows "calm (observe_byte b s) \<and> ts_block (observe_byte b s) = ts_block s"
proof -
  have c: "\<not> token_may_be_control s" "\<not> ts_control s" "\<not> prefix TMUX_DCS (ts_token s)" "stream_ok s"
    using assms(1,2) by (auto simp: calm_def stream_ok_def)
  let ?s = "s\<lparr>ts_token := ts_token s @ [b], ts_midline := True, ts_escape := (b = 27)\<rparr>"
  have n: "ts_token s @ [b] \<noteq> TMUX_DCS \<and> \<not> token_may_be_control ?s"
  proof (cases "ts_token s = []")
    case True
    then show ?thesis using assms(6) by (auto simp: token_may_be_control_def TMUX_DCS_bytes Let_def)
  next
    case False
    then show ?thesis using not_may_snoc [OF c(1) False c(3)] by blast
  qed
  then have "observe_byte b s = ?s" using assms c(2) by (intro push_byte) auto
  then show ?thesis using n c observe_byte_ok [OF c(4), of b] by (simp add: calm_def)
qed

lemma calm_byte:
  assumes "calm s" "ts_token s = [] \<and> \<not> ts_token_done s \<Longrightarrow> b \<noteq> 37 \<and> b \<noteq> 27"
  shows "calm (observe_byte b s) \<and> ts_block (observe_byte b s) = ts_block s"
proof -
  consider "b = 10" | "b \<noteq> 10" "is_ascii_whitespace b"
    | "b \<noteq> 10" "\<not> is_ascii_whitespace b" "ts_token_done s \<or> 32 \<le> length (ts_token s)"
    | "b \<noteq> 10" "\<not> is_ascii_whitespace b" "\<not> ts_token_done s" "length (ts_token s) < 32" by linarith
  then show ?thesis
  proof cases
    case 1
    then show ?thesis using calm_newline [OF assms(1)] calm_reset [OF assms(1)] by simp
  next
    case 2
    then show ?thesis using calm_space [OF assms(1)] by blast
  next
    case 3
    then show ?thesis using calm_full [OF assms(1)] by blast
  next
    case 4
    then show ?thesis using calm_push [OF assms(1) 4(3,4,1,2)] assms(2) by blast
  qed
qed

lemma calm_bytes:
  assumes "calm s" "\<not> list_ex (\<lambda>b. b = 37 \<or> b = 27) bs"
  shows "calm (fold observe_byte bs s) \<and> ts_block (fold observe_byte bs s) = ts_block s"
  using assms
proof (induction bs arbitrary: s)
  case (Cons b bs)
  then have "calm (observe_byte b s) \<and> ts_block (observe_byte b s) = ts_block s"
    by (intro calm_byte) auto
  then show ?case using Cons.IH [of "observe_byte b s"] Cons.prems by simp
qed simp

lemma calm_through_newline:
  assumes "calm s" "\<not> list_ex (\<lambda>b. b = 37 \<or> b = 27) ys"
  shows "fold observe_byte (ys @ [10]) s = s\<lparr>ts_token := [], ts_token_done := False, ts_midline := False, ts_escape := False\<rparr>"
proof -
  let ?t = "fold observe_byte ys s"
  have t: "calm ?t" "ts_block ?t = ts_block s" using calm_bytes [OF assms] by auto
  then have "\<not> ts_control ?t" "\<not> ts_control s" using assms(1) by (auto simp: calm_def)
  then show ?thesis using calm_newline [OF t(1)] t(2) by simp
qed

lemma observe_eq:
  assumes "stream_ok s"
  shows "sat (observe bs s) = sat (fold observe_byte bs s)"
proof (cases "\<not> ts_control s \<and> (ts_token_done s \<or> \<not> token_may_be_control s) \<and> \<not> list_ex (\<lambda>b. b = 37 \<or> b = 27) bs")
  case True
  then have calm: "calm s" using assms by (simp add: calm_def)
  show ?thesis
  proof (cases "rposition (\<lambda>b. b = 10) bs")
    case None
    have no: "\<forall>b \<in> set bs. b \<noteq> 10" using None by (simp add: rposition_None)
    have last: "bs \<noteq> [] \<Longrightarrow> last bs \<noteq> 27" using True by (auto simp: list_ex_iff)
    show ?thesis using True None observe_loop_eq [OF assms, of bs] skip_bytes [OF assms _ _ no] last
      by (cases "bs = []") (auto simp: observe_def)
  next
    case (Some i)
    then obtain ys zs where bs: "bs = ys @ 10 # zs" "length ys = i" by (auto dest: rposition_split)
    let ?t = "s\<lparr>ts_token := [], ts_token_done := False, ts_midline := False, ts_escape := False\<rparr>"
    have ys: "\<not> list_ex (\<lambda>b. b = 37 \<or> b = 27) ys" using True bs(1) by simp
    have "stream_ok ?t" using calm_reset [OF calm] by (simp add: calm_def)
    then have "sat (observe_loop zs ?t) = sat (fold observe_byte zs ?t)" by (rule observe_loop_eq)
    also have "fold observe_byte zs ?t = fold observe_byte bs s"
      using calm_through_newline [OF calm ys] bs(1) by simp
    finally show ?thesis using True Some bs by (simp add: observe_def)
  qed
next
  case False
  then have "observe bs s = observe_loop bs s" unfolding observe_def by (rule if_not_P)
  then show ?thesis using observe_loop_eq [OF assms] by simp
qed

lemma observe_ok: "stream_ok s \<Longrightarrow> stream_ok (observe bs s)"
  using observe_eq [of s bs] observe_bytes_ok [of s bs] stream_ok_sat by metis

lemma stream_ok_default: "stream_ok terminal_stream_default"
  by (simp add: stream_ok_def terminal_stream_default_def TMUX_DCS_bytes)

section \<open>Output that cannot hold control traffic\<close>

text \<open>What \<open>may_contain_control\<close> rules out, as adjacent bytes, and the states a scan of such output
  goes through.\<close>

fun no_control_pairs :: "bytes \<Rightarrow> bool" where
  "no_control_pairs [] = True"
| "no_control_pairs [b] = (b \<noteq> 37 \<and> b \<noteq> 27)"
| "no_control_pairs (b # c # bs) =
    (\<not> (b = 37 \<and> is_ascii_lowercase c) \<and> \<not> (b = 27 \<and> c = 80) \<and> no_control_pairs (c # bs))"

lemma no_control_pairs_nth:
  assumes "\<forall>i < length bs. (bs ! i = 37 \<longrightarrow> i + 1 < length bs \<and> \<not> is_ascii_lowercase (bs ! (i + 1))) \<and>
     (bs ! i = 27 \<longrightarrow> i + 1 < length bs \<and> bs ! (i + 1) \<noteq> 80)"
  shows "no_control_pairs bs"
  using assms
proof (induction bs rule: no_control_pairs.induct)
  case (3 b c bs)
  from 3(2) [rule_format, of 0] have "\<not> (b = 37 \<and> is_ascii_lowercase c) \<and> \<not> (b = 27 \<and> c = 80)" by auto
  moreover have "no_control_pairs (c # bs)" using 3(2) [rule_format, of "Suc i" for i] by (intro 3(1)) simp
  ultimately show ?case by simp
qed simp_all

lemma may_contain_control_pairs:
  assumes "\<not> may_contain_control bs s"
  shows "no_control_pairs bs"
proof (rule no_control_pairs_nth, intro allI impI)
  fix i assume i: "i < length bs"
  have tail: "bs ! j \<noteq> 37 \<and> bs ! j \<noteq> 27" if "j < length bs" "length bs - 3 \<le> j" for j
  proof -
    have "bs ! j = drop (length bs - 3) bs ! (j - (length bs - 3))" using that by simp
    then have "bs ! j \<in> set (drop (length bs - 3) bs)" using that by (metis diff_less_mono length_drop nth_mem)
    then show ?thesis using assms by (auto simp: may_contain_control_def list_ex_iff split: if_splits)
  qed
  have "\<not> ((bs ! i = 37 \<or> bs ! i = 27) \<and>
       (if bs ! i = 37 then i + 1 < length bs \<and> is_ascii_lowercase (bs ! (i + 1))
        else i + 1 < length bs \<and> bs ! (i + 1) = 80))"
    using assms i by (auto simp: may_contain_control_def list_ex_iff split: if_splits)
  moreover have "bs ! i = 37 \<or> bs ! i = 27 \<Longrightarrow> i + 1 < length bs" using tail [OF i] i by linarith
  ultimately show "(bs ! i = 37 \<longrightarrow> i + 1 < length bs \<and> \<not> is_ascii_lowercase (bs ! (i + 1))) \<and>
     (bs ! i = 27 \<longrightarrow> i + 1 < length bs \<and> bs ! (i + 1) \<noteq> 80)"
    by auto
qed

definition harmless :: "bytes \<Rightarrow> terminal_stream \<Rightarrow> bool" where
  "harmless bs s \<longleftrightarrow> calm s \<or>
     (stream_ok s \<and> \<not> ts_control s \<and> \<not> ts_token_done s \<and> bs \<noteq> [] \<and>
      (ts_token s = [37] \<and> \<not> is_ascii_lowercase (hd bs) \<or> ts_token s = [27] \<and> hd bs \<noteq> 80))"

lemma single_not_armed: "\<not> arms_control_mode [b]"
  using control_tokens_shape [of "[b]"] by (auto simp: arms_iff TMUX_DCS_bytes)

lemma harmless_step:
  assumes "harmless (b # bs) s" "no_control_pairs (b # bs)"
  shows "harmless bs (observe_byte b s) \<and> ts_block (observe_byte b s) = ts_block s"
proof -
  consider "calm s" "ts_token s = [] \<and> \<not> ts_token_done s \<Longrightarrow> b \<noteq> 37 \<and> b \<noteq> 27"
    | "calm s" "ts_token s = []" "\<not> ts_token_done s" "b = 37 \<or> b = 27"
    | "stream_ok s" "\<not> ts_control s" "\<not> ts_token_done s" "ts_token s = [37]" "\<not> is_ascii_lowercase b"
    | "stream_ok s" "\<not> ts_control s" "\<not> ts_token_done s" "ts_token s = [27]" "b \<noteq> 80"
    using assms(1) unfolding harmless_def by auto
  then show ?thesis
  proof cases
    case 1
    then show ?thesis using calm_byte [of s b] by (auto simp: harmless_def)
  next
    case 2
    then have "observe_byte b s = s\<lparr>ts_token := [b], ts_midline := True, ts_escape := (b = 27)\<rparr>"
      using push_byte [of s b] by (auto simp: calm_def is_ascii_whitespace_def TMUX_DCS_bytes)
    moreover have "stream_ok s" using 2(1) by (simp add: calm_def)
    moreover have "bs \<noteq> []" using assms(2) 2(4) by auto
    ultimately show ?thesis using 2 observe_byte_ok [of s b] assms(2)
      by (cases bs) (auto simp: harmless_def calm_def)
  next
    case 3
    then show ?thesis using observe_byte_ok [OF 3(1), of b] single_not_armed [of 37]
      by (auto simp: harmless_def calm_def observe_byte_def observe_newline_def observe_other_def Let_def
          stream_ok_def token_may_be_control_def TMUX_DCS_bytes ascii_def)
  next
    case 4
    then show ?thesis using observe_byte_ok [OF 4(1), of b] single_not_armed [of 27]
      by (auto simp: harmless_def calm_def observe_byte_def observe_newline_def observe_other_def Let_def
          stream_ok_def token_may_be_control_def TMUX_DCS_bytes ascii_def)
  qed
qed

lemma harmless_bytes:
  assumes "harmless bs s" "no_control_pairs bs"
  shows "calm (fold observe_byte bs s) \<and> ts_block (fold observe_byte bs s) = ts_block s"
  using assms
proof (induction bs arbitrary: s)
  case Nil
  then show ?case by (simp add: harmless_def)
next
  case (Cons b bs)
  have "no_control_pairs bs" using Cons.prems(2) by (cases bs) simp_all
  then show ?case using Cons.IH harmless_step [OF Cons.prems] by simp
qed

section \<open>Filtering\<close>

lemma finish_sent_split:
  "finish_sent rest st kept = (kept', st', rest') \<Longrightarrow> \<exists>p. rest = p @ rest' \<and> kept' = kept @ p"
proof (induction rest st kept arbitrary: kept' st' rest' rule: finish_sent.induct)
  case (1 rest st kept)
  show ?case
  proof (cases "rest \<noteq> [] \<and> hd rest \<noteq> 37 \<and> hd rest \<noteq> 10")
    case go: True
    show ?thesis
    proof (cases "position (\<lambda>b. b = 10) rest")
      case None
      then have "finish_sent [] (observe rest st) (kept @ rest) = (kept', st', rest')"
        using go "1.prems" by (simp add: finish_sent.simps [of rest])
      then show ?thesis using "1.IH"(1) [OF go None] by auto
    next
      case (Some nl)
      then have "finish_sent (drop (nl + 1) rest) (observe (take (nl + 1) rest) st) (kept @ take (nl + 1) rest) = (kept', st', rest')"
        using go "1.prems" by (simp add: finish_sent.simps [of rest])
      then obtain p where "drop (nl + 1) rest = p @ rest'" "kept' = (kept @ take (nl + 1) rest) @ p"
        using "1.IH"(2) [OF go Some] by blast
      then show ?thesis by (metis append.assoc append_take_drop_id)
    qed
  next
    case False
    then have "finish_sent rest st kept = (kept, st, rest)"
      by (subst finish_sent.simps) (rule if_not_P)
    then show ?thesis using "1.prems" by simp
  qed
qed

text \<open>Lines are kept or dropped whole, and every control message other than pane output is kept.\<close>

lemma partition_lines_spec:
  assumes "partition_lines retain lines st kept droppable skip = (kept', droppable', skip')"
  shows "\<exists>ls ds. subseq ls lines \<and> kept' = kept @ concat ls \<and> subseq ds lines \<and>
    droppable' = droppable @ concat (if retain then ds else []) \<and>
    mset (concat ls) + mset (concat ds) = mset (concat lines) \<and>
    (\<forall>l \<in> set lines. is_tmux_control_token (line_first_token l) \<and> \<not> pane_line l \<longrightarrow> l \<in> set ls)"
  using assms
proof (induction retain lines st kept droppable skip rule: partition_lines.induct)
  case (1 retain st kept droppable skip)
  then show ?case by (intro exI [of _ "[]"]) auto
next
  case (2 retain line lines st kept droppable skip)
  show ?case
  proof (cases "keep_line st line")
    case True
    then obtain ls ds where "subseq ls lines" "kept' = (kept @ line) @ concat ls" "subseq ds lines"
      "droppable' = droppable @ concat (if retain then ds else [])" "mset (concat ls) + mset (concat ds) = mset (concat lines)"
      "\<forall>l \<in> set lines. is_tmux_control_token (line_first_token l) \<and> \<not> pane_line l \<longrightarrow> l \<in> set ls"
      using "2.IH"(1) "2.prems" by auto
    then show ?thesis by (intro exI [of _ "line # ls"] exI [of _ ds]) auto
  next
    case False
    then obtain ls ds where "subseq ls lines" "kept' = kept @ concat ls" "subseq ds lines"
      "droppable' = (if retain then droppable @ line else droppable) @ concat (if retain then ds else [])"
      "mset (concat ls) + mset (concat ds) = mset (concat lines)"
      "\<forall>l \<in> set lines. is_tmux_control_token (line_first_token l) \<and> \<not> pane_line l \<longrightarrow> l \<in> set ls"
      using "2.IH"(2) "2.prems" by auto
    moreover have "\<not> (is_tmux_control_token (line_first_token line) \<and> \<not> pane_line line)"
      using False by (auto simp: keep_line_def Let_def pane_line_def)
    ultimately show ?thesis by (intro exI [of _ ls] exI [of _ "line # ds"]) auto
  qed
qed

lemma subseq_concat: "subseq ls ms \<Longrightarrow> subseq (concat ls) (concat ms)"
proof (induction ls ms rule: list_emb.induct)
  case (list_emb_Cons xs ys y)
  then show ?case by (metis concat.simps(2) list_emb_append2)
next
  case (list_emb_Cons2 x y xs ys)
  then show ?case by (simp add: list_emb_append_mono)
qed simp

lemma partition_output_spec:
  obtains pre rest ls ds where "bs = pre @ rest" "fo_kept (partition_output bs retain s) = pre @ concat ls"
    "subseq ls (split_inclusive (\<lambda>b. b = 10) rest)" "subseq ds (split_inclusive (\<lambda>b. b = 10) rest)"
    "fo_droppable (partition_output bs retain s) = concat (if retain then ds else [])"
    "mset (concat ls) + mset (concat ds) = mset rest"
    "\<forall>l \<in> set (split_inclusive (\<lambda>b. b = 10) rest). is_tmux_control_token (line_first_token l) \<and> \<not> pane_line l \<longrightarrow> l \<in> set ls"
    "fo_dropped (partition_output bs retain s) = length bs - length (pre @ concat ls)"
proof -
  obtain kept0 st rest where first: "(if ts_control s \<and> ts_midline s \<and> bs \<noteq> [] \<and> hd bs \<noteq> 37 \<and> hd bs \<noteq> 10
      then finish_sent bs s [] else ([], s, bs)) = (kept0, st, rest)" using prod_cases3 by blast
  obtain kept droppable skip where lines:
    "partition_lines retain (split_inclusive (\<lambda>b. b = 10) rest) st kept0 [] False = (kept, droppable, skip)" using prod_cases3 by blast
  have "bs = kept0 @ rest" using first finish_sent_split [of bs s "[]" kept0 st rest] by (auto split: if_splits)
  then show ?thesis using that partition_lines_spec [OF lines] first lines
    by (auto simp: partition_output_def)
qed

lemma complete_prefix_le:
  "complete \<le> off \<Longrightarrow> complete_prefix lines st off complete \<le> off + length (concat lines)"
  by (induction lines st off complete rule: complete_prefix.induct) (fastforce simp: Let_def)+

section \<open>Interrupt requests\<close>

lemma interrupt_byte_flag:
  "interrupt_byte b (i, s) = (i \<or> fst (interrupt_byte b (False, s)), snd (interrupt_byte b (False, s)))"
  by (simp add: interrupt_byte_def)

lemma interrupt_bytes_flag:
  "fold interrupt_byte bs (i, s) = (i \<or> fst (fold interrupt_byte bs (False, s)), snd (fold interrupt_byte bs (False, s)))"
proof (induction bs arbitrary: i s)
  case (Cons b bs)
  let ?r = "interrupt_byte b (False, s)"
  have "fold interrupt_byte bs (interrupt_byte b (i, s)) = fold interrupt_byte bs (i \<or> fst ?r, snd ?r)"
    by (subst interrupt_byte_flag) simp
  also have "\<dots> = (i \<or> fst (fold interrupt_byte bs (fst ?r, snd ?r)), snd (fold interrupt_byte bs (fst ?r, snd ?r)))"
    using Cons [of "i \<or> fst ?r" "snd ?r"] Cons [of "fst ?r" "snd ?r"] by simp
  finally show ?case by simp
qed simp

lemma interrupt_feed_state: "snd (interrupt_feed bs s) = snd (fold interrupt_byte bs (False, s))"
  using interrupt_bytes_flag [of bs "list_ex (\<lambda>b. b = 3 \<or> b = 26 \<or> b = 28) bs" s]
  by (simp add: interrupt_feed_def split_beta)

lemma interrupt_feed_append_state: "snd (interrupt_feed (a @ b) s) = snd (interrupt_feed b (snd (interrupt_feed a s)))"
proof -
  have "fold interrupt_byte b (fold interrupt_byte a (False, s)) =
      (fst (fold interrupt_byte a (False, s)) \<or> fst (fold interrupt_byte b (False, snd (fold interrupt_byte a (False, s)))),
       snd (fold interrupt_byte b (False, snd (fold interrupt_byte a (False, s)))))"
    using interrupt_bytes_flag [of b "fst (fold interrupt_byte a (False, s))" "snd (fold interrupt_byte a (False, s))"] by simp
  then show ?thesis by (simp add: interrupt_feed_state)
qed

lemma interrupt_feed_flag:
  "fst (interrupt_feed bs s) \<longleftrightarrow> list_ex (\<lambda>b. b = 3 \<or> b = 26 \<or> b = 28) bs \<or> fst (fold interrupt_byte bs (False, s)) \<or>
     (\<not> ii_overlong (snd (interrupt_feed bs s)) \<and> command_requests_interrupt (ii_carry (snd (interrupt_feed bs s))))"
  using interrupt_bytes_flag [of bs "list_ex (\<lambda>b. b = 3 \<or> b = 26 \<or> b = 28) bs" s]
  unfolding interrupt_feed_state by (simp add: interrupt_feed_def split_beta)

lemma interrupt_carry_bounded:
  assumes "length (ii_carry s) \<le> 4096"
  shows "length (ii_carry (snd (fold interrupt_byte bs (i, s)))) \<le> 4096"
  using assms by (induction bs arbitrary: i s) (auto simp: interrupt_byte_def)

section \<open>Properties\<close>

text \<open>C9: The scanner's shortcuts are invisible: skipping to the last newline of output without control
  bytes, and skipping the rest of a line whose first token is settled, lead to the state of the
  byte-by-byte scan.  States are compared up to the end flag of a token of 32 bytes or more, which
  nothing depends on.\<close>

theorem observe_equals_bytewise:
  assumes "stream_ok s"
  shows "sat (observe bs s) = sat (fold observe_byte bs s)"
  using assms by (rule observe_eq)

theorem observe_equals_bytewise_witness:
  "sat (observe (ascii ''%begin 1'') terminal_stream_default) = sat (fold observe_byte (ascii ''%begin 1'') terminal_stream_default)"
  by (rule observe_equals_bytewise [OF stream_ok_default])

text \<open>How output is cut into packets does not matter to the scanner: scanning two pieces in turn
  gives the state of scanning their concatenation, from every state scanning can reach.\<close>

theorem observe_chunks:
  assumes "stream_ok s"
  shows "sat (observe b (observe a s)) = sat (observe (a @ b) s) \<and> stream_ok (observe a s)"
proof -
  have ok: "stream_ok (observe a s)" using assms by (rule observe_ok)
  have "sat (observe b (observe a s)) = sat (fold observe_byte b (observe a s))" by (rule observe_eq [OF ok])
  also have "\<dots> = sat (fold observe_byte b (fold observe_byte a s))"
    by (rule sat_fold [OF ok observe_bytes_ok [OF assms] observe_eq [OF assms]])
  finally show ?thesis using observe_eq [OF assms, of "a @ b"] ok by simp
qed

theorem observe_chunks_witness:
  "sat (observe (ascii ''gin'') (observe (ascii ''%be'') terminal_stream_default)) =
   sat (observe (ascii ''%be'' @ ascii ''gin'') terminal_stream_default) \<and> stream_ok (observe (ascii ''%be'') terminal_stream_default)"
  by (rule observe_chunks [OF stream_ok_default])

text \<open>C10: Output that \<^verbatim>\<open>may_contain_control\<close> clears really is plain: scanning it neither enters control
  mode nor changes the response-block flag, and no control token is pending after it.\<close>

theorem cleared_output_is_plain:
  assumes "stream_ok s" "\<not> may_contain_control bs s"
  shows "\<not> ts_control (observe bs s) \<and> ts_block (observe bs s) = ts_block s \<and>
    (ts_token_done (sat (observe bs s)) \<or> \<not> token_may_be_control (observe bs s))"
proof -
  let ?t = "fold observe_byte bs s"
  have "calm s" using assms by (auto simp: calm_def may_contain_control_def split: if_splits)
  then have t: "calm ?t" "ts_block ?t = ts_block s"
    using harmless_bytes [OF _ may_contain_control_pairs [OF assms(2)], of s] by (auto simp: harmless_def)
  have eq: "sat (observe bs s) = sat ?t" by (rule observe_eq [OF assms(1)])
  have fields: "ts_control (observe bs s) = ts_control ?t" "ts_block (observe bs s) = ts_block ?t" "ts_token (observe bs s) = ts_token ?t"
    using arg_cong [OF eq, of ts_control] arg_cong [OF eq, of ts_block] arg_cong [OF eq, of ts_token] by (simp_all add: sat_def)
  show ?thesis using t fields eq by (auto simp: calm_def token_may_be_control_def sat_def)
qed

theorem cleared_output_is_plain_witness:
  "\<not> may_contain_control (ascii ''100% of it'') terminal_stream_default \<and>
   \<not> ts_control (observe (ascii ''100% of it'') terminal_stream_default) \<and>
   ts_block (observe (ascii ''100% of it'') terminal_stream_default) = ts_block terminal_stream_default"
proof -
  have "\<not> may_contain_control (ascii ''100% of it'') terminal_stream_default" by code_simp
  with cleared_output_is_plain [OF stream_ok_default this] show ?thesis by blast
qed




text \<open>Interrupt recognition: the carried command line never exceeds 4096 bytes, the carried state does
  not depend on how the input is cut into packets, and cutting it never loses a request.\<close>

theorem interrupt_chunks:
  assumes "length (ii_carry s) \<le> 4096"
  shows "length (ii_carry (snd (interrupt_feed a s))) \<le> 4096 \<and>
    snd (interrupt_feed (a @ b) s) = snd (interrupt_feed b (snd (interrupt_feed a s))) \<and>
    fst (interrupt_feed (a @ b) s) \<le> (fst (interrupt_feed a s) \<or> fst (interrupt_feed b (snd (interrupt_feed a s))))"
proof (intro conjI)
  show "length (ii_carry (snd (interrupt_feed a s))) \<le> 4096"
    unfolding interrupt_feed_state by (rule interrupt_carry_bounded [OF assms])
  show state: "snd (interrupt_feed (a @ b) s) = snd (interrupt_feed b (snd (interrupt_feed a s)))"
    by (rule interrupt_feed_append_state)
  have "fst (fold interrupt_byte (a @ b) (False, s)) \<longleftrightarrow>
      fst (fold interrupt_byte a (False, s)) \<or> fst (fold interrupt_byte b (False, snd (interrupt_feed a s)))"
    using interrupt_bytes_flag [of b "fst (fold interrupt_byte a (False, s))" "snd (fold interrupt_byte a (False, s))"]
    by (simp add: interrupt_feed_state)
  then show "fst (interrupt_feed (a @ b) s) \<le> (fst (interrupt_feed a s) \<or> fst (interrupt_feed b (snd (interrupt_feed a s))))"
    unfolding interrupt_feed_flag [of "a @ b"] interrupt_feed_flag [of a] interrupt_feed_flag [of b] state by auto
qed

theorem interrupt_chunks_witness:
  "length (ii_carry (snd (interrupt_feed (ascii ''send-keys C'') interrupt_input_default))) \<le> 4096 \<and>
    snd (interrupt_feed (ascii ''send-keys C'' @ ascii ''-c'') interrupt_input_default) =
      snd (interrupt_feed (ascii ''-c'') (snd (interrupt_feed (ascii ''send-keys C'') interrupt_input_default))) \<and>
    fst (interrupt_feed (ascii ''send-keys C'' @ ascii ''-c'') interrupt_input_default) \<le>
      (fst (interrupt_feed (ascii ''send-keys C'') interrupt_input_default) \<or>
       fst (interrupt_feed (ascii ''-c'') (snd (interrupt_feed (ascii ''send-keys C'') interrupt_input_default))))"
  by (rule interrupt_chunks) (simp add: interrupt_input_default_def)

end
