(* ===== verification/Output_Queue.thy ===== *)
theory Output_Queue
  imports Terminal_Buffer Terminal_Stream
begin

text \<open>
  \<^verbatim>\<open>crates/et-core/src/flow_control.rs\<close>: the bounded output queue of a session, with a lane for terminal
  output and a lane for everything else.  The generated protobuf code of \<^verbatim>\<open>TerminalBuffer\<close> is the
  parameter \<open>K\<close>; byte counts are naturals, and that no subtraction truncates is part of the invariant.
\<close>

section \<open>Definitions\<close>

record terminal_message =
  tm_buffer :: "bytes option"
  tm_is_stderr :: "bool option"

record codec =
  tb_decode :: "bytes \<Rightarrow> terminal_message option"
  tb_encode :: "terminal_message \<Rightarrow> bytes"

definition TERMINAL_BUFFER :: byte where "TERMINAL_BUFFER = 1"

definition FRAME_BYTES :: nat where "FRAME_BYTES = 4"

definition MAX_PACKETS_PER_LANE :: nat where "MAX_PACKETS_PER_LANE = 4096"

definition COALESCED_TERMINAL_BYTES :: nat where "COALESCED_TERMINAL_BYTES = 16 * 1024"

datatype flow_control_mode = Backpressure | Discard

datatype queue_push_error = Full packet | Oversized packet

datatype output_lane = TerminalLane | ControlLane

record output_queue =
  oq_mode :: flow_control_mode
  oq_limit :: nat
  oq_terminal_bytes :: nat
  oq_control_bytes :: nat
  oq_terminal_packets :: nat
  oq_control_packets :: nat
  oq_terminal :: "packet list"
  oq_control :: "packet list"
  oq_prefer_terminal :: bool
  oq_stream :: terminal_stream
  oq_before_take :: "terminal_stream option"
  oq_skip_until_newline :: bool
  oq_promotion_pending :: bool

definition queue_new :: "flow_control_mode \<Rightarrow> nat \<Rightarrow> output_queue" where
  "queue_new mode limit =
    \<lparr>oq_mode = mode, oq_limit = limit, oq_terminal_bytes = 0, oq_control_bytes = 0,
     oq_terminal_packets = 0, oq_control_packets = 0, oq_terminal = [], oq_control = [],
     oq_prefer_terminal = True, oq_stream = terminal_stream_default, oq_before_take = None,
     oq_skip_until_newline = False, oq_promotion_pending = False\<rparr>"

definition is_terminal_output :: "packet \<Rightarrow> bool" where
  "is_terminal_output p \<longleftrightarrow> pkt_header p = TERMINAL_BUFFER"

definition packet_cost :: "packet \<Rightarrow> nat" where
  "packet_cost p = usize_saturating_add (wire_len p) FRAME_BYTES"

text \<open>The binary search for how much of an oversized packet's end fits.\<close>

definition suffix_message :: "bytes \<Rightarrow> bool option \<Rightarrow> nat \<Rightarrow> terminal_message" where
  "suffix_message bs stderr n = \<lparr>tm_buffer = Some (drop (length bs - n) bs), tm_is_stderr = stderr\<rparr>"

definition suffix_fits :: "codec \<Rightarrow> bytes \<Rightarrow> bool option \<Rightarrow> nat \<Rightarrow> nat \<Rightarrow> bool" where
  "suffix_fits K bs stderr limit n \<longleftrightarrow>
     usize_saturating_add (length (tb_encode K (suffix_message bs stderr n))) (HEADER_LEN + FRAME_BYTES) \<le> limit"

function truncate_search :: "(nat \<Rightarrow> bool) \<Rightarrow> nat \<Rightarrow> nat \<Rightarrow> nat" where
  "truncate_search fits low high =
    (if low < high
     then let middle = low + (high - low + 1) div 2
       in if fits middle then truncate_search fits middle high else truncate_search fits low (middle - 1)
     else low)"
  by pat_completeness auto
termination
  by (relation "measure (\<lambda>(fits, low, high). high - low)") auto

definition truncate_terminal :: "codec \<Rightarrow> packet \<Rightarrow> nat \<Rightarrow> packet + packet" where
  "truncate_terminal K p limit =
    (case tb_decode K (pkt_payload p) of
       None \<Rightarrow> Inl p
     | Some m \<Rightarrow> (case tm_buffer m of
         None \<Rightarrow> Inl p
       | Some bs \<Rightarrow>
           let low = truncate_search (suffix_fits K bs (tm_is_stderr m) limit) 0 (length bs)
           in Inr (packet_new (pkt_header p) (tb_encode K (suffix_message bs (tm_is_stderr m) low)))))"

definition skip_through_newline :: "codec \<Rightarrow> packet \<Rightarrow> output_queue \<Rightarrow> packet option \<times> output_queue" where
  "skip_through_newline K p q =
    (if \<not> oq_skip_until_newline q then (Some p, q)
     else case tb_decode K (pkt_payload p) of
       None \<Rightarrow> (Some p, q)
     | Some m \<Rightarrow> (case tm_buffer m of
         None \<Rightarrow> (Some p, q)
       | Some bs \<Rightarrow> (case position (\<lambda>b. b = 10) bs of
           None \<Rightarrow> (None, q)
         | Some newline \<Rightarrow>
             let q' = q\<lparr>oq_skip_until_newline := False\<rparr>; bs' = drop (newline + 1) bs
             in if bs' = [] then (None, q')
                else (Some (packet_new (pkt_header p) (tb_encode K (m\<lparr>tm_buffer := Some bs'\<rparr>))), q'))))"

definition packet_may_contain_control :: "codec \<Rightarrow> packet \<Rightarrow> terminal_stream \<Rightarrow> bool" where
  "packet_may_contain_control K p stream =
    (case decode_terminal_buffer (pkt_payload p) of
       Some (bs, _) \<Rightarrow> may_contain_control bs stream
     | None \<Rightarrow> (case tb_decode K (pkt_payload p) of
         Some m \<Rightarrow> may_contain_control (case tm_buffer m of Some bs \<Rightarrow> bs | None \<Rightarrow> []) stream
       | None \<Rightarrow> True))"

definition merge_back :: "packet \<Rightarrow> output_queue \<Rightarrow> output_queue option" where
  "merge_back p q =
    (if oq_terminal q = [] then None
     else case decode_terminal_buffer (pkt_payload p) of
       None \<Rightarrow> None
     | Some (bs, is_stderr) \<Rightarrow>
         let back = last (oq_terminal q); before = packet_cost back;
             (ok, back') = append_terminal_buffer back bs is_stderr COALESCED_TERMINAL_BYTES
         in if ok
            then Some (q\<lparr>oq_terminal := butlast (oq_terminal q) @ [back'],
                          oq_terminal_bytes := oq_terminal_bytes q - before + packet_cost back'\<rparr>)
            else None)"

definition append_terminal :: "codec \<Rightarrow> packet \<Rightarrow> output_queue \<Rightarrow> output_queue" where
  "append_terminal K p q =
    (let q1 = (if packet_may_contain_control K p (oq_stream q) then q\<lparr>oq_promotion_pending := True\<rparr> else q)
     in case merge_back p q1 of
       Some q2 \<Rightarrow> q2
     | None \<Rightarrow> q1\<lparr>oq_terminal_bytes := oq_terminal_bytes q1 + packet_cost p,
                  oq_terminal_packets := oq_terminal_packets q1 + 1,
                  oq_terminal := oq_terminal q1 @ [p]\<rparr>)"

definition terminal_over :: "nat \<Rightarrow> output_queue \<Rightarrow> bool" where
  "terminal_over wanted q \<longleftrightarrow>
     oq_limit q < usize_saturating_add (oq_terminal_bytes q) wanted \<or> MAX_PACKETS_PER_LANE \<le> oq_terminal_packets q"

function evict :: "nat \<Rightarrow> output_queue \<Rightarrow> bool \<times> output_queue" where
  "evict wanted q =
    (if terminal_over wanted q
     then (case oq_terminal q of
             [] \<Rightarrow> (False, q)
           | removed # rest \<Rightarrow>
               evict wanted (q\<lparr>oq_terminal := rest,
                 oq_terminal_bytes := oq_terminal_bytes q - packet_cost removed,
                 oq_terminal_packets := oq_terminal_packets q - 1\<rparr>))
     else (True, q))"
  by pat_completeness auto
termination
  by (relation "measure (\<lambda>(wanted, q). length (oq_terminal q))") auto

definition fit_terminal :: "codec \<Rightarrow> packet \<Rightarrow> output_queue \<Rightarrow> queue_push_error + packet" where
  "fit_terminal K p q =
    (if oq_limit q < packet_cost p
     then if oq_mode q = Backpressure then Inl (Oversized p)
       else (case truncate_terminal K p (oq_limit q) of Inl p' \<Rightarrow> Inl (Oversized p') | Inr p' \<Rightarrow> Inr p')
     else Inr p)"

definition push_terminal :: "codec \<Rightarrow> packet \<Rightarrow> output_queue \<Rightarrow> (queue_push_error + unit) \<times> output_queue" where
  "push_terminal K p0 q0 =
    (case skip_through_newline K p0 q0 of
       (None, q) \<Rightarrow> (Inr (), q)
     | (Some p1, q) \<Rightarrow> (case fit_terminal K p1 q of
         Inl e \<Rightarrow> (Inl e, q)
       | Inr p \<Rightarrow>
           let wanted = packet_cost p
           in if oq_mode q = Backpressure \<and> terminal_over wanted q then (Inl (Full p), q)
              else (case evict wanted q of
                      (False, q') \<Rightarrow> (Inl (Full p), q')
                    | (True, q') \<Rightarrow> (Inr (), append_terminal K p q'))))"

definition push_control :: "packet \<Rightarrow> output_queue \<Rightarrow> (queue_push_error + unit) \<times> output_queue" where
  "push_control p q =
    (let wanted = packet_cost p in
     if oq_limit q < wanted then (Inl (Oversized p), q)
     else if oq_limit q < usize_saturating_add (oq_control_bytes q) wanted \<or> MAX_PACKETS_PER_LANE \<le> oq_control_packets q
     then (Inl (Full p), q)
     else (Inr (), q\<lparr>oq_control_bytes := oq_control_bytes q + wanted,
                     oq_control_packets := oq_control_packets q + 1, oq_control := oq_control q @ [p]\<rparr>))"

definition push :: "codec \<Rightarrow> packet \<Rightarrow> output_queue \<Rightarrow> (queue_push_error + unit) \<times> output_queue" where
  "push K p q = (if is_terminal_output p then push_terminal K p q else push_control p q)"

text \<open>The bodies of the queued terminal packets: all bytes, and each packet's length and stream flag.\<close>

fun lane_bodies :: "codec \<Rightarrow> packet list \<Rightarrow> (bytes \<times> nat list \<times> bool option list) option" where
  "lane_bodies K [] = Some ([], [], [])"
| "lane_bodies K (p # ps) =
    (case tb_decode K (pkt_payload p) of
       None \<Rightarrow> None
     | Some m \<Rightarrow> (case tm_buffer m of
         None \<Rightarrow> None
       | Some body \<Rightarrow> (case lane_bodies K ps of
           None \<Rightarrow> None
         | Some (bs, lens, flags) \<Rightarrow> Some (body @ bs, length body # lens, tm_is_stderr m # flags))))"

fun promote_packets :: "codec \<Rightarrow> packet list \<Rightarrow> nat list \<Rightarrow> bool option list \<Rightarrow> bytes \<Rightarrow> nat \<Rightarrow> packet list \<times> nat" where
  "promote_packets K (p # ps) (len # lens) flags remaining tb =
    (let p' = packet_new (pkt_header p)
           (tb_encode K \<lparr>tm_buffer = Some (take len remaining), tm_is_stderr = (case flags of f # _ \<Rightarrow> f | [] \<Rightarrow> None)\<rparr>);
         (ps', tb') = promote_packets K ps lens (tl flags) (drop len remaining) (tb - packet_cost p + packet_cost p')
     in (p' # ps', tb'))"
| "promote_packets K ps lens flags remaining tb = (ps, tb)"

definition promote_terminal_control :: "codec \<Rightarrow> output_queue \<Rightarrow> output_queue" where
  "promote_terminal_control K q =
    (if \<not> oq_promotion_pending q \<or> oq_terminal_bytes q < FLUSH_THRESHOLD then q
     else let q1 = q\<lparr>oq_promotion_pending := False\<rparr>
       in case lane_bodies K (oq_terminal q1) of
         None \<Rightarrow> q1
       | Some (bs, lens, flags) \<Rightarrow> (case promote_control bs (oq_stream q1) of
           None \<Rightarrow> q1
         | Some promoted \<Rightarrow>
             let (ps, tb) = promote_packets K (oq_terminal q1) lens flags promoted (oq_terminal_bytes q1)
             in q1\<lparr>oq_terminal := ps, oq_terminal_bytes := tb\<rparr>))"

definition observe_packet :: "codec \<Rightarrow> packet \<Rightarrow> terminal_stream \<Rightarrow> terminal_stream" where
  "observe_packet K p stream =
    (case decode_terminal_buffer (pkt_payload p) of
       Some (bs, _) \<Rightarrow> observe bs stream
     | None \<Rightarrow> (case tb_decode K (pkt_payload p) of
         Some m \<Rightarrow> observe (case tm_buffer m of Some bs \<Rightarrow> bs | None \<Rightarrow> []) stream
       | None \<Rightarrow> stream))"

definition pop_lane :: "output_queue \<Rightarrow> (packet \<times> output_queue) option" where
  "pop_lane q =
    (if oq_prefer_terminal q
     then (case oq_terminal q of
             p # ps \<Rightarrow> Some (p, q\<lparr>oq_terminal := ps\<rparr>)
           | [] \<Rightarrow> (case oq_control q of p # ps \<Rightarrow> Some (p, q\<lparr>oq_control := ps\<rparr>) | [] \<Rightarrow> None))
     else (case oq_control q of
             p # ps \<Rightarrow> Some (p, q\<lparr>oq_control := ps\<rparr>)
           | [] \<Rightarrow> (case oq_terminal q of p # ps \<Rightarrow> Some (p, q\<lparr>oq_terminal := ps\<rparr>) | [] \<Rightarrow> None)))"

definition take_packet :: "codec \<Rightarrow> output_queue \<Rightarrow> packet option \<times> output_queue" where
  "take_packet K q0 =
    (let q = promote_terminal_control K q0 in
     case pop_lane q of
       None \<Rightarrow> (None, q)
     | Some (p, q1) \<Rightarrow>
         let q2 = q1\<lparr>oq_prefer_terminal := \<not> oq_prefer_terminal q1\<rparr>
         in (Some p, if is_terminal_output p
                     then q2\<lparr>oq_before_take := Some (oq_stream q2), oq_stream := observe_packet K p (oq_stream q2)\<rparr>
                     else q2))"

definition take_control :: "output_queue \<Rightarrow> packet option \<times> output_queue" where
  "take_control q =
    (case oq_control q of [] \<Rightarrow> (None, q) | p # ps \<Rightarrow> (Some p, q\<lparr>oq_control := ps, oq_prefer_terminal := True\<rparr>))"

definition complete :: "packet \<Rightarrow> output_queue \<Rightarrow> output_queue" where
  "complete p q =
    (if is_terminal_output p
     then q\<lparr>oq_terminal_bytes := oq_terminal_bytes q - packet_cost p, oq_terminal_packets := oq_terminal_packets q - 1\<rparr>
     else q\<lparr>oq_control_bytes := oq_control_bytes q - packet_cost p, oq_control_packets := oq_control_packets q - 1\<rparr>)"

definition restore_front :: "packet \<Rightarrow> output_queue \<Rightarrow> output_queue" where
  "restore_front p q =
    (if is_terminal_output p
     then let q1 = (case oq_before_take q of Some stream \<Rightarrow> q\<lparr>oq_before_take := None, oq_stream := stream\<rparr> | None \<Rightarrow> q)
       in q1\<lparr>oq_terminal := p # oq_terminal q1\<rparr>
     else q\<lparr>oq_control := p # oq_control q\<rparr>)"

definition queue_pop :: "codec \<Rightarrow> output_queue \<Rightarrow> packet option \<times> output_queue" where
  "queue_pop K q = (case take_packet K q of (None, q') \<Rightarrow> (None, q') | (Some p, q') \<Rightarrow> (Some p, complete p q'))"

definition can_accept_terminal :: "nat \<Rightarrow> output_queue \<Rightarrow> bool" where
  "can_accept_terminal payload_bytes q =
    (let wanted = usize_saturating_add payload_bytes (HEADER_LEN + FRAME_BYTES) in
     case oq_mode q of
       Backpressure \<Rightarrow> oq_terminal_packets q < MAX_PACKETS_PER_LANE \<and>
         usize_saturating_add (oq_terminal_bytes q) wanted \<le> oq_limit q
     | Discard \<Rightarrow> wanted \<le> oq_limit q)"

definition can_resume :: "output_lane \<Rightarrow> nat \<Rightarrow> output_queue \<Rightarrow> bool" where
  "can_resume lane free_bytes q =
    (if lane = TerminalLane \<and> oq_mode q = Discard then free_bytes \<le> oq_limit q
     else let (bs, packets) = (case lane of
             TerminalLane \<Rightarrow> (oq_terminal_bytes q, oq_terminal_packets q)
           | ControlLane \<Rightarrow> (oq_control_bytes q, oq_control_packets q))
       in packets \<le> MAX_PACKETS_PER_LANE div 2 \<and> usize_saturating_add bs free_bytes \<le> oq_limit q)"

definition queue_is_empty :: "output_queue \<Rightarrow> bool" where
  "queue_is_empty q \<longleftrightarrow> oq_terminal q = [] \<and> oq_control q = []"

definition queue_bytes :: "output_queue \<Rightarrow> nat" where
  "queue_bytes q = oq_terminal_bytes q + oq_control_bytes q"

text \<open>The loop of \<open>filter_terminal\<close> over the packets: what is kept is laid out in them again.\<close>

fun retain_packets ::
  "codec \<Rightarrow> nat list \<Rightarrow> packet list \<Rightarrow> bool option list \<Rightarrow> bytes \<Rightarrow> nat \<times> nat \<Rightarrow> packet list \<times> nat \<times> nat" where
  "retain_packets K (len # lens) (p # ps) flags remaining (tb, tp) =
    (let tb1 = tb - packet_cost p; tp1 = tp - 1; cnt = min (length remaining) len
     in if cnt = 0 then retain_packets K lens ps (tl flags) remaining (tb1, tp1)
        else let p' = packet_new (pkt_header p)
                   (tb_encode K \<lparr>tm_buffer = Some (take cnt remaining), tm_is_stderr = (case flags of f # _ \<Rightarrow> f | [] \<Rightarrow> None)\<rparr>);
                 (retained, counts) = retain_packets K lens ps (tl flags) (drop cnt remaining) (tb1 + packet_cost p', tp1 + 1)
             in (p' # retained, counts))"
| "retain_packets K lens ps flags remaining counts = ([], counts)"

definition filter_terminal :: "codec \<Rightarrow> nat \<Rightarrow> output_queue \<Rightarrow> nat \<times> output_queue" where
  "filter_terminal K threshold q =
    (case lane_bodies K (oq_terminal q) of
       None \<Rightarrow> (0, q)
     | Some (bs, lens, flags) \<Rightarrow>
         if bs = [] \<or> length bs < threshold then (0, q)
         else let result = filter_output bs (oq_stream q);
                  (retained, tb, tp) = retain_packets K lens (oq_terminal q) flags (fo_kept result)
                    (oq_terminal_bytes q, oq_terminal_packets q)
              in (fo_dropped result,
                  q\<lparr>oq_skip_until_newline := oq_skip_until_newline q \<or> fo_skip_until_newline result,
                    oq_terminal := retained, oq_terminal_bytes := tb, oq_terminal_packets := tp\<rparr>))"

definition flush_terminal_on_interrupt :: "codec \<Rightarrow> output_queue \<Rightarrow> nat \<times> output_queue" where
  "flush_terminal_on_interrupt K q = filter_terminal K FLUSH_THRESHOLD q"

definition drain_packet :: "codec \<Rightarrow> packet \<Rightarrow> output_queue \<Rightarrow> output_queue" where
  "drain_packet K p q =
    (case skip_through_newline K p q of (Some p', q') \<Rightarrow> append_terminal K p' q' | (None, q') \<Rightarrow> q')"

definition discard_drained_terminal :: "codec \<Rightarrow> packet list \<Rightarrow> output_queue \<Rightarrow> nat \<times> output_queue" where
  "discard_drained_terminal K drained q =
    (if drained = [] then (0, q) else filter_terminal K 0 (fold (drain_packet K) drained q))"

definition set_limit :: "nat \<Rightarrow> output_queue \<Rightarrow> output_queue" where
  "set_limit limit q = q\<lparr>oq_limit := limit\<rparr>"

section \<open>Accounting\<close>

text \<open>The counters cover the queued packets and those in flight: taken by the writer and neither
  completed nor restored yet.\<close>

definition lane_cost :: "packet list \<Rightarrow> nat" where
  "lane_cost ps = sum_list (map packet_cost ps)"

definition queue_ok :: "output_queue \<Rightarrow> packet list \<Rightarrow> bool" where
  "queue_ok q fl \<longleftrightarrow>
     oq_terminal_bytes q = lane_cost (oq_terminal q) + lane_cost (filter is_terminal_output fl) \<and>
     oq_terminal_packets q = length (oq_terminal q) + length (filter is_terminal_output fl) \<and>
     oq_control_bytes q = lane_cost (oq_control q) + lane_cost (filter (\<lambda>p. \<not> is_terminal_output p) fl) \<and>
     oq_control_packets q = length (oq_control q) + length (filter (\<lambda>p. \<not> is_terminal_output p) fl) \<and>
     (\<forall>p \<in> set (oq_terminal q). is_terminal_output p) \<and> (\<forall>p \<in> set (oq_control q). \<not> is_terminal_output p) \<and>
     stream_ok (oq_stream q) \<and> (\<forall>s. oq_before_take q = Some s \<longrightarrow> stream_ok s)"

named_theorems queue_simps

lemma lane_cost_simps [simp]:
  "lane_cost [] = 0" "lane_cost (p # ps) = packet_cost p + lane_cost ps" "lane_cost (ps @ qs) = lane_cost ps + lane_cost qs"
  by (simp_all add: lane_cost_def)

lemma lane_cost_remove1: "p \<in> set ps \<Longrightarrow> lane_cost ps = packet_cost p + lane_cost (remove1 p ps)"
  by (simp add: lane_cost_def sum_list_map_remove1)

lemma lane_cost_last: "ps \<noteq> [] \<Longrightarrow> lane_cost ps = lane_cost (butlast ps) + packet_cost (last ps)"
  by (metis add.right_neutral append_butlast_last_id lane_cost_simps)

lemma append_keeps_header: "append_terminal_buffer p bs e limit = (ok, p') \<Longrightarrow> pkt_header p' = pkt_header p"
  by (auto simp: append_terminal_buffer_def Let_def split: option.splits if_splits prod.splits)

lemma is_terminal_new [simp]: "is_terminal_output (packet_new (pkt_header p) b) = is_terminal_output p"
  by (simp add: is_terminal_output_def)

lemma merge_back_Some:
  assumes "merge_back p q = Some q'"
  obtains back' bs e where "oq_terminal q \<noteq> []" "decode_terminal_buffer (pkt_payload p) = Some (bs, e)"
    "append_terminal_buffer (last (oq_terminal q)) bs e COALESCED_TERMINAL_BYTES = (True, back')"
    "q' = q\<lparr>oq_terminal := butlast (oq_terminal q) @ [back'],
            oq_terminal_bytes := oq_terminal_bytes q - packet_cost (last (oq_terminal q)) + packet_cost back'\<rparr>"
  using assms by (auto simp: merge_back_def Let_def split: if_splits option.splits prod.splits)

lemma queue_ok_pending [simp]: "queue_ok (q\<lparr>oq_promotion_pending := b\<rparr>) fl = queue_ok q fl"
  "queue_ok (q\<lparr>oq_skip_until_newline := b\<rparr>) fl = queue_ok q fl" "queue_ok (q\<lparr>oq_prefer_terminal := b\<rparr>) fl = queue_ok q fl"
  "queue_ok (q\<lparr>oq_limit := n\<rparr>) fl = queue_ok q fl"
  by (simp_all add: queue_ok_def)

lemma merge_back_ok:
  assumes "merge_back p q = Some q'" "queue_ok q fl"
  shows "queue_ok q' fl"
proof -
  from assms(1) obtain back' bs e where m: "oq_terminal q \<noteq> []"
    "append_terminal_buffer (last (oq_terminal q)) bs e COALESCED_TERMINAL_BYTES = (True, back')"
    "q' = q\<lparr>oq_terminal := butlast (oq_terminal q) @ [back'],
            oq_terminal_bytes := oq_terminal_bytes q - packet_cost (last (oq_terminal q)) + packet_cost back'\<rparr>"
    by (rule merge_back_Some)
  have "is_terminal_output back'" using append_keeps_header [OF m(2)] m(1) assms(2)
    by (simp add: is_terminal_output_def queue_ok_def)
  then show ?thesis using assms(2) m(1) lane_cost_last [OF m(1)] unfolding m(3)
    by (auto simp: queue_ok_def dest: in_set_butlastD)
qed

lemma append_terminal_ok:
  assumes "queue_ok q fl" "is_terminal_output p"
  shows "queue_ok (append_terminal K p q) fl"
proof -
  let ?q = "if packet_may_contain_control K p (oq_stream q) then q\<lparr>oq_promotion_pending := True\<rparr> else q"
  have ok: "queue_ok ?q fl" using assms(1) by simp
  show ?thesis
  proof (cases "merge_back p ?q")
    case None
    then show ?thesis using ok assms(2) by (auto simp: append_terminal_def queue_ok_def Let_def)
  next
    case (Some q2)
    then show ?thesis using merge_back_ok [OF Some ok] by (simp add: append_terminal_def Let_def)
  qed
qed

lemma skip_through_newline_ok:
  assumes "skip_through_newline K p q = (r, q')" "queue_ok q fl"
  shows "queue_ok q' fl \<and> (\<forall>p'. r = Some p' \<longrightarrow> is_terminal_output p' = is_terminal_output p)"
  using assms by (auto simp: skip_through_newline_def Let_def split: if_splits option.splits)

lemma skip_through_newline_same:
  assumes "skip_through_newline K p q = (r, q')"
  shows "oq_terminal q' = oq_terminal q \<and> oq_terminal_bytes q' = oq_terminal_bytes q \<and> oq_terminal_packets q' = oq_terminal_packets q \<and>
    oq_limit q' = oq_limit q \<and> oq_mode q' = oq_mode q"
  using assms by (auto simp: skip_through_newline_def Let_def split: if_splits option.splits)

declare evict.simps [simp del] truncate_search.simps [simp del]

lemma evict_spec:
  assumes "queue_ok q fl" "evict wanted q = (ok, q')"
  shows "queue_ok q' fl \<and> (ok \<longleftrightarrow> \<not> terminal_over wanted q') \<and> suffix (oq_terminal q') (oq_terminal q) \<and> (\<not> ok \<longrightarrow> oq_terminal q' = []) \<and>
    oq_limit q' = oq_limit q \<and> oq_mode q' = oq_mode q \<and> oq_terminal_bytes q' \<le> oq_terminal_bytes q \<and>
    oq_terminal_packets q' \<le> oq_terminal_packets q"
  using assms
proof (induction wanted q rule: evict.induct)
  case (1 wanted q)
  show ?case
  proof (cases "terminal_over wanted q")
    case over: True
    show ?thesis
    proof (cases "oq_terminal q")
      case Nil
      then have "\<not> ok \<and> q' = q" using 1(3) over by (simp add: evict.simps [of wanted q])
      then show ?thesis using Nil over 1(2) by simp
    next
      case (Cons removed rest)
      define q1 where "q1 = q\<lparr>oq_terminal := rest, oq_terminal_bytes := oq_terminal_bytes q - packet_cost removed,
                 oq_terminal_packets := oq_terminal_packets q - 1\<rparr>"
      have e: "evict wanted q1 = (ok, q')" using 1(3) over Cons by (simp add: evict.simps [of wanted q] q1_def)
      have k: "queue_ok q1 fl" using 1(2) Cons unfolding q1_def by (simp add: queue_ok_def)
      have "suffix (oq_terminal q1) (oq_terminal q)" "oq_limit q1 = oq_limit q" "oq_mode q1 = oq_mode q"
        "oq_terminal_bytes q1 \<le> oq_terminal_bytes q" "oq_terminal_packets q1 \<le> oq_terminal_packets q"
        using Cons by (simp_all add: q1_def suffix_def)
      with 1(1) [OF over Cons, folded q1_def, OF k e] show ?thesis
        by (auto intro: suffix_order.trans)
    qed
  next
    case False
    then have "ok \<and> q' = q" using 1(3) by (simp add: evict.simps [of wanted q])
    then show ?thesis using False 1(2) by simp
  qed
qed

lemma fit_terminal_type: "fit_terminal K p q = Inr p' \<Longrightarrow> is_terminal_output p' = is_terminal_output p"
  by (auto simp: fit_terminal_def truncate_terminal_def Let_def split: if_splits option.splits sum.splits)

text \<open>A push of terminal output, by outcome.\<close>

lemma push_terminal_cases:
  assumes "push_terminal K p q = (r, q')"
  obtains (skipped) "skip_through_newline K p q = (None, q')" "r = Inr ()"
  | (oversized) p1 e where "skip_through_newline K p q = (Some p1, q')" "fit_terminal K p1 q' = Inl e" "r = Inl e"
  | (full) p1 p2 q1 where "skip_through_newline K p q = (Some p1, q1)" "fit_terminal K p1 q1 = Inr p2" "r = Inl (Full p2)"
      "if oq_mode q1 = Backpressure then terminal_over (packet_cost p2) q1 \<and> q' = q1 else evict (packet_cost p2) q1 = (False, q')"
  | (admitted) p1 p2 q1 q2 where "skip_through_newline K p q = (Some p1, q1)" "fit_terminal K p1 q1 = Inr p2" "r = Inr ()"
      "evict (packet_cost p2) q1 = (True, q2)" "q' = append_terminal K p2 q2" "oq_mode q1 = Backpressure \<longrightarrow> q2 = q1"
proof -
  obtain s q1 where s: "skip_through_newline K p q = (s, q1)" by fastforce
  show ?thesis
  proof (cases s)
    case None
    then show ?thesis using skipped s assms by (simp add: push_terminal_def)
  next
    case (Some p1)
    show ?thesis
    proof (cases "fit_terminal K p1 q1")
      case (Inl e)
      then show ?thesis using oversized s Some assms by (simp add: push_terminal_def)
    next
      case (Inr p2)
      obtain ok q2 where e: "evict (packet_cost p2) q1 = (ok, q2)" by fastforce
      have bp: "\<not> terminal_over (packet_cost p2) q1 \<Longrightarrow> ok \<and> q2 = q1"
        using e by (simp add: evict.simps [of "packet_cost p2" q1])
      have s1: "skip_through_newline K p q = (Some p1, q1)" using s Some by simp
      have run: "(r, q') = (if oq_mode q1 = Backpressure \<and> terminal_over (packet_cost p2) q1 then (Inl (Full p2), q1)
          else if ok then (Inr (), append_terminal K p2 q2) else (Inl (Full p2), q2))"
        using assms s1 Inr e by (cases ok) (auto simp: push_terminal_def Let_def split: if_splits)
      show ?thesis
      proof (cases "oq_mode q1 = Backpressure \<and> terminal_over (packet_cost p2) q1")
        case True
        then show ?thesis using full [OF s1 Inr] run by simp
      next
        case no: False
        show ?thesis
        proof (cases ok)
          case True
          then show ?thesis using admitted [OF s1 Inr, of q2] run e bp no by simp
        next
          case False
          then show ?thesis using full [OF s1 Inr] run e bp no by auto
        qed
      qed
    qed
  qed
qed

lemma push_terminal_ok:
  assumes "queue_ok q fl" "is_terminal_output p" "push_terminal K p q = (r, q')"
  shows "queue_ok q' fl"
  using assms(3)
proof (cases rule: push_terminal_cases)
  case skipped
  then show ?thesis using skip_through_newline_ok assms(1) by blast
next
  case oversized
  then show ?thesis using skip_through_newline_ok assms(1) by blast
next
  case (full p1 p2 q1)
  have "queue_ok q1 fl" using skip_through_newline_ok [OF full(1) assms(1)] by blast
  then show ?thesis using full(4) evict_spec by (metis (full_types))
next
  case (admitted p1 p2 q1 q2)
  have "queue_ok q1 fl" "is_terminal_output p1" using skip_through_newline_ok [OF admitted(1) assms(1)] assms(2) by auto
  then show ?thesis using evict_spec [OF _ admitted(4)] fit_terminal_type [OF admitted(2)] append_terminal_ok admitted(5) by blast
qed

lemma push_control_ok:
  assumes "queue_ok q fl" "\<not> is_terminal_output p"
  shows "queue_ok (snd (push_control p q)) fl"
  using assms by (simp add: push_control_def Let_def queue_ok_def)

lemma push_ok: "queue_ok q fl \<Longrightarrow> queue_ok (snd (push K p q)) fl"
  using push_terminal_ok [of q fl p K "fst (push_terminal K p q)" "snd (push_terminal K p q)"] push_control_ok [of q fl p]
  by (cases "is_terminal_output p") (simp_all add: push_def)

text \<open>Promotion and filtering rewrite the queued packets; the counters follow.\<close>

lemma lane_bodies_length:
  "lane_bodies K ps = Some (bs, lens, flags) \<Longrightarrow> length lens = length ps \<and> length flags = length ps \<and> length bs = sum_list lens"
  by (induction ps arbitrary: bs lens flags) (auto split: option.splits)

lemma promote_packets_cost:
  assumes "promote_packets K ps lens flags remaining tb = (ps', tb')" "lane_cost ps \<le> tb"
  shows "tb' + lane_cost ps = tb + lane_cost ps' \<and> length ps' = length ps \<and> map pkt_header ps' = map pkt_header ps"
  using assms
proof (induction K ps lens flags remaining tb arbitrary: ps' tb' rule: promote_packets.induct)
  case (1 K p ps len lens flags remaining tb)
  define p' where "p' = packet_new (pkt_header p)
    (tb_encode K \<lparr>tm_buffer = Some (take len remaining), tm_is_stderr = (case flags of f # _ \<Rightarrow> f | [] \<Rightarrow> None)\<rparr>)"
  obtain rest t where r: "promote_packets K ps lens (tl flags) (drop len remaining) (tb - packet_cost p + packet_cost p') = (rest, t)" by fastforce
  have "ps' = p' # rest" "tb' = t" using 1(2) r by (simp_all add: Let_def p'_def)
  moreover have "t + lane_cost ps = tb - packet_cost p + packet_cost p' + lane_cost rest \<and> length rest = length ps \<and> map pkt_header rest = map pkt_header ps"
    using 1(1) [OF p'_def r] 1(3) by simp
  moreover have "pkt_header p' = pkt_header p" by (simp add: p'_def)
  ultimately show ?case using 1(3) by auto
qed auto

lemma retain_packets_cost:
  assumes "retain_packets K lens ps flags remaining (tb, tp) = (ps', tb', tp')" "length lens = length ps"
    "lane_cost ps \<le> tb" "length ps \<le> tp"
  shows "tb' + lane_cost ps = tb + lane_cost ps' \<and> tp' + length ps = tp + length ps' \<and> set (map pkt_header ps') \<subseteq> set (map pkt_header ps)"
  using assms
proof (induction lens arbitrary: ps flags remaining tb tp ps' tb' tp')
  case (Cons len lens)
  obtain p qs where ps: "ps = p # qs" using Cons.prems(2) by (cases ps) auto
  define cnt where "cnt = min (length remaining) len"
  define p' where "p' = packet_new (pkt_header p)
    (tb_encode K \<lparr>tm_buffer = Some (take cnt remaining), tm_is_stderr = (case flags of f # _ \<Rightarrow> f | [] \<Rightarrow> None)\<rparr>)"
  have hp: "pkt_header p' = pkt_header p" by (simp add: p'_def)
  have pre: "length lens = length qs" "lane_cost qs \<le> tb - packet_cost p" "length qs \<le> tp - 1"
    using Cons.prems ps by auto
  show ?case
  proof (cases "cnt = 0")
    case True
    then have "retain_packets K lens qs (tl flags) remaining (tb - packet_cost p, tp - 1) = (ps', tb', tp')"
      using Cons.prems(1) ps by (simp add: cnt_def Let_def)
    from Cons.IH [OF this pre] show ?thesis using Cons.prems(3,4) ps by auto
  next
    case False
    obtain rs t n where r: "retain_packets K lens qs (tl flags) (drop cnt remaining) (tb - packet_cost p + packet_cost p', tp - 1 + 1) = (rs, t, n)"
      using prod_cases3 by blast
    have "ps' = p' # rs \<and> tb' = t \<and> tp' = n"
      using Cons.prems(1) False r unfolding ps by (simp add: Let_def flip: cnt_def p'_def)
    with Cons.IH [OF r pre(1)] pre show ?thesis using Cons.prems(3,4) ps hp by auto
  qed
qed simp

lemma promote_terminal_control_same:
  "oq_control (promote_terminal_control K q) = oq_control q" "oq_prefer_terminal (promote_terminal_control K q) = oq_prefer_terminal q"
  "oq_stream (promote_terminal_control K q) = oq_stream q" "oq_mode (promote_terminal_control K q) = oq_mode q"
  "oq_limit (promote_terminal_control K q) = oq_limit q" "oq_before_take (promote_terminal_control K q) = oq_before_take q"
  by (simp_all add: promote_terminal_control_def Let_def split: option.split prod.split)

lemma headers_terminal:
  assumes "set (map pkt_header ps') \<subseteq> set (map pkt_header ps)" "\<forall>p \<in> set ps. is_terminal_output p"
  shows "\<forall>p \<in> set ps'. is_terminal_output p"
  using assms by (force simp: is_terminal_output_def)

lemma promote_terminal_control_ok:
  assumes "queue_ok q fl"
  shows "queue_ok (promote_terminal_control K q) fl \<and> length (oq_terminal (promote_terminal_control K q)) = length (oq_terminal q)"
proof (cases "\<exists>bs lens flags promoted. oq_promotion_pending q \<and> \<not> oq_terminal_bytes q < FLUSH_THRESHOLD \<and>
    lane_bodies K (oq_terminal q) = Some (bs, lens, flags) \<and> promote_control bs (oq_stream q) = Some promoted")
  case True
  then obtain bs lens flags promoted where *: "oq_promotion_pending q" "\<not> oq_terminal_bytes q < FLUSH_THRESHOLD"
    "lane_bodies K (oq_terminal q) = Some (bs, lens, flags)" "promote_control bs (oq_stream q) = Some promoted" by blast
  obtain ps tb where r: "promote_packets K (oq_terminal q) lens flags promoted (oq_terminal_bytes q) = (ps, tb)" by fastforce
  have le: "lane_cost (oq_terminal q) \<le> oq_terminal_bytes q" using assms by (simp add: queue_ok_def)
  note c = promote_packets_cost [OF r le]
  have "\<forall>p \<in> set ps. is_terminal_output p"
    using headers_terminal [of ps "oq_terminal q"] c assms by (metis order_refl queue_ok_def)
  moreover have "promote_terminal_control K q = q\<lparr>oq_promotion_pending := False, oq_terminal := ps, oq_terminal_bytes := tb\<rparr>"
    using * r by (simp add: promote_terminal_control_def)
  ultimately show ?thesis using assms c by (auto simp: queue_ok_def)
next
  case False
  then have "promote_terminal_control K q = q \<or> promote_terminal_control K q = q\<lparr>oq_promotion_pending := False\<rparr>"
    by (auto simp: promote_terminal_control_def Let_def split: option.split)
  then show ?thesis using assms by auto
qed

lemma filter_terminal_ok:
  assumes "queue_ok q fl"
  shows "queue_ok (snd (filter_terminal K threshold q)) fl"
proof (cases "\<exists>bs lens flags. lane_bodies K (oq_terminal q) = Some (bs, lens, flags) \<and> \<not> (bs = [] \<or> length bs < threshold)")
  case True
  then obtain bs lens flags where b: "lane_bodies K (oq_terminal q) = Some (bs, lens, flags)" "\<not> (bs = [] \<or> length bs < threshold)" by blast
  obtain ps tb tp where r: "retain_packets K lens (oq_terminal q) flags (fo_kept (filter_output bs (oq_stream q)))
      (oq_terminal_bytes q, oq_terminal_packets q) = (ps, tb, tp)" using prod_cases3 by blast
  have le: "lane_cost (oq_terminal q) \<le> oq_terminal_bytes q" "length (oq_terminal q) \<le> oq_terminal_packets q"
    using assms by (simp_all add: queue_ok_def)
  note c = retain_packets_cost [OF r _ le]
  have "length lens = length (oq_terminal q)" using lane_bodies_length [OF b(1)] by simp
  note c = c [OF this]
  have "\<forall>p \<in> set ps. is_terminal_output p" using headers_terminal c assms by (metis queue_ok_def)
  then show ?thesis using assms c b r by (auto simp: filter_terminal_def queue_ok_def Let_def)
next
  case False
  then have "filter_terminal K threshold q = (0, q)"
    by (auto simp: filter_terminal_def split: option.split)
  then show ?thesis using assms by simp
qed

lemma observe_packet_ok: "stream_ok s \<Longrightarrow> stream_ok (observe_packet K p s)"
  by (auto simp: observe_packet_def observe_ok split: option.split)

lemma pop_lane_cases:
  assumes "pop_lane q = Some (p, q')"
  obtains (terminal) ps where "oq_terminal q = p # ps" "q' = q\<lparr>oq_terminal := ps\<rparr>" "oq_prefer_terminal q \<or> oq_control q = []"
  | (control) ps where "oq_control q = p # ps" "q' = q\<lparr>oq_control := ps\<rparr>" "\<not> oq_prefer_terminal q \<or> oq_terminal q = []"
  using assms by (auto simp: pop_lane_def split: if_splits list.splits)

text \<open>Taking a packet, after the promotion: which lane it comes from and what changes.\<close>

lemma take_packet_cases:
  assumes "take_packet K q = (Some p, q')" "queue_ok q fl"
  obtains (terminal) ps q1 where "q1 = promote_terminal_control K q" "oq_terminal q1 = p # ps" "is_terminal_output p"
      "oq_prefer_terminal q \<or> oq_control q = []"
      "q' = q1\<lparr>oq_terminal := ps, oq_prefer_terminal := \<not> oq_prefer_terminal q,
              oq_before_take := Some (oq_stream q), oq_stream := observe_packet K p (oq_stream q)\<rparr>"
  | (control) ps q1 where "q1 = promote_terminal_control K q" "oq_control q1 = p # ps" "\<not> is_terminal_output p"
      "\<not> oq_prefer_terminal q \<or> oq_terminal q1 = []"
      "q' = q1\<lparr>oq_control := ps, oq_prefer_terminal := \<not> oq_prefer_terminal q\<rparr>"
proof -
  let ?q = "promote_terminal_control K q"
  have ok: "queue_ok ?q fl" using promote_terminal_control_ok [OF assms(2)] by blast
  obtain q1 where q1: "pop_lane ?q = Some (p, q1)" using assms(1) by (auto simp: take_packet_def Let_def split: option.splits)
  from q1 show ?thesis
  proof (cases rule: pop_lane_cases)
    case (terminal ps)
    moreover have "is_terminal_output p" using terminal(1) ok by (simp add: queue_ok_def)
    ultimately show ?thesis using that(1) [of ?q ps] assms(1) q1
      by (simp add: take_packet_def Let_def promote_terminal_control_same)
  next
    case (control ps)
    moreover have "\<not> is_terminal_output p" using control(1) ok by (simp add: queue_ok_def)
    ultimately show ?thesis using that(2) [of ?q ps] assms(1) q1
      by (simp add: take_packet_def Let_def promote_terminal_control_same)
  qed
qed

lemma take_packet_None: "take_packet K q = (None, q') \<Longrightarrow> q' = promote_terminal_control K q \<and> oq_terminal q' = [] \<and> oq_control q' = []"
  by (auto simp: take_packet_def Let_def pop_lane_def split: option.splits if_splits list.splits)

lemma take_packet_ok:
  assumes "take_packet K q = (Some p, q')" "queue_ok q fl"
  shows "queue_ok q' (p # fl)"
proof (cases rule: take_packet_cases [OF assms, case_names terminal control])
  case (terminal ps q1)
  have ok: "queue_ok q1 fl" using promote_terminal_control_ok [OF assms(2)] terminal(1) by blast
  have "stream_ok (oq_stream q)" using assms(2) by (simp add: queue_ok_def)
  then show ?thesis using ok terminal(2,3) observe_packet_ok unfolding terminal(5) by (simp add: queue_ok_def)
next
  case (control ps q1)
  have "queue_ok q1 fl" using promote_terminal_control_ok [OF assms(2)] control(1) by blast
  then show ?thesis using control(2,3) unfolding control(5) by (simp add: queue_ok_def)
qed

lemma take_control_ok:
  assumes "take_control q = (Some p, q')" "queue_ok q fl"
  shows "queue_ok q' (p # fl) \<and> \<not> is_terminal_output p"
  using assms by (auto simp: take_control_def queue_ok_def split: list.splits)

lemma in_flight_split:
  assumes "p \<in> set fl" "P p"
  shows "lane_cost (filter P fl) = packet_cost p + lane_cost (filter P (remove1 p fl))"
    "length (filter P fl) = Suc (length (filter P (remove1 p fl)))" "filter (\<lambda>x. \<not> P x) (remove1 p fl) = filter (\<lambda>x. \<not> P x) fl"
proof -
  have p: "p \<in> set (filter P fl)" using assms by simp
  then show "lane_cost (filter P fl) = packet_cost p + lane_cost (filter P (remove1 p fl))"
    unfolding filter_remove1 by (rule lane_cost_remove1)
  show "length (filter P fl) = Suc (length (filter P (remove1 p fl)))"
    using length_pos_if_in_set [OF p] assms by (simp add: filter_remove1 length_remove1)
  show "filter (\<lambda>x. \<not> P x) (remove1 p fl) = filter (\<lambda>x. \<not> P x) fl"
    using assms(2) by (simp add: filter_remove1 remove1_idem)
qed

lemma complete_ok:
  assumes "queue_ok q fl" "p \<in> set fl"
  shows "queue_ok (complete p q) (remove1 p fl)"
  using assms in_flight_split [OF assms(2), of is_terminal_output] in_flight_split [OF assms(2), of "\<lambda>x. \<not> is_terminal_output x"]
  by (cases "is_terminal_output p") (simp_all add: complete_def queue_ok_def)

lemma restore_front_ok:
  assumes "queue_ok q fl" "p \<in> set fl"
  shows "queue_ok (restore_front p q) (remove1 p fl)"
proof (cases "is_terminal_output p")
  case True
  define q1 where "q1 = (case oq_before_take q of Some stream \<Rightarrow> q\<lparr>oq_before_take := None, oq_stream := stream\<rparr> | None \<Rightarrow> q)"
  have "queue_ok q1 fl" using assms(1) unfolding q1_def by (cases "oq_before_take q") (simp_all add: queue_ok_def)
  then show ?thesis using True in_flight_split [OF assms(2), of is_terminal_output]
    unfolding restore_front_def q1_def [symmetric] by (simp add: queue_ok_def)
next
  case False
  then show ?thesis using assms(1) in_flight_split [OF assms(2), of "\<lambda>x. \<not> is_terminal_output x"]
    by (simp add: restore_front_def queue_ok_def)
qed

lemma drain_packet_ok:
  assumes "queue_ok q fl" "is_terminal_output p"
  shows "queue_ok (drain_packet K p q) fl"
proof -
  obtain r q' where s: "skip_through_newline K p q = (r, q')" by fastforce
  then show ?thesis using skip_through_newline_ok [OF s assms(1)] append_terminal_ok assms(2)
    by (cases r) (auto simp: drain_packet_def)
qed

lemma drain_packets_ok:
  "queue_ok q fl \<Longrightarrow> list_all is_terminal_output ps \<Longrightarrow> queue_ok (fold (drain_packet K) ps q) fl"
  by (induction ps arbitrary: q) (auto simp: drain_packet_ok)

lemma discard_drained_ok:
  "queue_ok q fl \<Longrightarrow> list_all is_terminal_output ps \<Longrightarrow> queue_ok (snd (discard_drained_terminal K ps q)) fl"
  using drain_packets_ok filter_terminal_ok by (auto simp: discard_drained_terminal_def)

text \<open>All runs of the queue, with the packets in flight.\<close>

inductive queue_run :: "codec \<Rightarrow> output_queue \<Rightarrow> packet list \<Rightarrow> bool" for K where
  queue_run_new: "queue_run K (queue_new mode limit) []"
| queue_run_push: "queue_run K q fl \<Longrightarrow> queue_run K (snd (push K p q)) fl"
| queue_run_take: "queue_run K q fl \<Longrightarrow> take_packet K q = (Some p, q') \<Longrightarrow> queue_run K q' (p # fl)"
| queue_run_idle: "queue_run K q fl \<Longrightarrow> take_packet K q = (None, q') \<Longrightarrow> queue_run K q' fl"
| queue_run_control: "queue_run K q fl \<Longrightarrow> take_control q = (Some p, q') \<Longrightarrow> queue_run K q' (p # fl)"
| queue_run_complete: "queue_run K q fl \<Longrightarrow> p \<in> set fl \<Longrightarrow> queue_run K (complete p q) (remove1 p fl)"
| queue_run_restore: "queue_run K q fl \<Longrightarrow> p \<in> set fl \<Longrightarrow> queue_run K (restore_front p q) (remove1 p fl)"
| queue_run_flush: "queue_run K q fl \<Longrightarrow> queue_run K (snd (flush_terminal_on_interrupt K q)) fl"
| queue_run_discard: "queue_run K q fl \<Longrightarrow> list_all is_terminal_output ps \<Longrightarrow> queue_run K (snd (discard_drained_terminal K ps q)) fl"
| queue_run_limit: "queue_run K q fl \<Longrightarrow> queue_run K (set_limit n q) fl"

lemma queue_run_ok: "queue_run K q fl \<Longrightarrow> queue_ok q fl"
proof (induction rule: queue_run.induct)
  case (queue_run_new mode limit)
  then show ?case by (simp add: queue_new_def queue_ok_def stream_ok_default)
next
  case (queue_run_take q fl p q')
  then show ?case using take_packet_ok by blast
next
  case (queue_run_idle q fl q')
  then show ?case using take_packet_None promote_terminal_control_ok by blast
next
  case (queue_run_control q fl p q')
  then show ?case using take_control_ok by blast
next
  case (queue_run_flush q fl)
  then show ?case by (simp add: flush_terminal_on_interrupt_def filter_terminal_ok)
next
  case (queue_run_limit q fl n)
  then show ?case by (simp add: set_limit_def)
qed (simp_all add: push_ok complete_ok restore_front_ok discard_drained_ok)

end
