(* ===== verification/Queue_Contents.thy ===== *)
theory Queue_Contents
  imports Output_Queue
begin

text \<open>
  What the output queue of \<^verbatim>\<open>crates/et-core/src/flow_control.rs\<close> holds, as bytes of terminal output: the laws
  of the generated \<^verbatim>\<open>TerminalBuffer\<close> code, the text of a lane, and how the operations change it.
\<close>

section \<open>Contents\<close>

text \<open>What the generated code promises: decoding inverts encoding, it reads every message the
  hand-written decoder reads, and a longer buffer never has a shorter encoding.\<close>

definition codec_laws :: "codec \<Rightarrow> bool" where
  "codec_laws K \<longleftrightarrow> (\<forall>m. tb_decode K (tb_encode K m) = Some m) \<and>
     (\<forall>p bs e. decode_terminal_buffer p = Some (bs, e) \<longrightarrow> (\<exists>m. tb_decode K p = Some m \<and> tm_buffer m = Some bs)) \<and>
     (\<forall>bs bs' e. length bs \<le> length bs' \<longrightarrow>
        length (tb_encode K \<lparr>tm_buffer = Some bs, tm_is_stderr = e\<rparr>) \<le> length (tb_encode K \<lparr>tm_buffer = Some bs', tm_is_stderr = e\<rparr>))"

text \<open>A codec with these laws: buffers without a stream flag in the wire format, everything else behind a
  tag of its own.\<close>

definition plain_tag :: "terminal_message \<Rightarrow> byte" where
  "plain_tag m = (if tm_buffer m = None then 0 else 4) + (case tm_is_stderr m of None \<Rightarrow> 0 | Some False \<Rightarrow> 1 | Some True \<Rightarrow> 2)"

definition plain_codec :: codec where
  "plain_codec = \<lparr>
     tb_decode = (\<lambda>p. case p of [] \<Rightarrow> None
       | t # r \<Rightarrow> if t = 0x0a then map_option (\<lambda>(bs, e). \<lparr>tm_buffer = Some bs, tm_is_stderr = (if e then Some True else None)\<rparr>)
              (decode_terminal_buffer p)
            else Some \<lparr>tm_buffer = (if t < 4 then None else Some (drop 6 r)),
                       tm_is_stderr = (if t = 0 \<or> t = 4 then None else if t = 1 \<or> t = 5 then Some False else Some True)\<rparr>),
     tb_encode = (\<lambda>m. case tm_buffer m of
         Some bs \<Rightarrow> if tm_is_stderr m = None \<and> length bs < 2 ^ 35 then encode_terminal_buffer bs False
           else plain_tag m # replicate 6 0 @ bs
       | None \<Rightarrow> [plain_tag m])\<rparr>"

lemma plain_codec_tagged:
  assumes "t \<noteq> 0x0a"
  shows "tb_decode plain_codec (t # r) = Some \<lparr>tm_buffer = (if t < 4 then None else Some (drop 6 r)),
    tm_is_stderr = (if t = 0 \<or> t = 4 then None else if t = 1 \<or> t = 5 then Some False else Some True)\<rparr>"
  using assms by (simp add: plain_codec_def)

lemma plain_codec_roundtrip: "tb_decode plain_codec (tb_encode plain_codec m) = Some m"
proof (cases m)
  case (fields b e)
  show ?thesis
  proof (cases b)
    case None
    then have "tb_encode plain_codec m = [plain_tag m]" using fields by (simp add: plain_codec_def)
    then show ?thesis using None fields
      by (cases e) (simp_all add: plain_codec_tagged plain_tag_def split: bool.split)
  next
    case (Some bs)
    show ?thesis
    proof (cases "e = None \<and> length bs < 2 ^ 35")
      case True
      then have "decode_terminal_buffer (10 # encode_varint (length bs) @ bs) = Some (bs, False)"
        using decode_encode [of bs False] by (simp add: encode_terminal_buffer_def)
      then show ?thesis using True Some fields by (simp add: plain_codec_def encode_terminal_buffer_def)
    next
      case False
      then have enc: "tb_encode plain_codec m = plain_tag m # replicate 6 0 @ bs" using Some fields
        unfolding plain_codec_def by (simp only: codec.simps terminal_message.simps option.case if_False)
      have tag: "plain_tag m = (case e of None \<Rightarrow> 4 | Some False \<Rightarrow> 5 | Some True \<Rightarrow> 6)"
        using Some fields by (simp add: plain_tag_def split: option.split bool.split)
      show ?thesis unfolding enc tag using Some fields
        by (cases e) (simp_all add: plain_codec_tagged split: bool.split)
    qed
  qed
qed

lemma plain_codec_mono:
  assumes "length bs \<le> length bs'"
  shows "length (tb_encode plain_codec \<lparr>tm_buffer = Some bs, tm_is_stderr = e\<rparr>) \<le>
    length (tb_encode plain_codec \<lparr>tm_buffer = Some bs', tm_is_stderr = e\<rparr>)"
  using assms encode_varint_length_mono [OF assms] encode_varint_length_le [of "length bs" 5]
  by (auto simp: plain_codec_def encode_terminal_buffer_def)

lemma plain_codec_laws [simp]: "codec_laws plain_codec"
proof -
  have "\<exists>m. tb_decode plain_codec p = Some m \<and> tm_buffer m = Some bs" if d: "decode_terminal_buffer p = Some (bs, e)" for p bs e
  proof -
    obtain r where "p = 10 # r" using d by (cases p) (auto simp: decode_terminal_buffer_def split: if_splits)
    then show ?thesis using d by (cases e) (simp_all add: plain_codec_def)
  qed
  then show ?thesis unfolding codec_laws_def using plain_codec_roundtrip plain_codec_mono by blast
qed

lemma codec_decode_encode: "codec_laws K \<Longrightarrow> tb_decode K (tb_encode K m) = Some m"
  by (simp add: codec_laws_def)

definition lane_text :: "codec \<Rightarrow> packet list \<Rightarrow> bytes option" where
  "lane_text K ps = map_option fst (lane_bodies K ps)"

definition body :: "codec \<Rightarrow> packet \<Rightarrow> bytes option" where
  "body K p = (case tb_decode K (pkt_payload p) of None \<Rightarrow> None | Some m \<Rightarrow> tm_buffer m)"

lemma lane_text_simps [simp]:
  "lane_text K [] = Some []"
  "lane_text K (p # ps) = (case body K p of None \<Rightarrow> None | Some b \<Rightarrow> map_option ((@) b) (lane_text K ps))"
  by (auto simp: lane_text_def body_def split: option.split)

lemma lane_text_append:
  "lane_text K (ps @ qs) = (case lane_text K ps of None \<Rightarrow> None | Some a \<Rightarrow> map_option ((@) a) (lane_text K qs))"
  by (induction ps; cases "lane_text K qs") (auto split: option.split)

lemma body_encoded: "codec_laws K \<Longrightarrow> body K (packet_new h (tb_encode K m)) = tm_buffer m"
  by (simp add: body_def codec_decode_encode)

text \<open>Laying kept bytes out in the packets again keeps exactly those bytes.\<close>

lemma retain_packets_text:
  assumes "codec_laws K" "length lens = length ps" "length remaining \<le> sum_list lens"
  shows "lane_text K (fst (retain_packets K lens ps flags remaining counts)) = Some remaining"
  using assms(2,3)
proof (induction lens arbitrary: ps flags remaining counts)
  case (Cons len lens)
  obtain p qs where ps: "ps = p # qs" using Cons.prems(1) by (cases ps) auto
  obtain tb tp where c: "counts = (tb, tp)" by (cases counts)
  define cnt where "cnt = min (length remaining) len"
  show ?case
  proof (cases "cnt = 0")
    case True
    then have "length remaining \<le> sum_list lens" using Cons.prems(2) by (auto simp: cnt_def min_def split: if_splits)
    then show ?thesis using Cons.IH [of qs] Cons.prems(1) True ps c by (simp add: cnt_def Let_def)
  next
    case False
    have "length (drop cnt remaining) \<le> sum_list lens" using Cons.prems(2) by (simp add: cnt_def)
    then have ih: "lane_text K (fst (retain_packets K lens qs (tl flags) (drop cnt remaining) counts)) = Some (drop cnt remaining)" for counts
      using Cons.IH [of qs "drop cnt remaining" "tl flags" counts] Cons.prems(1) ps by simp
    define m where "m = \<lparr>tm_buffer = Some (take cnt remaining), tm_is_stderr = (case flags of f # _ \<Rightarrow> f | [] \<Rightarrow> None)\<rparr>"
    define p' where "p' = packet_new (pkt_header p) (tb_encode K m)"
    have b: "body K p' = Some (take cnt remaining)" by (simp add: p'_def body_encoded [OF assms(1)] m_def)
    have "fst (retain_packets K (len # lens) ps flags remaining counts) =
        p' # fst (retain_packets K lens qs (tl flags) (drop cnt remaining) (tb - packet_cost p + packet_cost p', tp - 1 + 1))"
      using False ps c by (simp add: Let_def case_prod_beta flip: cnt_def m_def p'_def)
    then show ?thesis using ih b by simp
  qed
qed simp

lemma promote_packets_text:
  assumes "codec_laws K" "length lens = length ps" "length remaining = sum_list lens"
  shows "lane_text K (fst (promote_packets K ps lens flags remaining tb)) = Some remaining"
  using assms(2,3)
proof (induction lens arbitrary: ps flags remaining tb)
  case (Cons len lens)
  obtain p qs where ps: "ps = p # qs" using Cons.prems(1) by (cases ps) auto
  define m where "m = \<lparr>tm_buffer = Some (take len remaining), tm_is_stderr = (case flags of f # _ \<Rightarrow> f | [] \<Rightarrow> None)\<rparr>"
  define p' where "p' = packet_new (pkt_header p) (tb_encode K m)"
  have b: "body K p' = Some (take len remaining)" by (simp add: p'_def body_encoded [OF assms(1)] m_def)
  have "fst (promote_packets K ps (len # lens) flags remaining tb) =
      p' # fst (promote_packets K qs lens (tl flags) (drop len remaining) (tb - packet_cost p + packet_cost p'))"
    using ps by (simp add: Let_def case_prod_beta flip: m_def p'_def)
  then show ?case using b Cons.IH [of qs "drop len remaining" "tl flags"] Cons.prems ps by simp
qed simp

text \<open>Canonically encoded packets, which is what the terminal side produces, merge without changing
  the text.\<close>

definition canonical :: "packet \<Rightarrow> bool" where
  "canonical p \<longleftrightarrow> (\<exists>b e. pkt_payload p = encode_terminal_buffer b e \<and> length b < 2 ^ 34)"

lemma canonical_decode: "pkt_payload p = encode_terminal_buffer b e \<Longrightarrow> length b < 2 ^ 34 \<Longrightarrow> decode_terminal_buffer (pkt_payload p) = Some (b, e)"
  using decode_encode [of b e] by simp

lemma canonical_body: "codec_laws K \<Longrightarrow> decode_terminal_buffer (pkt_payload p) = Some (b, e) \<Longrightarrow> body K p = Some b"
  by (auto simp: codec_laws_def body_def split: option.split) (metis option.discI option.inject)+

lemma append_canonical_buffer:
  assumes "canonical back" "append_terminal_buffer back bs e COALESCED_TERMINAL_BYTES = (True, back')" "codec_laws K"
  shows "\<exists>old. body K back = Some old \<and> body K back' = Some (old @ bs) \<and> canonical back'"
proof -
  obtain old e0 where o: "pkt_payload back = encode_terminal_buffer old e0" "length old < 2 ^ 34" using assms(1) by (auto simp: canonical_def)
  note d = canonical_decode [OF o]
  have ok: "\<not> pkt_encrypted back" "e = e0" "length old + length bs \<le> COALESCED_TERMINAL_BYTES"
    using append_rejected [OF d, of e COALESCED_TERMINAL_BYTES bs] assms(2) not_less by (metis Pair_inject)+
  then have len: "length old + length bs < 2 ^ 34" by (simp add: COALESCED_TERMINAL_BYTES_def)
  have "back' = back\<lparr>pkt_payload := encode_terminal_buffer (old @ bs) e0\<rparr>"
    using append_canonical [OF ok(1) _ _ d ok(3), of "if e0 then [0x10, 1] else []"] assms(2) o(1) len ok(2)
    by (simp add: encode_terminal_buffer_def)
  then have "pkt_payload back' = encode_terminal_buffer (old @ bs) e0" by simp
  then show ?thesis using canonical_body [OF assms(3)] d canonical_decode [of back' "old @ bs" e0] len by (auto simp: canonical_def)
qed

lemma append_terminal_text:
  assumes "codec_laws K" "canonical p" "body K p = Some b" "list_all canonical (oq_terminal q)" "lane_text K (oq_terminal q) = Some t"
  shows "lane_text K (oq_terminal (append_terminal K p q)) = Some (t @ b) \<and> list_all canonical (oq_terminal (append_terminal K p q))"
proof -
  let ?q = "if packet_may_contain_control K p (oq_stream q) then q\<lparr>oq_promotion_pending := True\<rparr> else q"
  show ?thesis
  proof (cases "merge_back p ?q")
    case None
    then have "oq_terminal (append_terminal K p q) = oq_terminal q @ [p]" by (simp add: append_terminal_def Let_def)
    then show ?thesis using assms by (simp add: lane_text_append)
  next
    case (Some q2)
    have tq: "oq_terminal ?q = oq_terminal q" by simp
    from Some obtain back' bs e where m: "oq_terminal q \<noteq> []" "decode_terminal_buffer (pkt_payload p) = Some (bs, e)"
      "append_terminal_buffer (last (oq_terminal q)) bs e COALESCED_TERMINAL_BYTES = (True, back')"
      "oq_terminal q2 = butlast (oq_terminal q) @ [back']"
      by (rule merge_back_Some) (simp add: tq)
    have q: "oq_terminal q = butlast (oq_terminal q) @ [last (oq_terminal q)]" using m(1) by simp
    have c: "canonical (last (oq_terminal q))" "list_all canonical (butlast (oq_terminal q))"
      using assms(4) m(1) by (auto simp: list_all_iff dest: in_set_butlastD)
    obtain old where old: "body K (last (oq_terminal q)) = Some old" "body K back' = Some (old @ bs)" "canonical back'"
      using append_canonical_buffer [OF c(1) m(3) assms(1)] by blast
    have "bs = b" using canonical_body [OF assms(1) m(2)] assms(3) by simp
    moreover have "lane_text K (butlast (oq_terminal q) @ [last (oq_terminal q)]) = Some t" using assms(5) q by simp
    then obtain t0 where "lane_text K (butlast (oq_terminal q)) = Some t0" "t = t0 @ old"
      using old(1) by (auto simp: lane_text_append split: option.splits)
    moreover have "append_terminal K p q = q2" using Some by (simp add: append_terminal_def Let_def)
    ultimately show ?thesis using m(4) old(2,3) c(2) by (simp add: lane_text_append)
  qed
qed

lemma terminal_len_loop_progress: "terminal_len_loop bs idx len shift = Some (idx', len') \<Longrightarrow> idx < idx'"
  by (induction bs idx len shift rule: terminal_len_loop.induct) (fastforce simp: Let_def split: if_splits)+

lemma decode_terminal_buffer_length:
  assumes "decode_terminal_buffer payload = Some (bs, e)"
  shows "length bs + 2 + (if e then 2 else 0) \<le> length payload"
proof -
  obtain r where r: "payload = 10 # r" using assms by (cases payload) (auto simp: decode_terminal_buffer_def split: if_splits)
  obtain idx len where l: "terminal_len_loop r 1 0 0 = Some (idx, len)" using assms r
    by (auto simp: decode_terminal_buffer_def split: option.splits)
  define rest where "rest = drop (idx + len) payload"
  have "1 < idx" using terminal_len_loop_progress [OF l] .
  moreover have "idx + len \<le> length payload" "bs = take len (drop idx payload)" "e \<longrightarrow> rest = [0x10, 1]"
    using assms l r unfolding rest_def by (auto simp: decode_terminal_buffer_def Let_def split: if_splits)
  moreover have "length rest = length payload - (idx + len)" by (simp add: rest_def)
  ultimately show ?thesis by auto
qed

lemma append_terminal_buffer_length:
  assumes "append_terminal_buffer back bs e COALESCED_TERMINAL_BYTES = (True, back')"
  shows "length (pkt_payload back') \<le> length (pkt_payload back) + length bs + 2 + (if e then 2 else 0)"
proof -
  obtain old where d: "decode_terminal_buffer (pkt_payload back) = Some (old, e)" "length old + length bs \<le> COALESCED_TERMINAL_BYTES"
      "\<not> pkt_encrypted back"
    using assms by (auto simp: append_terminal_buffer_def Let_def split: option.splits if_splits)
  define n ol where "n = encode_varint (length old + length bs)" and "ol = encode_varint (length old)"
  define tail :: bytes where "tail = (if e then [0x10, 0x01] else [])"
  define p1 where "p1 = take (1 + length ol + length old) (pkt_payload back)"
  define p2 where "p2 = (if 1 + length ol < 1 + length n then take 1 p1 @ replicate (1 + length n - (1 + length ol)) 0 @ drop 1 p1 else p1)"
  define p3 where "p3 = take 1 p2 @ take (1 + length n - 1) n @ drop (1 + length n) p2"
  have "pkt_payload back' = p3 @ bs @ tail"
    using assms d unfolding append_terminal_buffer_def Let_def n_def ol_def tail_def p1_def p2_def p3_def by (auto split: if_splits)
  moreover have n: "length n \<le> 3" using encode_varint_length_le [of "length old + length bs" 3] d(2) by (simp add: COALESCED_TERMINAL_BYTES_def n_def)
  have ol: "0 < length ol" by (simp add: ol_def)
  have "2 \<le> length (pkt_payload back)" using decode_terminal_buffer_length [OF d(1)] by simp
  moreover have "length p2 \<le> length (pkt_payload back) + 2"
  proof -
    have "length n - length ol \<le> 2" using n ol by linarith
    then have "length p2 \<le> length p1 + 2" by (cases p1) (auto simp: p2_def)
    moreover have "length p1 \<le> length (pkt_payload back)" by (simp add: p1_def)
    ultimately show ?thesis by linarith
  qed
  moreover have "length p3 \<le> max (length p2) (1 + length n)" by (auto simp: p3_def)
  moreover have "length tail = (if e then 2 else 0)" by (simp add: tail_def)
  ultimately show ?thesis using n by auto
qed

lemma merge_back_cost:
  assumes "merge_back p q = Some q'" "queue_ok q fl"
  shows "oq_terminal_bytes q' \<le> oq_terminal_bytes q + packet_cost p \<and> oq_terminal_packets q' = oq_terminal_packets q"
proof -
  from assms(1) obtain back' bs e where m: "oq_terminal q \<noteq> []" "decode_terminal_buffer (pkt_payload p) = Some (bs, e)"
    "append_terminal_buffer (last (oq_terminal q)) bs e COALESCED_TERMINAL_BYTES = (True, back')"
    "q' = q\<lparr>oq_terminal := butlast (oq_terminal q) @ [back'],
            oq_terminal_bytes := oq_terminal_bytes q - packet_cost (last (oq_terminal q)) + packet_cost back'\<rparr>"
    by (rule merge_back_Some)
  have "length (pkt_payload back') \<le> length (pkt_payload (last (oq_terminal q))) + length (pkt_payload p)"
    using append_terminal_buffer_length [OF m(3)] decode_terminal_buffer_length [OF m(2)] by simp
  then have "packet_cost back' \<le> packet_cost (last (oq_terminal q)) + packet_cost p"
    by (auto simp: packet_cost_def usize_saturating_add_def wire_len_def)
  moreover have "packet_cost (last (oq_terminal q)) \<le> oq_terminal_bytes q"
    using assms(2) lane_cost_last [OF m(1)] by (simp add: queue_ok_def)
  ultimately show ?thesis unfolding m(4) by simp
qed

lemma append_terminal_cost:
  assumes "queue_ok q fl"
  shows "oq_terminal_bytes (append_terminal K p q) \<le> oq_terminal_bytes q + packet_cost p \<and>
    oq_terminal_packets (append_terminal K p q) \<le> oq_terminal_packets q + 1"
proof -
  let ?q = "if packet_may_contain_control K p (oq_stream q) then q\<lparr>oq_promotion_pending := True\<rparr> else q"
  have ok: "queue_ok ?q fl" and same: "oq_terminal_bytes ?q = oq_terminal_bytes q" "oq_terminal_packets ?q = oq_terminal_packets q"
    using assms by simp_all
  show ?thesis
  proof (cases "merge_back p ?q")
    case None
    then show ?thesis by (simp add: append_terminal_def Let_def)
  next
    case (Some q2)
    then have "append_terminal K p q = q2" by (simp add: append_terminal_def Let_def)
    then show ?thesis using merge_back_cost [OF Some ok] same by simp
  qed
qed

section \<open>Truncation\<close>

text \<open>The binary search finds the largest size that fits, where fitting is downward closed.\<close>

lemma truncate_search_spec:
  assumes "\<forall>m n. m \<le> n \<longrightarrow> fits n \<longrightarrow> fits m" "low \<le> high"
  shows "low \<le> truncate_search fits low high \<and> truncate_search fits low high \<le> high \<and>
    (truncate_search fits low high = low \<or> fits (truncate_search fits low high)) \<and>
    (\<forall>m. truncate_search fits low high < m \<and> m \<le> high \<longrightarrow> \<not> fits m)"
  using assms
proof (induction fits low high rule: truncate_search.induct)
  case (1 fits low high)
  define middle where "middle = low + (high - low + 1) div 2"
  show ?case
  proof (cases "low < high")
    case True
    then have mid: "low < middle" "middle \<le> high" by (auto simp: middle_def)
    have step: "truncate_search fits low high =
        (if fits middle then truncate_search fits middle high else truncate_search fits low (middle - 1))"
      using True by (simp add: truncate_search.simps [of fits low high] middle_def Let_def)
    show ?thesis
    proof (cases "fits middle")
      case fit: True
      note ih = "1.IH"(1) [OF True middle_def fit "1.prems"(1) mid(2)]
      then show ?thesis using mid step fit by auto
    next
      case no: False
      have "low \<le> middle - 1" using mid by simp
      note ih = "1.IH"(2) [OF True middle_def no "1.prems"(1) this]
      have "\<not> fits m" if "middle \<le> m" for m using no "1.prems"(1) that by blast
      then have above: "\<not> fits m" if "middle - 1 < m" for m using that by simp
      have "\<not> fits m" if "truncate_search fits low (middle - 1) < m" for m
        using ih above that by (cases "m \<le> middle - 1") auto
      then show ?thesis using ih mid step no by auto
    qed
  next
    case False
    then have "truncate_search fits low high = low" by (simp add: truncate_search.simps [of fits low high])
    then show ?thesis using "1.prems"(2) False by auto
  qed
qed

lemma suffix_fits_mono:
  assumes "codec_laws K" "m \<le> n" "suffix_fits K bs e limit n"
  shows "suffix_fits K bs e limit m"
proof -
  have "length (tb_encode K (suffix_message bs e m)) \<le> length (tb_encode K (suffix_message bs e n))"
    using assms(1,2) by (simp add: codec_laws_def suffix_message_def)
  then show ?thesis using assms(3) by (auto simp: suffix_fits_def usize_saturating_add_def)
qed

lemma body_Some: "body K p = Some bs \<longleftrightarrow> (\<exists>m. tb_decode K (pkt_payload p) = Some m \<and> tm_buffer m = Some bs)"
  by (auto simp: body_def split: option.split)

lemma filter_output_length: "length (fo_kept (filter_output bs s)) \<le> length bs"
proof -
  obtain pre rest ls where r: "bs = pre @ rest" "fo_kept (partition_output bs False s) = pre @ concat ls"
    "subseq ls (split_inclusive (\<lambda>b. b = 10) rest)" by (rule partition_output_spec)
  then show ?thesis using list_emb_length [OF subseq_concat [OF r(3)]] by (simp add: filter_output_def)
qed

lemma skip_through_newline_control:
  "skip_through_newline K p q = (r, q') \<Longrightarrow> oq_control_bytes q' = oq_control_bytes q \<and> oq_control_packets q' = oq_control_packets q"
  by (auto simp: skip_through_newline_def Let_def split: if_splits option.splits)

lemma evict_control: "oq_control_bytes (snd (evict wanted q)) = oq_control_bytes q \<and> oq_control_packets (snd (evict wanted q)) = oq_control_packets q"
proof (induction wanted q rule: evict.induct)
  case (1 wanted q)
  then show ?case by (simp add: evict.simps [of wanted q] split: list.split)
qed

lemma append_terminal_control:
  "oq_control_bytes (append_terminal K p q) = oq_control_bytes q \<and> oq_control_packets (append_terminal K p q) = oq_control_packets q"
  by (auto simp: append_terminal_def Let_def split: option.split elim!: merge_back_Some)

lemma push_terminal_control:
  assumes "push_terminal K p q = (r, q')"
  shows "oq_control_bytes q' = oq_control_bytes q \<and> oq_control_packets q' = oq_control_packets q"
  using assms
proof (cases rule: push_terminal_cases)
  case (full p1 p2 q1)
  then show ?thesis using skip_through_newline_control [OF full(1)] evict_control [of "packet_cost p2" q1] by (auto split: if_splits)
next
  case (admitted p1 p2 q1 q2)
  then show ?thesis using skip_through_newline_control [OF admitted(1)] evict_control [of "packet_cost p2" q1] append_terminal_control [of K p2 q2] by simp
qed (use skip_through_newline_control in blast)+

lemma push_terminal_bounded:
  assumes "queue_ok q fl" "is_terminal_output p" "oq_limit q < usize_max" "push_terminal K p q = (r, q')"
  shows "oq_terminal_bytes q' \<le> max (oq_limit q) (oq_terminal_bytes q) \<and>
    oq_terminal_packets q' \<le> max MAX_PACKETS_PER_LANE (oq_terminal_packets q)"
  using assms(4)
proof (cases rule: push_terminal_cases)
  case skipped
  then show ?thesis using skip_through_newline_same by force
next
  case (oversized p1 e)
  then show ?thesis using skip_through_newline_same by force
next
  case (full p1 p2 q1)
  have "queue_ok q1 fl" using skip_through_newline_ok [OF full(1) assms(1)] by blast
  then have "oq_terminal_bytes q' \<le> oq_terminal_bytes q1 \<and> oq_terminal_packets q' \<le> oq_terminal_packets q1"
    using full(4) evict_spec [of q1 fl "packet_cost p2" False q'] by (auto split: if_splits)
  then show ?thesis using skip_through_newline_same [OF full(1)] by auto
next
  case (admitted p1 p2 q1 q2)
  have ok1: "queue_ok q1 fl" using skip_through_newline_ok [OF admitted(1) assms(1)] by blast
  have e: "queue_ok q2 fl" "\<not> terminal_over (packet_cost p2) q2" "oq_limit q2 = oq_limit q1"
    using evict_spec [OF ok1 admitted(4)] by auto
  have "oq_terminal_bytes q2 + packet_cost p2 \<le> oq_limit q" "oq_terminal_packets q2 + 1 \<le> MAX_PACKETS_PER_LANE"
    using e(2,3) skip_through_newline_same [OF admitted(1)] assms(3) by (auto simp: terminal_over_def usize_saturating_add_def)
  then show ?thesis using append_terminal_cost [OF e(1), of K p2] admitted(5) by (auto simp: le_max_iff_disj)
qed

definition sample_queue :: output_queue where
  "sample_queue = snd (push plain_codec (packet_new 1 (encode_terminal_buffer [65] False)) (queue_new Backpressure 100))"

lemma evict_limit: "oq_limit (snd (evict wanted q)) = oq_limit q"
proof (induction wanted q rule: evict.induct)
  case (1 wanted q)
  then show ?case by (simp add: evict.simps [of wanted q] split: list.split)
qed

lemma push_terminal_limit:
  assumes "push_terminal K p q = (r, q')"
  shows "oq_limit q' = oq_limit q"
  using assms
proof (cases rule: push_terminal_cases)
  case (full p1 p2 q1)
  then show ?thesis using skip_through_newline_same [OF full(1)] evict_limit [of "packet_cost p2" q1] by (auto split: if_splits)
next
  case (admitted p1 p2 q1 q2)
  have "oq_limit (append_terminal K p2 q2) = oq_limit q2"
    by (auto simp: append_terminal_def Let_def split: option.split elim!: merge_back_Some)
  then show ?thesis using admitted skip_through_newline_same [OF admitted(1)] evict_limit [of "packet_cost p2" q1] by simp
qed (use skip_through_newline_same in blast)+

lemma sample_queue_limit: "oq_limit sample_queue = 100"
  using push_terminal_limit [of plain_codec "packet_new 1 (encode_terminal_buffer [65] False)" "queue_new Backpressure 100"
      "fst (push_terminal plain_codec (packet_new 1 (encode_terminal_buffer [65] False)) (queue_new Backpressure 100))"]
  by (simp add: sample_queue_def push_def is_terminal_output_def TERMINAL_BUFFER_def queue_new_def)

lemma sample_body: "body plain_codec (packet_new 1 (encode_terminal_buffer [65] False)) = Some [65]"
proof (rule canonical_body [OF plain_codec_laws])
  show "decode_terminal_buffer (pkt_payload (packet_new 1 (encode_terminal_buffer [65] False))) = Some ([65], False)"
    by (simp add: decode_encode)
qed

text \<open>Two takes in a row.\<close>

lemma take_packet_empty:
  assumes "take_packet K q = (None, q')" "queue_ok q fl"
  shows "oq_terminal q = [] \<and> oq_control q = []"
  using take_packet_None [OF assms(1)] promote_terminal_control_ok [OF assms(2), of K]
  by (metis length_0_conv promote_terminal_control_same(1))

lemma take_prefers_control:
  assumes "take_packet K q = (a, q')" "queue_ok q fl" "\<not> oq_prefer_terminal q" "oq_control q \<noteq> []"
  shows "a = Some (hd (oq_control q))"
proof (cases a)
  case None
  then show ?thesis using assms take_packet_empty by blast
next
  case (Some p)
  show ?thesis
  proof (cases rule: take_packet_cases [OF assms(1) [unfolded Some] assms(2), case_names terminal control])
    case (terminal ps q1)
    then show ?thesis using assms(3,4) by simp
  next
    case (control ps q1)
    then show ?thesis using Some by (simp add: promote_terminal_control_same)
  qed
qed

lemma take_prefers_terminal:
  assumes "take_packet K q = (a, q')" "queue_ok q fl" "oq_prefer_terminal q" "oq_terminal q \<noteq> []"
  shows "\<exists>p. a = Some p \<and> is_terminal_output p"
proof (cases a)
  case None
  then show ?thesis using assms take_packet_empty by blast
next
  case (Some p)
  have "oq_terminal (promote_terminal_control K q) \<noteq> []"
    using promote_terminal_control_ok [OF assms(2), of K] assms(4) by (metis length_0_conv)
  then show ?thesis using Some assms(3)
    by (cases rule: take_packet_cases [OF assms(1) [unfolded Some] assms(2), case_names terminal control]) auto
qed

section \<open>Properties\<close>

text \<open>C13: The counters of the queue are exact in every run, with packets in flight, evictions, merges,
  promotions and flushes: each lane's byte and packet counts are those of its queued packets and its
  packets in flight, so completing a packet never underflows, and lanes never mix.\<close>

theorem queue_accounting:
  assumes "queue_run K q fl"
  shows "oq_terminal_bytes q = sum_list (map packet_cost (oq_terminal q @ filter is_terminal_output fl)) \<and>
    oq_terminal_packets q = length (oq_terminal q @ filter is_terminal_output fl) \<and>
    oq_control_bytes q = sum_list (map packet_cost (oq_control q @ filter (\<lambda>p. \<not> is_terminal_output p) fl)) \<and>
    oq_control_packets q = length (oq_control q @ filter (\<lambda>p. \<not> is_terminal_output p) fl) \<and>
    list_all is_terminal_output (oq_terminal q) \<and> list_all (\<lambda>p. \<not> is_terminal_output p) (oq_control q)"
  using queue_run_ok [OF assms] by (simp add: queue_ok_def lane_cost_def list_all_iff)

theorem queue_accounting_witness:
  "oq_terminal_bytes sample_queue = sum_list (map packet_cost (oq_terminal sample_queue @ filter is_terminal_output [])) \<and>
    oq_terminal_packets sample_queue = length (oq_terminal sample_queue @ filter is_terminal_output []) \<and>
    oq_control_bytes sample_queue = sum_list (map packet_cost (oq_control sample_queue @ filter (\<lambda>p. \<not> is_terminal_output p) [])) \<and>
    oq_control_packets sample_queue = length (oq_control sample_queue @ filter (\<lambda>p. \<not> is_terminal_output p) []) \<and>
    list_all is_terminal_output (oq_terminal sample_queue) \<and> list_all (\<lambda>p. \<not> is_terminal_output p) (oq_control sample_queue)"
proof (rule queue_accounting)
  show "queue_run plain_codec sample_queue []" unfolding sample_queue_def by (intro queue_run_push queue_run_new)
qed

text \<open>C16: Admission is bounded: a push leaves each lane within the limit and the packet bound, or no fuller
  than it was, whatever the mode and the outcome; merging into the last packet cannot exceed the
  bound either.\<close>

theorem push_bounded:
  assumes "queue_run K q fl" "oq_limit q < usize_max"
  shows "oq_terminal_bytes (snd (push K p q)) \<le> max (oq_limit q) (oq_terminal_bytes q) \<and>
    oq_terminal_packets (snd (push K p q)) \<le> max MAX_PACKETS_PER_LANE (oq_terminal_packets q) \<and>
    oq_control_bytes (snd (push K p q)) \<le> max (oq_limit q) (oq_control_bytes q) \<and>
    oq_control_packets (snd (push K p q)) \<le> max MAX_PACKETS_PER_LANE (oq_control_packets q)"
proof (cases "is_terminal_output p")
  case True
  have ok: "queue_ok q fl" using assms(1) by (rule queue_run_ok)
  obtain r q' where r: "push_terminal K p q = (r, q')" by fastforce
  then have "snd (push K p q) = q'" using True by (simp add: push_def)
  then show ?thesis using push_terminal_bounded [OF ok True assms(2) r] push_terminal_control [OF r] by simp
next
  case False
  then show ?thesis using assms(2)
    by (auto simp: push_def push_control_def Let_def usize_saturating_add_def)
qed

theorem push_bounded_witness:
  "oq_terminal_bytes (snd (push plain_codec (packet_new 7 [1, 2, 3]) sample_queue)) \<le> max (oq_limit sample_queue) (oq_terminal_bytes sample_queue) \<and>
    oq_terminal_packets (snd (push plain_codec (packet_new 7 [1, 2, 3]) sample_queue)) \<le> max MAX_PACKETS_PER_LANE (oq_terminal_packets sample_queue) \<and>
    oq_control_bytes (snd (push plain_codec (packet_new 7 [1, 2, 3]) sample_queue)) \<le> max (oq_limit sample_queue) (oq_control_bytes sample_queue) \<and>
    oq_control_packets (snd (push plain_codec (packet_new 7 [1, 2, 3]) sample_queue)) \<le> max MAX_PACKETS_PER_LANE (oq_control_packets sample_queue)"
proof (rule push_bounded)
  show "queue_run plain_codec sample_queue []" unfolding sample_queue_def by (intro queue_run_push queue_run_new)
  show "oq_limit sample_queue < usize_max" by (simp add: sample_queue_limit usize_max_def)
qed



text \<open>C15: Flushing on an interrupt refines filtering the text: the bytes left in the lane are exactly those the
  scanner's filter keeps, the count returned is what it dropped, and the control lane is untouched.\<close>

theorem flush_refines_filter:
  assumes "codec_laws K" "lane_text K (oq_terminal q) = Some t" "FLUSH_THRESHOLD \<le> length t"
  shows "lane_text K (oq_terminal (snd (flush_terminal_on_interrupt K q))) = Some (fo_kept (filter_output t (oq_stream q))) \<and>
    fst (flush_terminal_on_interrupt K q) = fo_dropped (filter_output t (oq_stream q)) \<and>
    oq_control (snd (flush_terminal_on_interrupt K q)) = oq_control q"
proof -
  obtain lens flags where b: "lane_bodies K (oq_terminal q) = Some (t, lens, flags)"
    using assms(2) by (auto simp: lane_text_def)
  let ?kept = "fo_kept (filter_output t (oq_stream q))"
  have n: "\<not> (t = [] \<or> length t < FLUSH_THRESHOLD)" using assms(3) by (auto simp: FLUSH_THRESHOLD_def)
  have "length ?kept \<le> sum_list lens" using filter_output_length [of t "oq_stream q"] lane_bodies_length [OF b] by simp
  then have "lane_text K (fst (retain_packets K lens (oq_terminal q) flags ?kept (oq_terminal_bytes q, oq_terminal_packets q))) = Some ?kept"
    using retain_packets_text [OF assms(1)] lane_bodies_length [OF b] by simp
  then show ?thesis using b n by (simp add: flush_terminal_on_interrupt_def filter_terminal_def Let_def case_prod_beta)
qed

theorem flush_refines_filter_witness:
  "\<exists>q t. lane_text plain_codec (oq_terminal q) = Some t \<and> FLUSH_THRESHOLD \<le> length t \<and>
    lane_text plain_codec (oq_terminal (snd (flush_terminal_on_interrupt plain_codec q))) = Some (fo_kept (filter_output t (oq_stream q))) \<and>
    fst (flush_terminal_on_interrupt plain_codec q) = fo_dropped (filter_output t (oq_stream q)) \<and>
    oq_control (snd (flush_terminal_on_interrupt plain_codec q)) = oq_control q"
proof -
  define t :: bytes where "t = replicate FLUSH_THRESHOLD 65"
  define p where "p = packet_new 1 (tb_encode plain_codec \<lparr>tm_buffer = Some t, tm_is_stderr = None\<rparr>)"
  define q where "q = (queue_new Backpressure 100)\<lparr>oq_terminal := [p]\<rparr>"
  have "lane_text plain_codec (oq_terminal q) = Some t" by (simp add: q_def p_def body_encoded)
  moreover have "FLUSH_THRESHOLD \<le> length t" by (simp add: t_def)
  ultimately show ?thesis using flush_refines_filter [of plain_codec q t] by (intro exI [of _ q] exI [of _ t]) simp
qed

text \<open>The lanes are served fairly: within two takes the head of a waiting control lane goes out, and so does
  terminal output if any waits.\<close>

theorem lanes_are_fair:
  assumes "queue_run K q fl" "take_packet K q = (a, q1)" "take_packet K q1 = (b, q2)"
  shows "(oq_control q \<noteq> [] \<longrightarrow> Some (hd (oq_control q)) \<in> {a, b}) \<and>
    (oq_terminal q \<noteq> [] \<longrightarrow> (\<exists>p. is_terminal_output p \<and> Some p \<in> {a, b}))"
proof (cases a)
  case None
  then show ?thesis using assms take_packet_empty queue_run_ok by blast
next
  case (Some p)
  have ok: "queue_ok q fl" using assms(1) by (rule queue_run_ok)
  have ok1: "queue_ok q1 (p # fl)" using take_packet_ok assms(2) Some ok by blast
  have len: "length (oq_terminal (promote_terminal_control K q)) = length (oq_terminal q)"
    using promote_terminal_control_ok [OF ok] by blast
  show ?thesis
  proof (cases rule: take_packet_cases [OF assms(2) [unfolded Some] ok, case_names terminal control])
    case (terminal ps p1)
    have "oq_control q1 = oq_control q" unfolding terminal(5) by (simp add: terminal(1) promote_terminal_control_same)
    moreover have "oq_control q \<noteq> [] \<Longrightarrow> \<not> oq_prefer_terminal q1" using terminal(4) unfolding terminal(5) by simp
    ultimately show ?thesis using take_prefers_control [OF assms(3) ok1] terminal(3) Some by auto
  next
    case (control ps p1)
    have t: "oq_terminal q1 = oq_terminal p1" unfolding control(5) by simp
    have "oq_terminal q \<noteq> [] \<Longrightarrow> oq_terminal q1 \<noteq> []" using len unfolding t control(1) by (metis length_0_conv)
    moreover have "oq_terminal q \<noteq> [] \<Longrightarrow> oq_prefer_terminal q1"
      using control(4) len unfolding control(5) by (auto simp: control(1))
    moreover have "Some (hd (oq_control q)) = a" using control(1,2) Some by (simp add: promote_terminal_control_same)
    ultimately show ?thesis using take_prefers_terminal [OF assms(3) ok1] by auto
  qed
qed

theorem lanes_are_fair_witness:
  "\<exists>p. is_terminal_output p \<and>
    Some p \<in> {fst (take_packet plain_codec sample_queue), fst (take_packet plain_codec (snd (take_packet plain_codec sample_queue)))}"
proof -
  have run: "queue_run plain_codec sample_queue []" unfolding sample_queue_def by (intro queue_run_push queue_run_new)
  obtain a q1 b q2 where t: "take_packet plain_codec sample_queue = (a, q1)" "take_packet plain_codec q1 = (b, q2)" by fastforce
  have "oq_terminal sample_queue \<noteq> []"
    by (simp add: sample_queue_def push_def push_terminal_def queue_new_def skip_through_newline_def fit_terminal_def is_terminal_output_def
        TERMINAL_BUFFER_def packet_cost_def usize_saturating_add_def wire_len_def HEADER_LEN_def FRAME_BYTES_def encode_terminal_buffer_def
        encode_varint.simps usize_max_def Let_def terminal_over_def MAX_PACKETS_PER_LANE_def evict.simps append_terminal_def merge_back_def)
  then show ?thesis using lanes_are_fair [OF run t] t by simp
qed

text \<open>C17: An oversized packet is cut to the longest end of its output whose encoding fits the limit, found by
  binary search.\<close>

theorem truncation_is_longest:
  assumes "codec_laws K" "suffix_fits K bs e limit 0" "tb_decode K (pkt_payload p) = Some \<lparr>tm_buffer = Some bs, tm_is_stderr = e\<rparr>"
  shows "\<exists>n \<le> length bs. truncate_terminal K p limit = Inr (packet_new (pkt_header p) (tb_encode K (suffix_message bs e n))) \<and>
    suffix_fits K bs e limit n \<and> (\<forall>m. n < m \<and> m \<le> length bs \<longrightarrow> \<not> suffix_fits K bs e limit m)"
proof -
  let ?n = "truncate_search (suffix_fits K bs e limit) 0 (length bs)"
  have "\<forall>m n. m \<le> n \<longrightarrow> suffix_fits K bs e limit n \<longrightarrow> suffix_fits K bs e limit m" using suffix_fits_mono [OF assms(1)] by blast
  from truncate_search_spec [OF this, of 0 "length bs"]
  have s: "?n \<le> length bs" "?n = 0 \<or> suffix_fits K bs e limit ?n" "\<forall>m. ?n < m \<and> m \<le> length bs \<longrightarrow> \<not> suffix_fits K bs e limit m" by auto
  moreover have "suffix_fits K bs e limit ?n" using s(2) assms(2) by metis
  moreover have "truncate_terminal K p limit = Inr (packet_new (pkt_header p) (tb_encode K (suffix_message bs e ?n)))"
    using assms(3) by (simp add: truncate_terminal_def Let_def)
  ultimately show ?thesis by blast
qed

theorem truncation_is_longest_witness:
  "\<exists>n \<le> length [1, 2, 3 :: byte]. suffix_fits plain_codec [1, 2, 3] None 10 n \<and>
    truncate_terminal plain_codec (packet_new 1 (tb_encode plain_codec \<lparr>tm_buffer = Some [1, 2, 3], tm_is_stderr = None\<rparr>)) 10 =
      Inr (packet_new 1 (tb_encode plain_codec (suffix_message [1, 2, 3] None n)))"
proof -
  have fits: "suffix_fits plain_codec [1, 2, 3] None 10 0"
    by (simp add: suffix_fits_def suffix_message_def plain_codec_def encode_terminal_buffer_def encode_varint.simps
        usize_saturating_add_def usize_max_def HEADER_LEN_def FRAME_BYTES_def)
  from truncation_is_longest [OF plain_codec_laws fits,
      of "packet_new 1 (tb_encode plain_codec \<lparr>tm_buffer = Some [1, 2, 3], tm_is_stderr = None\<rparr>)"]
  show ?thesis by (auto simp: plain_codec_roundtrip)
qed

end
