(* ===== verification/Output_Window.thy ===== *)
theory Output_Window
  imports Keepalive Crypto
begin

text \<open>
  \<^verbatim>\<open>crates/et-core/src/output_window.rs\<close>: how much unacknowledged terminal output the server lets a client
  have.  Instants and durations are naturals (nanoseconds), so \<^verbatim>\<open>saturating_duration_since\<close> is truncated
  subtraction; \<^verbatim>\<open>u64\<close> counters are naturals with saturating addition; the capacity of the mark deque is
  not observable and left out.
\<close>

section \<open>Definitions\<close>

definition MIN_PIPE_BYTES :: nat where "MIN_PIPE_BYTES = 512 * 1024"

definition PIPE_GAIN :: nat where "PIPE_GAIN = 2"

definition MAX_WINDOW_BYTES :: nat where "MAX_WINDOW_BYTES = 16 * 1024 * 1024"

definition PATIENCE :: nat where "PATIENCE = 10 * 1000000000"

definition PACKET_OVERHEAD :: int where "PACKET_OVERHEAD = 2 + int MAC_LEN"

definition MARK_SPACING :: nat where "MARK_SPACING = 16 * 1024"

definition MARKS_PER_WINDOW :: nat where "MARKS_PER_WINDOW = 64"

definition MAX_MARKS :: nat where "MAX_MARKS = 256"

definition PIPE_SAMPLES :: nat where "PIPE_SAMPLES = 8"

record mark =
  mk_sequence :: int
  mk_sent :: nat
  mk_terminal :: nat
  mk_delivered :: nat
  mk_delivered_at :: nat
  mk_first_sent :: nat

record output_window =
  ow_marks :: "mark list"
  ow_since_mark :: nat
  ow_written :: nat
  ow_delivered :: nat
  ow_terminal_written :: nat
  ow_terminal_delivered :: nat
  ow_delivered_at :: "nat option"
  ow_delivered_sent :: "nat option"
  ow_min_rtt :: "nat option"
  ow_pipe :: "nat list"
  ow_next_pipe :: nat
  ow_ack_written :: "int option"
  ow_peer_reads_acks :: bool
  ow_armed :: bool
  ow_acknowledged_here :: bool
  ow_stalled :: "(int \<times> nat) option"
  ow_released :: "int option"

definition output_window_default :: output_window where
  "output_window_default =
    \<lparr>ow_marks = [], ow_since_mark = 0, ow_written = 0, ow_delivered = 0, ow_terminal_written = 0,
     ow_terminal_delivered = 0, ow_delivered_at = None, ow_delivered_sent = None, ow_min_rtt = None,
     ow_pipe = replicate PIPE_SAMPLES 0, ow_next_pipe = 0, ow_ack_written = None, ow_peer_reads_acks = False,
     ow_armed = False, ow_acknowledged_here = False, ow_stalled = None, ow_released = None\<rparr>"

definition for_new_transport :: "output_window \<Rightarrow> output_window" where
  "for_new_transport w = output_window_default
    \<lparr>ow_written := ow_written w, ow_delivered := ow_delivered w, ow_terminal_written := ow_terminal_written w,
     ow_terminal_delivered := ow_terminal_delivered w, ow_peer_reads_acks := ow_peer_reads_acks w, ow_armed := ow_armed w\<rparr>"

definition seed_round_trip :: "nat \<Rightarrow> output_window \<Rightarrow> output_window" where
  "seed_round_trip rtt w = w\<lparr>ow_min_rtt := Some (case ow_min_rtt w of None \<Rightarrow> rtt | Some m \<Rightarrow> min m rtt)\<rparr>"

definition window :: "output_window \<Rightarrow> nat" where
  "window w =
    (let pipe = (if ow_pipe w = [] then 0 else Max (set (ow_pipe w)));
         pipe' = max (u64_saturating_mul pipe PIPE_GAIN) MIN_PIPE_BYTES
     in min (u64_saturating_add ACK_INTERVAL_BYTES pipe') MAX_WINDOW_BYTES)"

definition unacknowledged_terminal :: "nat \<Rightarrow> output_window \<Rightarrow> nat" where
  "unacknowledged_terminal unacknowledged w = min (ow_terminal_written w - ow_terminal_delivered w) unacknowledged"

definition on_write :: "int \<Rightarrow> nat \<Rightarrow> bool \<Rightarrow> bool \<Rightarrow> nat \<Rightarrow> output_window \<Rightarrow> output_window" where
  "on_write sequence len terminal carries_ack now w =
    (let w1 = w\<lparr>ow_written := u64_saturating_add (ow_written w) len\<rparr>;
         w2 = (if terminal then w1\<lparr>ow_terminal_written := u64_saturating_add (ow_terminal_written w1) len\<rparr> else w1);
         w3 = (if carries_ack \<and> ow_ack_written w2 = None then w2\<lparr>ow_ack_written := Some sequence\<rparr> else w2)
     in if \<not> ow_acknowledged_here w3 then w3
        else
          let spacing = max (window w3 div MARKS_PER_WINDOW) MARK_SPACING;
              w4 = (if ow_marks w3 = [] \<or> spacing \<le> ow_since_mark w3
                then w3\<lparr>ow_marks := (if length (ow_marks w3) = MAX_MARKS then tl (ow_marks w3) else ow_marks w3) @
                          [\<lparr>mk_sequence = sequence, mk_sent = now, mk_terminal = ow_terminal_written w3,
                            mk_delivered = ow_delivered w3,
                            mk_delivered_at = (case ow_delivered_at w3 of Some t \<Rightarrow> t | None \<Rightarrow> now),
                            mk_first_sent = (case ow_delivered_sent w3 of Some t \<Rightarrow> t | None \<Rightarrow> now)\<rparr>],
                        ow_since_mark := 0\<rparr>
                else w3)
          in w4\<lparr>ow_since_mark := u64_saturating_add (ow_since_mark w4) len\<rparr>)"

text \<open>The loop that drops the acknowledged marks, keeping the newest of them.\<close>

fun pop_marks :: "int \<Rightarrow> mark list \<Rightarrow> mark option \<Rightarrow> mark option \<times> mark list" where
  "pop_marks acknowledged [] newest = (newest, [])"
| "pop_marks acknowledged (m # ms) newest =
    (if acknowledged < mk_sequence m then (newest, m # ms) else pop_marks acknowledged ms (Some m))"

text \<open>The bandwidth-delay sample of an acknowledgement.\<close>

definition sample_pipe :: "mark \<Rightarrow> nat \<Rightarrow> nat \<Rightarrow> nat \<Rightarrow> output_window \<Rightarrow> output_window" where
  "sample_pipe m seeded delivered now w =
    (let min_rtt = min seeded (now - mk_sent m);
         span = max (now - mk_delivered_at m) (mk_sent m - mk_first_sent m);
         bs = delivered - mk_delivered m;
         w1 = w\<lparr>ow_min_rtt := Some min_rtt\<rparr>
     in if span = 0 then w1
        else w1\<lparr>ow_pipe := (ow_pipe w1)[ow_next_pipe w1 := min (bs * min_rtt div span) u64_max],
                ow_next_pipe := (ow_next_pipe w1 + 1) mod PIPE_SAMPLES\<rparr>)"

definition on_ack :: "int \<Rightarrow> nat \<Rightarrow> nat \<Rightarrow> output_window \<Rightarrow> output_window" where
  "on_ack acknowledged unacknowledged now w =
    (let delivered = ow_written w - unacknowledged;
         (newest, marks) = pop_marks acknowledged (ow_marks w) None;
         w1 = w\<lparr>ow_marks := marks\<rparr>;
         w2 = (case (newest, ow_min_rtt w1) of (Some m, Some seeded) \<Rightarrow> sample_pipe m seeded delivered now w1 | _ \<Rightarrow> w1);
         w3 = (case newest of
                 Some m \<Rightarrow> w2\<lparr>ow_terminal_delivered := max (ow_terminal_delivered w2) (mk_terminal m), ow_delivered_sent := Some (mk_sent m)\<rparr>
               | None \<Rightarrow> w2);
         w4 = (if ow_delivered w3 < delivered \<or> ow_delivered_at w3 = None
               then w3\<lparr>ow_delivered := max (ow_delivered w3) delivered, ow_delivered_at := Some now\<rparr> else w3);
         w5 = w4\<lparr>ow_acknowledged_here := True\<rparr>;
         w6 = (if (case ow_ack_written w5 of Some sequence \<Rightarrow> sequence \<le> acknowledged | None \<Rightarrow> False)
               then w5\<lparr>ow_peer_reads_acks := True\<rparr> else w5)
     in if ow_peer_reads_acks w6 \<and> window w6 \<le> unacknowledged_terminal unacknowledged w6
        then w6\<lparr>ow_armed := True\<rparr> else w6)"

definition blocked :: "int \<Rightarrow> nat \<Rightarrow> nat \<Rightarrow> output_window \<Rightarrow> nat option \<times> output_window" where
  "blocked acknowledged unacknowledged now w =
    (if \<not> ow_armed w \<or> \<not> ow_acknowledged_here w then (None, w\<lparr>ow_stalled := None\<rparr>)
     else if (case ow_released w of Some released \<Rightarrow> acknowledged \<le> released | None \<Rightarrow> False) then (None, w)
     else
       let w1 = w\<lparr>ow_released := None\<rparr> in
       if unacknowledged_terminal unacknowledged w1 < window w1 then (None, w1\<lparr>ow_stalled := None\<rparr>)
       else (case ow_stalled w1 of
               Some (seen, since) \<Rightarrow>
                 if seen = acknowledged
                 then if PATIENCE \<le> now - since
                   then (None, w1\<lparr>ow_released := Some acknowledged, ow_stalled := None\<rparr>)
                   else (Some (since + PATIENCE), w1)
                 else (Some (now + PATIENCE), w1\<lparr>ow_stalled := Some (acknowledged, now)\<rparr>)
             | None \<Rightarrow> (Some (now + PATIENCE), w1\<lparr>ow_stalled := Some (acknowledged, now)\<rparr>)))"

definition unacknowledged_payload :: "int \<Rightarrow> int \<Rightarrow> int \<Rightarrow> nat" where
  "unacknowledged_payload acknowledged unacknowledged_wire sequence =
    (let packets = max (i64_saturating (sequence - acknowledged)) 0;
         payload = i64_saturating (unacknowledged_wire - i64_saturating (packets * PACKET_OVERHEAD))
     in nat payload)"

section \<open>Bounds of the window\<close>

lemma window_bounds: "ACK_INTERVAL_BYTES + MIN_PIPE_BYTES \<le> window w \<and> window w \<le> MAX_WINDOW_BYTES"
  by (auto simp: window_def Let_def u64_saturating_add_def u64_max_def ACK_INTERVAL_BYTES_def MIN_PIPE_BYTES_def MAX_WINDOW_BYTES_def)

text \<open>A client that has acknowledged all but one acknowledgement interval is never held back.\<close>

lemma reading_client_reopens:
  assumes "unacknowledged \<le> ACK_INTERVAL_BYTES"
  shows "fst (blocked acknowledged unacknowledged now w) = None"
proof -
  have "unacknowledged_terminal unacknowledged v < window v" for v
    using assms window_bounds [of v] by (auto simp: unacknowledged_terminal_def MIN_PIPE_BYTES_def)
  then show ?thesis by (simp add: blocked_def Let_def)
qed

section \<open>Invariant\<close>

definition window_ok :: "output_window \<Rightarrow> bool" where
  "window_ok w \<longleftrightarrow> length (ow_pipe w) = PIPE_SAMPLES \<and> ow_next_pipe w < PIPE_SAMPLES \<and> length (ow_marks w) \<le> MAX_MARKS \<and>
     ow_delivered w \<le> ow_written w \<and> ow_terminal_delivered w \<le> ow_terminal_written w \<and> ow_terminal_written w \<le> ow_written w \<and>
     (\<forall>m \<in> set (ow_marks w). mk_terminal m \<le> ow_terminal_written w \<and> mk_delivered m \<le> ow_written w)"

lemma window_ok_frame [simp]:
  "window_ok (w\<lparr>ow_since_mark := a\<rparr>) = window_ok w" "window_ok (w\<lparr>ow_delivered_at := b\<rparr>) = window_ok w"
  "window_ok (w\<lparr>ow_delivered_sent := b\<rparr>) = window_ok w" "window_ok (w\<lparr>ow_min_rtt := b\<rparr>) = window_ok w"
  "window_ok (w\<lparr>ow_ack_written := c\<rparr>) = window_ok w" "window_ok (w\<lparr>ow_peer_reads_acks := d\<rparr>) = window_ok w"
  "window_ok (w\<lparr>ow_armed := d\<rparr>) = window_ok w" "window_ok (w\<lparr>ow_acknowledged_here := d\<rparr>) = window_ok w"
  "window_ok (w\<lparr>ow_stalled := e\<rparr>) = window_ok w" "window_ok (w\<lparr>ow_released := c\<rparr>) = window_ok w"
  by (simp_all add: window_ok_def)

lemma window_ok_default: "window_ok output_window_default"
  by (simp add: window_ok_def output_window_default_def PIPE_SAMPLES_def MAX_MARKS_def)

lemma window_ok_new_transport: "window_ok w \<Longrightarrow> window_ok (for_new_transport w)"
  by (simp add: window_ok_def for_new_transport_def output_window_default_def PIPE_SAMPLES_def MAX_MARKS_def)

lemma u64_saturating_add_le: "a \<le> u64_saturating_add a b \<or> u64_max < a"
  by (auto simp: u64_saturating_add_def)

lemma window_ok_written:
  assumes "window_ok w" "ow_written w \<le> u64_max"
  shows "window_ok (w\<lparr>ow_written := u64_saturating_add (ow_written w) len\<rparr>)"
    "window_ok (w\<lparr>ow_written := u64_saturating_add (ow_written w) len, ow_terminal_written := u64_saturating_add (ow_terminal_written w) len\<rparr>)"
proof -
  have "ow_terminal_written w \<le> u64_max" using assms by (simp add: window_ok_def)
  then have "ow_written w \<le> u64_saturating_add (ow_written w) len" "ow_terminal_written w \<le> u64_saturating_add (ow_terminal_written w) len"
    "u64_saturating_add (ow_terminal_written w) len \<le> u64_saturating_add (ow_written w) len"
    using assms by (auto simp: u64_saturating_add_def window_ok_def)
  then show "window_ok (w\<lparr>ow_written := u64_saturating_add (ow_written w) len\<rparr>)"
    "window_ok (w\<lparr>ow_written := u64_saturating_add (ow_written w) len, ow_terminal_written := u64_saturating_add (ow_terminal_written w) len\<rparr>)"
    using assms(1) unfolding window_ok_def by fastforce+
qed

lemma window_ok_mark:
  assumes "window_ok w" "mk_terminal m \<le> ow_terminal_written w" "mk_delivered m \<le> ow_written w"
  shows "window_ok (w\<lparr>ow_marks := (if length (ow_marks w) = MAX_MARKS then tl (ow_marks w) else ow_marks w) @ [m], ow_since_mark := 0\<rparr>)"
  using assms by (auto simp: window_ok_def MAX_MARKS_def dest: list.set_sel(2) [rotated])

text \<open>A write in three parts: the counters, the first keep-alive with an acknowledgement, and the mark.\<close>

lemma on_write_ok:
  assumes "window_ok w" "ow_written w \<le> u64_max"
  shows "window_ok (on_write sequence len terminal carries_ack now w) \<and> ow_written (on_write sequence len terminal carries_ack now w) \<le> u64_max"
proof -
  define w1 where "w1 = w\<lparr>ow_written := u64_saturating_add (ow_written w) len\<rparr>"
  define w2 where "w2 = (if terminal then w1\<lparr>ow_terminal_written := u64_saturating_add (ow_terminal_written w1) len\<rparr> else w1)"
  define w3 where "w3 = (if carries_ack \<and> ow_ack_written w2 = None then w2\<lparr>ow_ack_written := Some sequence\<rparr> else w2)"
  define m where "m = \<lparr>mk_sequence = sequence, mk_sent = now, mk_terminal = ow_terminal_written w3, mk_delivered = ow_delivered w3,
    mk_delivered_at = (case ow_delivered_at w3 of Some t \<Rightarrow> t | None \<Rightarrow> now), mk_first_sent = (case ow_delivered_sent w3 of Some t \<Rightarrow> t | None \<Rightarrow> now)\<rparr>"
  define w4 where "w4 = (if ow_marks w3 = [] \<or> max (window w3 div MARKS_PER_WINDOW) MARK_SPACING \<le> ow_since_mark w3
    then w3\<lparr>ow_marks := (if length (ow_marks w3) = MAX_MARKS then tl (ow_marks w3) else ow_marks w3) @ [m], ow_since_mark := 0\<rparr> else w3)"
  have eq: "on_write sequence len terminal carries_ack now w =
      (if \<not> ow_acknowledged_here w3 then w3 else w4\<lparr>ow_since_mark := u64_saturating_add (ow_since_mark w4) len\<rparr>)"
    unfolding on_write_def Let_def w4_def m_def w3_def w2_def w1_def by (rule refl)
  have w2: "window_ok w2" "ow_written w2 \<le> u64_max"
    using window_ok_written [OF assms, of len] by (simp_all add: w2_def w1_def u64_saturating_add_def)
  then have w3: "window_ok w3" "ow_written w3 \<le> u64_max" by (simp_all add: w3_def)
  have "window_ok w4" "ow_written w4 \<le> u64_max"
    using w3 window_ok_mark [OF w3(1), of m] by (simp_all add: w4_def m_def window_ok_def)
  then show ?thesis using w3 unfolding eq by simp
qed

lemma pop_marks_subset:
  assumes "pop_marks acknowledged ms newest = (n, ms')"
  shows "suffix ms' ms \<and> (n = newest \<or> (\<exists>m \<in> set ms. n = Some m))"
  using assms
proof (induction ms arbitrary: newest)
  case (Cons m ms)
  then show ?case by (auto split: if_splits intro: suffix_ConsI)
qed simp

lemma sample_pipe_ok: "window_ok w \<Longrightarrow> window_ok (sample_pipe m seeded delivered now w)"
  by (simp add: sample_pipe_def Let_def window_ok_def PIPE_SAMPLES_def)

lemma sample_pipe_same:
  "ow_written (sample_pipe m seeded delivered now w) = ow_written w" "ow_terminal_written (sample_pipe m seeded delivered now w) = ow_terminal_written w"
  "ow_delivered (sample_pipe m seeded delivered now w) = ow_delivered w"
  by (simp_all add: sample_pipe_def Let_def)

lemma on_ack_ok:
  assumes "window_ok w"
  shows "window_ok (on_ack acknowledged unacknowledged now w) \<and> ow_written (on_ack acknowledged unacknowledged now w) = ow_written w"
proof -
  obtain newest marks where pop: "pop_marks acknowledged (ow_marks w) None = (newest, marks)" by fastforce
  define delivered where "delivered = ow_written w - unacknowledged"
  define w1 where "w1 = w\<lparr>ow_marks := marks\<rparr>"
  define w2 where "w2 = (case (newest, ow_min_rtt w1) of (Some m, Some seeded) \<Rightarrow> sample_pipe m seeded delivered now w1 | _ \<Rightarrow> w1)"
  define w3 where "w3 = (case newest of
       Some m \<Rightarrow> w2\<lparr>ow_terminal_delivered := max (ow_terminal_delivered w2) (mk_terminal m), ow_delivered_sent := Some (mk_sent m)\<rparr> | None \<Rightarrow> w2)"
  define w4 where "w4 = (if ow_delivered w3 < delivered \<or> ow_delivered_at w3 = None
       then w3\<lparr>ow_delivered := max (ow_delivered w3) delivered, ow_delivered_at := Some now\<rparr> else w3)"
  define w5 where "w5 = w4\<lparr>ow_acknowledged_here := True\<rparr>"
  define w6 where "w6 = (if (case ow_ack_written w5 of Some sequence \<Rightarrow> sequence \<le> acknowledged | None \<Rightarrow> False)
       then w5\<lparr>ow_peer_reads_acks := True\<rparr> else w5)"
  have eq: "on_ack acknowledged unacknowledged now w =
      (if ow_peer_reads_acks w6 \<and> window w6 \<le> unacknowledged_terminal unacknowledged w6 then w6\<lparr>ow_armed := True\<rparr> else w6)"
    unfolding on_ack_def Let_def pop prod.case w1_def w2_def w3_def w4_def w5_def w6_def delivered_def by (rule refl)
  have marks: "set marks \<subseteq> set (ow_marks w)" "length marks \<le> length (ow_marks w)" "\<And>m. newest = Some m \<Longrightarrow> m \<in> set (ow_marks w)"
    using pop_marks_subset [OF pop] set_mono_suffix suffix_length_le by auto
  have "window_ok w1" using assms marks(1,2) unfolding w1_def window_ok_def by fastforce
  moreover have "ow_written w1 = ow_written w" "ow_terminal_written w1 = ow_terminal_written w" "ow_delivered w1 = ow_delivered w" by (simp_all add: w1_def)
  ultimately have w2: "window_ok w2" "ow_written w2 = ow_written w" "ow_terminal_written w2 = ow_terminal_written w"
    using sample_pipe_ok sample_pipe_same by (simp_all add: w2_def split: option.split)
  have "window_ok w3" "ow_written w3 = ow_written w"
    using w2 assms marks(3) by (auto simp: w3_def window_ok_def split: option.split)
  then have "window_ok w4" "ow_written w4 = ow_written w"
    by (auto simp: w4_def window_ok_def delivered_def)
  then have "window_ok w6" "ow_written w6 = ow_written w" by (simp_all add: w5_def w6_def)
  then show ?thesis unfolding eq by simp
qed

lemma blocked_ok: "window_ok (snd (blocked a u now w)) = window_ok w \<and> ow_written (snd (blocked a u now w)) = ow_written w"
  by (simp add: blocked_def Let_def split: option.split prod.split)

inductive window_run :: "output_window \<Rightarrow> bool" where
  window_run_default: "window_run output_window_default"
| window_run_transport: "window_run w \<Longrightarrow> window_run (for_new_transport w)"
| window_run_seed: "window_run w \<Longrightarrow> window_run (seed_round_trip rtt w)"
| window_run_write: "window_run w \<Longrightarrow> window_run (on_write sequence len terminal carries_ack now w)"
| window_run_ack: "window_run w \<Longrightarrow> window_run (on_ack acknowledged unacknowledged now w)"
| window_run_blocked: "window_run w \<Longrightarrow> window_run (snd (blocked acknowledged unacknowledged now w))"

lemma window_run_ok: "window_run w \<Longrightarrow> window_ok w \<and> ow_written w \<le> u64_max"
proof (induction rule: window_run.induct)
  case window_run_default
  then show ?case using window_ok_default by (simp add: output_window_default_def)
next
  case (window_run_transport w)
  then show ?case using window_ok_new_transport by (simp add: for_new_transport_def)
next
  case (window_run_seed w rtt)
  then show ?case by (simp add: seed_round_trip_def)
next
  case (window_run_write w sequence len terminal carries_ack now)
  then show ?case using on_write_ok by blast
next
  case (window_run_ack w acknowledged unacknowledged now)
  then show ?case using on_ack_ok by metis
next
  case (window_run_blocked w acknowledged unacknowledged now)
  then show ?case using blocked_ok by metis
qed

section \<open>Waiting for an acknowledgement\<close>

text \<open>A series of polls while the acknowledgement stays put: unacknowledged bytes and time of each.\<close>

fun polls :: "int \<Rightarrow> (nat \<times> nat) list \<Rightarrow> output_window \<Rightarrow> nat option list \<times> output_window" where
  "polls acknowledged [] w = ([], w)"
| "polls acknowledged ((unacknowledged, now) # ps) w =
    (let (r, w') = blocked acknowledged unacknowledged now w; (rs, w'') = polls acknowledged ps w' in (r # rs, w''))"

definition stalled_at :: "int \<Rightarrow> nat \<Rightarrow> output_window \<Rightarrow> bool" where
  "stalled_at a since w \<longleftrightarrow> ow_stalled w = Some (a, since) \<and> ow_released w = None"

lemma blocked_Some:
  assumes "blocked a u now w = (Some d, w')"
  shows "\<exists>since. d = since + PATIENCE \<and> stalled_at a since w'"
  using assms by (auto simp: blocked_def Let_def stalled_at_def split: if_splits option.splits)

lemma blocked_stalled:
  assumes "stalled_at a since w" "blocked a u now w = (r, w')"
  shows "r = None \<or> (r = Some (since + PATIENCE) \<and> stalled_at a since w' \<and> now < since + PATIENCE)"
  using assms by (auto simp: blocked_def Let_def stalled_at_def split: if_splits option.splits)

lemma polls_stalled:
  assumes "stalled_at a since w" "None \<notin> set (fst (polls a ps w))"
  shows "stalled_at a since (snd (polls a ps w))"
  using assms
proof (induction ps arbitrary: w)
  case (Cons p ps)
  obtain u now where p: "p = (u, now)" by (cases p)
  obtain r w' where b: "blocked a u now w = (r, w')" by fastforce
  have "r \<in> set (fst (polls a (p # ps) w))" using p b by (simp add: case_prod_beta)
  then have "r \<noteq> None" using Cons.prems(2) by metis
  then have "stalled_at a since w'" using blocked_stalled [OF Cons.prems(1) b] by blast
  then show ?case using Cons.IH [of w'] Cons.prems(2) p b by (auto simp: case_prod_beta)
qed simp

lemma released_stays:
  assumes "ow_released w = Some r" "list_all (\<lambda>(a, u, now). a \<le> r) calls"
  shows "ow_released (fold (\<lambda>(a, u, now) w. snd (blocked a u now w)) calls w) = Some r"
  using assms by (induction calls arbitrary: w) (auto simp: blocked_def)

lemma released_open: "ow_released w = Some r \<Longrightarrow> a \<le> r \<Longrightarrow> fst (blocked a u now w) = None"
  by (simp add: blocked_def)

section \<open>Properties\<close>

text \<open>C29: In every run the window is between 1 MiB and 16 MiB, the sample ring is always indexed in range, at
  most 256 write marks are kept, and no more is counted as delivered than was written, in total and
  for terminal output.\<close>

theorem output_window_invariant:
  assumes "window_run w"
  shows "1024 * 1024 \<le> window w \<and> window w \<le> 16 * 1024 * 1024 \<and> ow_next_pipe w < length (ow_pipe w) \<and>
    length (ow_marks w) \<le> 256 \<and> ow_delivered w \<le> ow_written w \<and> ow_terminal_delivered w \<le> ow_terminal_written w \<and>
    ow_terminal_written w \<le> ow_written w"
  using window_run_ok [OF assms] window_bounds [of w]
  by (simp add: window_ok_def MAX_MARKS_def ACK_INTERVAL_BYTES_def MIN_PIPE_BYTES_def MAX_WINDOW_BYTES_def)

theorem output_window_invariant_witness:
  "1024 * 1024 \<le> window (on_write 1 10 True False 5 output_window_default) \<and>
    window (on_write 1 10 True False 5 output_window_default) \<le> 16 * 1024 * 1024 \<and>
    ow_next_pipe (on_write 1 10 True False 5 output_window_default) < length (ow_pipe (on_write 1 10 True False 5 output_window_default))"
  using output_window_invariant [OF window_run_write [OF window_run_default], of 1 10 True False 5] by blast

text \<open>The bound can never wedge output: when a poll says output must wait until a time d, then a poll at d or
  later, with the acknowledgement still the same and output held by every poll in between, lets output
  go; and once released it stays open at every later poll until an acknowledgement beyond it arrives.\<close>

theorem release_time_kept:
  assumes "blocked a u t w = (Some d, w0)" "None \<notin> set (fst (polls a ps w0))" "d \<le> now"
    and "ow_released w2 = Some r" "list_all (\<lambda>(a', u', t'). a' \<le> r) calls" "a'' \<le> r"
  shows "fst (blocked a u' now (snd (polls a ps w0))) = None \<and>
    fst (blocked a'' u'' t'' (fold (\<lambda>(a', u', t') w. snd (blocked a' u' t' w)) calls w2)) = None"
proof -
  obtain since where d: "d = since + PATIENCE" "stalled_at a since w0" using blocked_Some [OF assms(1)] by blast
  have "stalled_at a since (snd (polls a ps w0))" using polls_stalled [OF d(2) assms(2)] .
  then have "fst (blocked a u' now (snd (polls a ps w0))) = None"
    using blocked_stalled [OF _ prod.collapse [symmetric], of a since "snd (polls a ps w0)" u' now] assms(3) d(1)
    by (metis not_le)
  then show ?thesis using released_stays [OF assms(4,5)] released_open assms(6) by blast
qed

definition held_window :: output_window where
  "held_window = output_window_default\<lparr>ow_armed := True, ow_acknowledged_here := True, ow_terminal_written := 2000000, ow_written := 2000000\<rparr>"

lemma held_window_blocked: "blocked 0 2000000 5 held_window = (Some (5 + PATIENCE), held_window\<lparr>ow_stalled := Some (0, 5)\<rparr>)"
  by (simp add: blocked_def held_window_def output_window_default_def Let_def unacknowledged_terminal_def window_def PIPE_SAMPLES_def
      u64_saturating_mul_def u64_saturating_add_def u64_max_def ACK_INTERVAL_BYTES_def MIN_PIPE_BYTES_def MAX_WINDOW_BYTES_def)

theorem release_time_kept_witness:
  "fst (blocked 0 2000000 5 held_window) = Some (5 + PATIENCE) \<and>
   fst (blocked 0 2000000 (6 + PATIENCE) (held_window\<lparr>ow_stalled := Some (0, 5)\<rparr>)) = None \<and>
   fst (blocked 2 2000000 7 (held_window\<lparr>ow_released := Some 3\<rparr>)) = None"
  using release_time_kept [OF held_window_blocked, of "[]" "6 + PATIENCE" "held_window\<lparr>ow_released := Some 3\<rparr>" 3 "[]" 2 2000000 2000000 7]
    held_window_blocked by simp

end
