(* ===== verification/Std_Text.thy ===== *)
theory Std_Text
  imports Crypto
begin

text \<open>
  Text operations of the Rust standard library that several parsers use: decimal and
  hexadecimal printing, parsing of unsigned integers, and the printed forms of IP addresses.  Strings are
  byte strings in UTF-8.
\<close>

section \<open>Definitions\<close>

definition hex_char :: "nat \<Rightarrow> byte" where
  "hex_char d = (if d < 10 then word_of_nat (48 + d) else word_of_nat (87 + d))"

fun print_hex :: "nat \<Rightarrow> bytes" where
  "print_hex n = (if n < 16 then [hex_char n] else print_hex (n div 16) @ [hex_char (n mod 16)])"

definition is_ascii_digit :: "byte \<Rightarrow> bool" where
  "is_ascii_digit b \<longleftrightarrow> 48 \<le> b \<and> b \<le> 57"

text \<open>\<^verbatim>\<open>str::parse\<close> for an unsigned integer type with the given largest value: an optional plus sign, then at
  least one digit, without overflow.\<close>

definition parse_digit :: "nat \<Rightarrow> byte \<Rightarrow> nat option \<Rightarrow> nat option" where
  "parse_digit limit b acc = (case acc of None \<Rightarrow> None
     | Some v \<Rightarrow> if is_ascii_digit b \<and> 10 * v + (unat b - 48) \<le> limit then Some (10 * v + (unat b - 48)) else None)"

definition parse_unsigned :: "nat \<Rightarrow> bytes \<Rightarrow> nat option" where
  "parse_unsigned limit s =
    (let digits = (case s of b # r \<Rightarrow> if b = 43 \<and> r \<noteq> [] then r else s | [] \<Rightarrow> s) in
     if digits = [] then None else fold (parse_digit limit) digits (Some 0))"

definition print_ipv4 :: "bytes \<Rightarrow> bytes" where
  "print_ipv4 ip = dec_nat (unat (ip ! 0)) @ [46] @ dec_nat (unat (ip ! 1)) @ [46] @
     dec_nat (unat (ip ! 2)) @ [46] @ dec_nat (unat (ip ! 3))"

text \<open>\<^verbatim>\<open>Ipv6Addr\<close>: IPv4-mapped addresses in mixed form, otherwise the first longest run of at least two zero
  segments is compressed.\<close>

definition ipv6_segments :: "bytes \<Rightarrow> nat list" where
  "ipv6_segments octets = map (\<lambda>i. 256 * unat (octets ! (2 * i)) + unat (octets ! (2 * i + 1))) [0..<8]"

fun longest_zeroes :: "nat list \<Rightarrow> nat \<Rightarrow> nat \<times> nat \<Rightarrow> nat \<times> nat \<Rightarrow> nat \<times> nat" where
  "longest_zeroes [] i cur longest = longest"
| "longest_zeroes (s # ss) i (start, len) longest =
    (if s = 0 then
       let cur = ((if len = 0 then i else start), len + 1)
       in longest_zeroes ss (i + 1) cur (if snd longest < snd cur then cur else longest)
     else longest_zeroes ss (i + 1) (0, 0) longest)"

fun join_hex :: "nat list \<Rightarrow> bytes" where
  "join_hex [] = []"
| "join_hex [s] = print_hex s"
| "join_hex (s # ss) = print_hex s @ [58] @ join_hex ss"

definition print_ipv6 :: "bytes \<Rightarrow> bytes" where
  "print_ipv6 octets =
    (if take 12 octets = [0, 0, 0, 0, 0, 0, 0, 0, 0, 0, 255, 255]
     then ascii ''::ffff:'' @ print_ipv4 (drop 12 octets)
     else let segments = ipv6_segments octets; (start, len) = longest_zeroes segments 0 (0, 0) (0, 0)
       in if 1 < len then join_hex (take start segments) @ ascii ''::'' @ join_hex (drop (start + len) segments)
          else join_hex segments)"

section \<open>Facts\<close>

declare dec_nat.simps [simp del] print_hex.simps [simp del]

lemma dec_nat_nonempty [simp]: "dec_nat n \<noteq> []"
  by (simp add: dec_nat.simps [of n])

lemma digit_byte:
  assumes "d < 10"
  shows "unat (word_of_nat (48 + d) :: byte) - 48 = d" "is_ascii_digit (word_of_nat (48 + d))"
proof -
  have "unat (word_of_nat (48 + d) :: byte) = 48 + d" using assms by (subst unat_of_nat) simp
  then show "unat (word_of_nat (48 + d) :: byte) - 48 = d" "is_ascii_digit (word_of_nat (48 + d))"
    using assms by (simp_all only: is_ascii_digit_def word_le_nat_alt) simp_all
qed

lemma dec_nat_all_digits: "b \<in> set (dec_nat n) \<Longrightarrow> is_ascii_digit b"
proof (induction n rule: dec_nat.induct)
  case (1 n)
  then show ?case using digit_byte(2) [of n] digit_byte(2) [of "n mod 10"]
    by (auto simp: dec_nat.simps [of n] simp del: of_nat_add split: if_splits)
qed

lemma parse_digits_print:
  assumes "n \<le> limit"
  shows "fold (parse_digit limit) (dec_nat n) (Some 0) = Some n"
  using assms
proof (induction n rule: dec_nat.induct)
  case (1 n)
  note d = digit_byte
  show ?case
  proof (cases "n < 10")
    case True
    then show ?thesis using d [OF True] 1(2) by (simp add: dec_nat.simps [of n] parse_digit_def del: of_nat_add)
  next
    case False
    have ih: "fold (parse_digit limit) (dec_nat (n div 10)) (Some 0) = Some (n div 10)"
      by (rule 1(1) [OF False]) (use 1(2) div_le_dividend le_trans in blast)
    have "parse_digit limit (word_of_nat (48 + n mod 10)) (Some (n div 10)) = Some n"
      using d [of "n mod 10"] 1(2) by (simp add: parse_digit_def del: of_nat_add)
    then show ?thesis using False ih by (simp add: dec_nat.simps [of n] del: of_nat_add)
  qed
qed

lemma parse_unsigned_print: "n \<le> limit \<Longrightarrow> parse_unsigned limit (dec_nat n) = Some n"
proof -
  assume n: "n \<le> limit"
  obtain b r where p: "dec_nat n = b # r" by (cases "dec_nat n") auto
  have "is_ascii_digit b" using dec_nat_all_digits [of b n] p by simp
  then have "b \<noteq> 43" by (auto simp: is_ascii_digit_def)
  then show ?thesis using parse_digits_print [OF n] p by (simp add: parse_unsigned_def)
qed

end
