(* ===== verification/Socks.thy ===== *)
theory Socks
  imports Std_Text
begin

text \<open>
  \<^verbatim>\<open>crates/et-net/src/socks.rs\<close>: the incremental SOCKS4/SOCKS5 CONNECT parser of dynamic forwarding.  Reads of
  \<^verbatim>\<open>input[i]\<close> happen only under the length checks written out here.
\<close>

section \<open>Definitions\<close>

definition SOCKS4_VERSION :: byte where "SOCKS4_VERSION = 0x04"
definition SOCKS4_CONNECT :: byte where "SOCKS4_CONNECT = 0x01"
definition SOCKS4_GRANTED :: byte where "SOCKS4_GRANTED = 0x5a"
definition SOCKS4_REJECTED :: byte where "SOCKS4_REJECTED = 0x5b"
definition SOCKS5_VERSION :: byte where "SOCKS5_VERSION = 0x05"
definition SOCKS5_NOAUTH :: byte where "SOCKS5_NOAUTH = 0x00"
definition SOCKS5_NO_ACCEPTABLE :: byte where "SOCKS5_NO_ACCEPTABLE = 0xff"
definition SOCKS5_CONNECT :: byte where "SOCKS5_CONNECT = 0x01"
definition SOCKS5_IPV4 :: byte where "SOCKS5_IPV4 = 0x01"
definition SOCKS5_DOMAIN :: byte where "SOCKS5_DOMAIN = 0x03"
definition SOCKS5_IPV6 :: byte where "SOCKS5_IPV6 = 0x04"
definition SOCKS5_SUCCESS :: byte where "SOCKS5_SUCCESS = 0x00"
definition SOCKS5_CONN_REFUSED :: byte where "SOCKS5_CONN_REFUSED = 0x05"
definition MAX_HANDSHAKE :: nat where "MAX_HANDSHAKE = 4096"
definition MAX_IDENT :: nat where "MAX_IDENT = 255"

lemmas socks_consts = SOCKS4_VERSION_def SOCKS4_CONNECT_def SOCKS4_GRANTED_def SOCKS4_REJECTED_def SOCKS5_VERSION_def
  SOCKS5_NOAUTH_def SOCKS5_NO_ACCEPTABLE_def SOCKS5_CONNECT_def SOCKS5_IPV4_def SOCKS5_DOMAIN_def SOCKS5_IPV6_def
  SOCKS5_SUCCESS_def SOCKS5_CONN_REFUSED_def MAX_HANDSHAKE_def MAX_IDENT_def

datatype socks_parse_status = NeedMore | Complete | Error

record socket_endpoint =
  ep_name :: "bytes option"
  ep_port :: "nat option"

record socks_handshake =
  sh_input :: bytes
  sh_reply :: bytes
  sh_destination :: socket_endpoint
  sh_error :: "string option"
  sh_socks5_auth_done :: bool
  sh_complete :: bool
  sh_version :: byte
  sh_early_data :: bytes

definition socks_default :: socks_handshake where
  "socks_default = \<lparr>sh_input = [], sh_reply = [], sh_destination = \<lparr>ep_name = None, ep_port = None\<rparr>, sh_error = None,
     sh_socks5_auth_done = False, sh_complete = False, sh_version = 0, sh_early_data = []\<rparr>"

definition socks_push :: "bytes \<Rightarrow> socks_handshake \<Rightarrow> socks_handshake" where
  "socks_push bs s = s\<lparr>sh_input := sh_input s @ bs\<rparr>"

definition socks_connect_reply :: "byte \<Rightarrow> bool \<Rightarrow> bytes" where
  "socks_connect_reply version success =
    (if version = SOCKS4_VERSION
     then (replicate 8 0)[1 := if success then SOCKS4_GRANTED else SOCKS4_REJECTED]
     else [SOCKS5_VERSION, if success then SOCKS5_SUCCESS else SOCKS5_CONN_REFUSED, 0, SOCKS5_IPV4] @ replicate 6 0)"

definition u16_be :: "byte \<Rightarrow> byte \<Rightarrow> nat" where
  "u16_be hi lo = 256 * unat hi + unat lo"

definition socks_error :: "string \<Rightarrow> socks_handshake \<Rightarrow> socks_parse_status \<times> socks_handshake" where
  "socks_error what s = (Error, s\<lparr>sh_error := Some what\<rparr>)"

definition finish_destination ::
  "bytes \<Rightarrow> nat \<Rightarrow> byte \<Rightarrow> nat \<Rightarrow> socks_handshake \<Rightarrow> socks_parse_status \<times> socks_handshake" where
  "finish_destination host port version consumed s =
    (Complete, s\<lparr>sh_destination := \<lparr>ep_name = Some host, ep_port = (if prefix [47] host then None else Some port)\<rparr>,
                sh_version := version, sh_early_data := drop consumed (sh_input s), sh_input := [], sh_complete := True\<rparr>)"

text \<open>The loops over a zero-terminated field from \<open>start\<close>: where it ends, or None when it is too long.\<close>

function scan_ident :: "bytes \<Rightarrow> nat \<Rightarrow> nat \<Rightarrow> nat option" where
  "scan_ident input start pos =
    (if pos < length input \<and> input ! pos \<noteq> 0
     then if MAX_IDENT \<le> pos - start then None else scan_ident input start (pos + 1)
     else Some pos)"
  by pat_completeness auto
termination
  by (relation "measure (\<lambda>(input, start, pos). length input - pos)") auto

definition parse_socks4 :: "socks_handshake \<Rightarrow> socks_parse_status \<times> socks_handshake" where
  "parse_socks4 s =
    (let input = sh_input s in
     if length input < 8 then (NeedMore, s)
     else if input ! 1 \<noteq> SOCKS4_CONNECT then socks_error ''SOCKS4 only supports CONNECT'' s
     else
       let port = u16_be (input ! 2) (input ! 3); ip = take 4 (drop 4 input);
           socks4a = (ip ! 0 = 0 \<and> ip ! 1 = 0 \<and> ip ! 2 = 0 \<and> ip ! 3 \<noteq> 0)
       in case scan_ident input 8 8 of
         None \<Rightarrow> socks_error ''SOCKS4 userid too long'' s
       | Some userid_end \<Rightarrow>
           if length input \<le> userid_end
           then if MAX_IDENT + 8 < length input then socks_error ''SOCKS4 userid too long'' s else (NeedMore, s)
           else
             let userid_end = userid_end + 1 in
             if socks4a
             then (case scan_ident input userid_end userid_end of
                     None \<Rightarrow> socks_error ''SOCKS4a domain too long'' s
                   | Some domain_end \<Rightarrow>
                       if length input \<le> domain_end
                       then if MAX_IDENT < length input - userid_end then socks_error ''SOCKS4a domain too long'' s else (NeedMore, s)
                       else finish_destination (from_utf8_lossy (take (domain_end - userid_end) (drop userid_end input)))
                              port SOCKS4_VERSION (domain_end + 1) s)
             else finish_destination (print_ipv4 ip) port SOCKS4_VERSION userid_end s)"

definition parse_socks5_auth :: "socks_handshake \<Rightarrow> socks_parse_status \<times> socks_handshake" where
  "parse_socks5_auth s =
    (let input = sh_input s in
     if length input < 2 then (NeedMore, s)
     else
       let methods = unat (input ! 1) in
       if length input < 2 + methods then (NeedMore, s)
       else if SOCKS5_NOAUTH \<notin> set (take methods (drop 2 input))
       then (Error, s\<lparr>sh_reply := [SOCKS5_VERSION, SOCKS5_NO_ACCEPTABLE], sh_error := Some ''SOCKS5 client did not offer no-auth''\<rparr>)
       else (NeedMore, s\<lparr>sh_reply := [SOCKS5_VERSION, SOCKS5_NOAUTH], sh_input := drop (2 + methods) input, sh_socks5_auth_done := True\<rparr>))"

text \<open>The address of a SOCKS5 request: None while it is incomplete.\<close>

datatype socks5_host = Incomplete | Unsupported | Address bytes nat

definition socks5_address :: "bytes \<Rightarrow> socks5_host" where
  "socks5_address input =
    (let atyp = input ! 3 in
     if atyp = SOCKS5_IPV4 then (if length input < 10 then Incomplete else Address (print_ipv4 (take 4 (drop 4 input))) 8)
     else if atyp = SOCKS5_DOMAIN then
       (if length input < 5 then Incomplete
        else let len = unat (input ! 4) in
          if length input < 5 + len + 2 then Incomplete
          else Address (from_utf8_lossy (take len (drop 5 input))) (5 + len))
     else if atyp = SOCKS5_IPV6 then (if length input < 22 then Incomplete else Address (print_ipv6 (take 16 (drop 4 input))) 20)
     else Unsupported)"

definition parse_socks5_request :: "socks_handshake \<Rightarrow> socks_parse_status \<times> socks_handshake" where
  "parse_socks5_request s =
    (let input = sh_input s in
     if length input < 4 then (NeedMore, s)
     else if input ! 0 \<noteq> SOCKS5_VERSION then socks_error ''Invalid SOCKS5 request version'' s
     else if input ! 1 \<noteq> SOCKS5_CONNECT then socks_error ''SOCKS5 only supports CONNECT'' s
     else case socks5_address input of
       Incomplete \<Rightarrow> (NeedMore, s)
     | Unsupported \<Rightarrow> socks_error ''Unsupported SOCKS5 address type'' s
     | Address host port_offset \<Rightarrow>
         if length input < port_offset + 2 then (NeedMore, s)
         else finish_destination host (u16_be (input ! port_offset) (input ! (port_offset + 1))) SOCKS5_VERSION (port_offset + 2) s)"

definition feed_socks_handshake :: "socks_handshake \<Rightarrow> socks_parse_status \<times> socks_handshake" where
  "feed_socks_handshake s =
    (if sh_complete s
     then (Complete, if sh_input s \<noteq> [] then s\<lparr>sh_early_data := sh_early_data s @ sh_input s, sh_input := []\<rparr> else s)
     else if MAX_HANDSHAKE < length (sh_input s) then socks_error ''SOCKS handshake too large'' s
     else if sh_input s = [] then (NeedMore, s)
     else if sh_input s ! 0 = SOCKS4_VERSION then parse_socks4 s
     else if sh_input s ! 0 = SOCKS5_VERSION then
       (if \<not> sh_socks5_auth_done s
        then let (status, s1) = parse_socks5_auth s; auth_reply = sh_reply s1; s2 = s1\<lparr>sh_reply := []\<rparr>
          in if status = Error then (status, s2\<lparr>sh_reply := auth_reply\<rparr>)
             else if sh_input s2 = [] then (NeedMore, s2\<lparr>sh_reply := auth_reply\<rparr>)
             else let (status', s3) = parse_socks5_request s2
               in (status', s3\<lparr>sh_reply := auth_reply @ sh_reply s3\<rparr>)
        else parse_socks5_request s)
     else socks_error ''Unsupported SOCKS version'' s)"

section \<open>Conservation of bytes\<close>

declare scan_ident.simps [simp del]

text \<open>The bytes not yet consumed by the parser.\<close>

definition pending :: "socks_handshake \<Rightarrow> bytes" where
  "pending s = (if sh_complete s then sh_early_data s @ sh_input s else sh_input s)"

definition consumes :: "socks_handshake \<Rightarrow> socks_handshake \<Rightarrow> bool" where
  "consumes s s' \<longleftrightarrow> suffix (pending s') (pending s) \<and> (sh_complete s' \<longrightarrow> sh_input s' = []) \<and> (sh_complete s \<longrightarrow> sh_complete s' \<and> pending s' = pending s)"

lemma consumes_refl [simp]: "\<not> sh_complete s \<Longrightarrow> consumes s s"
  by (simp add: consumes_def)

lemma consumes_error [simp]: "\<not> sh_complete s \<Longrightarrow> consumes s (snd (socks_error what s))"
  by (simp add: consumes_def socks_error_def pending_def)

lemma consumes_finish [simp]: "\<not> sh_complete s \<Longrightarrow> consumes s (snd (finish_destination host port version consumed s))"
  by (simp add: consumes_def finish_destination_def pending_def suffix_drop)

lemma parse_socks4_consumes: "\<not> sh_complete s \<Longrightarrow> consumes s (snd (parse_socks4 s))"
  unfolding parse_socks4_def Let_def by (simp split: option.split)

lemma parse_socks5_request_consumes: "\<not> sh_complete s \<Longrightarrow> consumes s (snd (parse_socks5_request s))"
  unfolding parse_socks5_request_def Let_def by (simp split: socks5_host.split)

lemma parse_socks5_auth_consumes:
  "\<not> sh_complete s \<Longrightarrow> consumes s (snd (parse_socks5_auth s)) \<and> \<not> sh_complete (snd (parse_socks5_auth s))"
  by (simp add: parse_socks5_auth_def Let_def consumes_def pending_def suffix_drop)

lemma consumes_reply [simp]: "consumes s (s'\<lparr>sh_reply := r\<rparr>) = consumes s s'" "consumes (s\<lparr>sh_reply := r\<rparr>) s' = consumes s s'"
  by (simp_all add: consumes_def pending_def)

lemma consumes_trans: "\<not> sh_complete a \<Longrightarrow> \<not> sh_complete b \<Longrightarrow> consumes a b \<Longrightarrow> consumes b c \<Longrightarrow> consumes a c"
  unfolding consumes_def using suffix_order.trans by blast

lemma feed_consumes: "consumes s (snd (feed_socks_handshake s))"
proof (cases "sh_complete s")
  case True
  then show ?thesis by (simp add: feed_socks_handshake_def consumes_def pending_def)
next
  case False
  obtain status s1 where a: "parse_socks5_auth s = (status, s1)" by fastforce
  have s1: "consumes s s1" "\<not> sh_complete s1" using parse_socks5_auth_consumes [OF False] a by simp_all
  obtain status' s3 where r: "parse_socks5_request (s1\<lparr>sh_reply := []\<rparr>) = (status', s3)" by fastforce
  have "consumes s1 s3" using parse_socks5_request_consumes [of "s1\<lparr>sh_reply := []\<rparr>"] s1(2) r by simp
  then have "consumes s s3" using consumes_trans [OF False s1(2) s1(1)] by blast
  then show ?thesis using False s1(1) a r parse_socks4_consumes [OF False] parse_socks5_request_consumes [OF False]
    by (simp add: feed_socks_handshake_def Let_def)
qed

definition socks_read :: "bytes \<Rightarrow> socks_handshake \<Rightarrow> socks_handshake" where
  "socks_read chunk s = snd (feed_socks_handshake (socks_push chunk s))"

lemma pending_push: "pending (socks_push bs s) = pending s @ bs" "sh_complete (socks_push bs s) = sh_complete s"
  by (simp_all add: pending_def socks_push_def)

lemma socks_reads_suffix: "suffix (pending (fold socks_read chunks s)) (pending s @ concat chunks)"
proof (induction chunks arbitrary: s)
  case (Cons c chunks)
  have "suffix (pending (socks_read c s)) (pending s @ c)"
    using feed_consumes [of "socks_push c s"] by (simp add: consumes_def socks_read_def pending_push)
  then have "suffix (pending (socks_read c s) @ concat chunks) ((pending s @ c) @ concat chunks)" by (simp add: suffix_def)
  then show ?case using Cons [of "socks_read c s"] suffix_order.trans by simp
qed simp

lemma socks_reads_complete:
  "sh_complete (fold socks_read chunks s) \<Longrightarrow> chunks \<noteq> [] \<Longrightarrow> sh_input (fold socks_read chunks s) = []"
proof (induction chunks arbitrary: s)
  case (Cons c chunks)
  then show ?case using feed_consumes [of "socks_push c s"] by (cases "chunks = []") (auto simp: consumes_def socks_read_def)
qed simp

section \<open>A SOCKS5 client\<close>

definition socks5_greeting :: "bytes \<Rightarrow> bytes" where
  "socks5_greeting methods = [5, word_of_nat (length methods)] @ methods"

definition socks5_connect :: "bytes \<Rightarrow> nat \<Rightarrow> bytes" where
  "socks5_connect host port = [5, 1, 0, 3, word_of_nat (length host)] @ host @ [word_of_nat (port div 256), word_of_nat (port mod 256)]"

lemma byte_of_nat: "n < 256 \<Longrightarrow> unat (word_of_nat n :: byte) = n"
  by (simp add: unat_of_nat)

lemma request_connect:
  assumes "length host < 256" "port < 65536" "valid_utf8 host" "\<not> prefix [47] host" "sh_input s = socks5_connect host port @ extra"
  shows "parse_socks5_request s = (Complete, s\<lparr>sh_destination := \<lparr>ep_name = Some host, ep_port = Some port\<rparr>,
    sh_version := 5, sh_early_data := extra, sh_input := [], sh_complete := True\<rparr>)"
proof -
  have port: "u16_be (word_of_nat (port div 256)) (word_of_nat (port mod 256)) = port"
    using assms(2) byte_of_nat [of "port div 256"] byte_of_nat [of "port mod 256"] by (simp add: u16_be_def)
  have "socks5_address (sh_input s) = Address host (5 + length host)"
    using assms(1,3,5) byte_of_nat [OF assms(1)] from_utf8_lossy_valid
    by (simp add: socks5_address_def socks5_connect_def socks_consts Let_def)
  moreover have "sh_input s ! (5 + length host) = word_of_nat (port div 256)" "sh_input s ! Suc (5 + length host) = word_of_nat (port mod 256)"
    using assms(5) by (simp_all add: socks5_connect_def nth_append)
  moreover have "drop (7 + length host) (sh_input s) = extra"
  proof -
    have "length (socks5_connect host port) = 7 + length host" by (simp add: socks5_connect_def)
    then show ?thesis using assms(5) by simp
  qed
  ultimately show ?thesis using assms(4,5) port
    by (simp add: parse_socks5_request_def finish_destination_def Let_def socks5_connect_def socks_consts)
qed

lemma auth_greeting:
  assumes "length methods < 256" "0 \<in> set methods" "sh_input s = socks5_greeting methods @ rest"
  shows "parse_socks5_auth s = (NeedMore, s\<lparr>sh_reply := [5, 0], sh_input := rest, sh_socks5_auth_done := True\<rparr>)"
  using assms byte_of_nat [OF assms(1)] by (simp add: parse_socks5_auth_def socks5_greeting_def socks_consts Let_def)

section \<open>Properties\<close>


lemma socks4_example:
  "fold socks_read [[4, 1, 0, 22, 10, 0, 0, 1, 0, 72], [105]] socks_default =
    socks_default\<lparr>sh_destination := \<lparr>ep_name = Some (print_ipv4 [10, 0, 0, 1]), ep_port = Some 22\<rparr>, sh_version := 4,
      sh_early_data := [72, 105], sh_complete := True\<rparr>"
  by (simp add: socks_read_def feed_socks_handshake_def socks_push_def socks_default_def parse_socks4_def finish_destination_def
      socks_consts Let_def scan_ident.simps u16_be_def print_ipv4_def dec_nat.simps)


text \<open>C31: A SOCKS5 client that offers no authentication and asks for a domain name is understood, with everything it
  pipelines after the request kept as early data, both when greeting and request arrive together and
  when the request follows the reply to the greeting.\<close>

theorem socks5_connect_understood:
  assumes "length methods < 256" "0 \<in> set methods" "length host < 256" "port < 65536" "valid_utf8 host" "\<not> prefix [47] host"
    and "length extra \<le> 3000"
  shows "feed_socks_handshake (socks_push (socks5_greeting methods @ socks5_connect host port @ extra) socks_default) =
      (Complete, socks_default\<lparr>sh_reply := [5, 0], sh_socks5_auth_done := True, sh_destination := \<lparr>ep_name = Some host, ep_port = Some port\<rparr>,
         sh_version := 5, sh_early_data := extra, sh_complete := True\<rparr>) \<and>
    feed_socks_handshake (socks_push (socks5_connect host port @ extra) (socks_read (socks5_greeting methods) socks_default)) =
      (Complete, socks_default\<lparr>sh_reply := [5, 0], sh_socks5_auth_done := True, sh_destination := \<lparr>ep_name = Some host, ep_port = Some port\<rparr>,
         sh_version := 5, sh_early_data := extra, sh_complete := True\<rparr>)"
proof
  let ?in = "socks5_greeting methods @ socks5_connect host port @ extra"
  let ?done = "socks_default\<lparr>sh_reply := [5, 0], sh_socks5_auth_done := True, sh_destination := \<lparr>ep_name = Some host, ep_port = Some port\<rparr>,
         sh_version := 5, sh_early_data := extra, sh_complete := True\<rparr>"
  define s where "s = socks_push ?in socks_default"
  have s: "sh_input s = ?in" "\<not> sh_complete s" "\<not> sh_socks5_auth_done s" by (simp_all add: s_def socks_push_def socks_default_def)
  have len: "length ?in \<le> MAX_HANDSHAKE" "?in ! 0 = 5" "?in \<noteq> []" "socks5_connect host port @ extra \<noteq> []"
    using assms by (simp_all add: socks5_greeting_def socks5_connect_def MAX_HANDSHAKE_def)
  have a: "parse_socks5_auth s = (NeedMore, s\<lparr>sh_reply := [5, 0], sh_input := socks5_connect host port @ extra, sh_socks5_auth_done := True\<rparr>)"
    by (rule auth_greeting [OF assms(1,2) s(1)])
  define t where "t = s\<lparr>sh_reply := [], sh_input := socks5_connect host port @ extra, sh_socks5_auth_done := True\<rparr>"
  have r: "parse_socks5_request t = (Complete, t\<lparr>sh_destination := \<lparr>ep_name = Some host, ep_port = Some port\<rparr>,
    sh_version := 5, sh_early_data := extra, sh_input := [], sh_complete := True\<rparr>)"
    by (rule request_connect [OF assms(3-6)]) (simp add: t_def)
  show "feed_socks_handshake (socks_push ?in socks_default) = (Complete, ?done)"
    using s len a r unfolding s_def [symmetric] feed_socks_handshake_def t_def
    by (simp add: Let_def SOCKS4_VERSION_def SOCKS5_VERSION_def not_less) (simp add: s_def socks_push_def socks_default_def)
  define g where "g = socks_push (socks5_greeting methods) socks_default"
  have g: "sh_input g = socks5_greeting methods @ []" "\<not> sh_complete g" "\<not> sh_socks5_auth_done g"
    by (simp_all add: g_def socks_push_def socks_default_def)
  have glen: "length (socks5_greeting methods) \<le> MAX_HANDSHAKE" "socks5_greeting methods ! 0 = 5" "socks5_greeting methods \<noteq> []"
    using assms(1) by (simp_all add: socks5_greeting_def MAX_HANDSHAKE_def)
  have read: "socks_read (socks5_greeting methods) socks_default = socks_default\<lparr>sh_reply := [5, 0], sh_socks5_auth_done := True\<rparr>"
    using g glen auth_greeting [OF assms(1,2) g(1)] unfolding socks_read_def g_def [symmetric] feed_socks_handshake_def
    by (simp add: Let_def SOCKS4_VERSION_def SOCKS5_VERSION_def not_less) (simp add: g_def socks_push_def socks_default_def)
  define u where "u = socks_push (socks5_connect host port @ extra) (socks_default\<lparr>sh_reply := [5, 0], sh_socks5_auth_done := True\<rparr>)"
  have u: "sh_input u = socks5_connect host port @ extra" "\<not> sh_complete u" "sh_socks5_auth_done u"
    by (simp_all add: u_def socks_push_def socks_default_def)
  have ulen: "length (sh_input u) \<le> MAX_HANDSHAKE" "sh_input u ! 0 = 5" "sh_input u \<noteq> []"
    using assms u(1) by (simp_all add: socks5_connect_def MAX_HANDSHAKE_def)
  show "feed_socks_handshake (socks_push (socks5_connect host port @ extra) (socks_read (socks5_greeting methods) socks_default)) = (Complete, ?done)"
    using u ulen request_connect [OF assms(3-6) u(1)] unfolding read u_def [symmetric] feed_socks_handshake_def
    by (simp add: SOCKS4_VERSION_def SOCKS5_VERSION_def not_less) (simp add: u_def socks_push_def socks_default_def)
qed

theorem socks5_connect_understood_witness:
  "fst (feed_socks_handshake (socks_push (socks5_greeting [0] @ socks5_connect (ascii ''host'') 80 @ ascii ''GET'') socks_default)) = Complete \<and>
   sh_early_data (snd (feed_socks_handshake (socks_push (socks5_greeting [0] @ socks5_connect (ascii ''host'') 80 @ ascii ''GET'') socks_default))) = ascii ''GET''"
proof -
  have "valid_utf8 (ascii ''host'')" by (rule valid_utf8_ascii) (simp add: ascii_def)
  then show ?thesis using socks5_connect_understood [of "[0]" "ascii ''host''" 80 "ascii ''GET''"] by (simp add: ascii_def)
qed


end
