(* ===== verification/Framing_IO.thy ===== *)
theory Framing_IO
  imports Framing
begin

text \<open>
  \<^verbatim>\<open>crates/et-net/src/framing_io.rs\<close>: length-prefixed protobuf messages on a socket.  A socket is what the peer
  delivers before the deadline (or before it closes), what was written, and how much more can be written
  before a write fails; so every point at which a read or write can end in an error is a state of it.
  Encoding and decoding of messages are generated code and arguments here.
\<close>

section \<open>Definitions\<close>

record socket =
  sk_incoming :: bytes
  sk_outgoing :: bytes
  sk_room :: nat

datatype io_error = IoEnded | IoWrite | IoTimedOut | IoNotConnected | InvalidInput string | InvalidData string

definition read_exact :: "nat \<Rightarrow> socket \<Rightarrow> (io_error + bytes) \<times> socket" where
  "read_exact n s =
    (if n \<le> length (sk_incoming s)
     then (Inr (take n (sk_incoming s)), s\<lparr>sk_incoming := drop n (sk_incoming s)\<rparr>)
     else (Inl IoEnded, s\<lparr>sk_incoming := []\<rparr>))"

definition write_all :: "bytes \<Rightarrow> socket \<Rightarrow> (io_error + unit) \<times> socket" where
  "write_all bs s =
    (if length bs \<le> sk_room s
     then (Inr (), s\<lparr>sk_outgoing := sk_outgoing s @ bs, sk_room := sk_room s - length bs\<rparr>)
     else (Inl IoWrite, s\<lparr>sk_outgoing := sk_outgoing s @ take (sk_room s) bs, sk_room := 0\<rparr>))"

definition write_proto_limited :: "bytes \<Rightarrow> int \<Rightarrow> socket \<Rightarrow> (io_error + unit) \<times> socket" where
  "write_proto_limited buffer max_len s =
    (case i64_try_from_usize (length buffer) of
       None \<Rightarrow> (Inl (InvalidInput ''message too large''), s)
     | Some len \<Rightarrow>
         if \<not> (0 \<le> len \<and> len \<le> max_len) then (Inl (InvalidInput ''message length exceeds configured limit''), s)
         else case write_all (i64_to_le_bytes len) s of
           (Inl e, s') \<Rightarrow> (Inl e, s')
         | (Inr _, s') \<Rightarrow> write_all buffer s')"

definition write_proto :: "bytes \<Rightarrow> socket \<Rightarrow> (io_error + unit) \<times> socket" where
  "write_proto buffer s = write_proto_limited buffer (int MAX_PROTO_LEN) s"

definition write_proto_limited_deadline :: "bytes \<Rightarrow> int \<Rightarrow> socket \<Rightarrow> (io_error + unit) \<times> socket" where
  "write_proto_limited_deadline buffer max_len s =
    (case i64_try_from_usize (length buffer) of
       None \<Rightarrow> (Inl (InvalidInput ''message too large''), s)
     | Some len \<Rightarrow>
         if \<not> (0 \<le> len \<and> len \<le> max_len) then (Inl (InvalidInput ''message length exceeds configured limit''), s)
         else case write_all (i64_to_le_bytes len) s of
           (Inl e, s') \<Rightarrow> (Inl e, s')
         | (Inr _, s') \<Rightarrow> write_all buffer s')"

definition PROTO_READ_CHUNK :: nat where "PROTO_READ_CHUNK = 64 * 1024"

function read_body :: "nat \<Rightarrow> bytes \<Rightarrow> socket \<Rightarrow> (io_error + bytes) \<times> socket" where
  "read_body len result s =
    (if length result < len
     then let cnt = min (len - length result) PROTO_READ_CHUNK
       in case read_exact cnt s of
            (Inl e, s') \<Rightarrow> (Inl e, s')
          | (Inr chunk, s') \<Rightarrow> read_body len (result @ chunk) s'
     else (Inr result, s))"
  by pat_completeness auto
termination
  by (relation "measure (\<lambda>(len, result, s). len - length result)") (auto simp: PROTO_READ_CHUNK_def read_exact_def split: if_splits)

definition read_frame_limited_deadline :: "int \<Rightarrow> socket \<Rightarrow> (io_error + bytes) \<times> socket" where
  "read_frame_limited_deadline max_len s =
    (case read_exact 8 s of
       (Inl e, s') \<Rightarrow> (Inl e, s')
     | (Inr lenbuf, s') \<Rightarrow>
         let len = i64_from_le_bytes lenbuf in
         if \<not> (0 \<le> len \<and> len \<le> max_len) then (Inl (InvalidData ''frame length out of bounds''), s')
         else (case usize_try_from_i64 len of
                 None \<Rightarrow> (Inl (InvalidData ''negative frame length''), s')
               | Some frame_len \<Rightarrow> read_body frame_len [] s'))"

definition decode_frame :: "(bytes \<Rightarrow> 'm option) \<Rightarrow> (io_error + bytes) \<times> socket \<Rightarrow> (io_error + 'm) \<times> socket" where
  "decode_frame decode r = (case r of
       (Inl e, s) \<Rightarrow> (Inl e, s)
     | (Inr buffer, s) \<Rightarrow> (case decode buffer of None \<Rightarrow> (Inl (InvalidData ''decode''), s) | Some m \<Rightarrow> (Inr m, s)))"

definition read_proto_limited :: "(bytes \<Rightarrow> 'm option) \<Rightarrow> int \<Rightarrow> socket \<Rightarrow> (io_error + 'm) \<times> socket" where
  "read_proto_limited decode max_len s =
    (case read_exact 8 s of
       (Inl e, s') \<Rightarrow> (Inl e, s')
     | (Inr lenbuf, s') \<Rightarrow>
         let len = i64_from_le_bytes lenbuf in
         if \<not> (0 \<le> len \<and> len \<le> max_len) then (Inl (InvalidData ''frame length out of bounds''), s')
         else (case usize_try_from_i64 len of
                 None \<Rightarrow> (Inl (InvalidData ''negative frame length''), s')
               | Some frame_len \<Rightarrow> decode_frame decode (read_body frame_len [] s')))"

definition read_proto :: "(bytes \<Rightarrow> 'm option) \<Rightarrow> socket \<Rightarrow> (io_error + 'm) \<times> socket" where
  "read_proto decode s = read_proto_limited decode (int MAX_PROTO_LEN) s"

definition read_proto_limited_deadline :: "(bytes \<Rightarrow> 'm option) \<Rightarrow> int \<Rightarrow> socket \<Rightarrow> (io_error + 'm) \<times> socket" where
  "read_proto_limited_deadline decode max_len s = decode_frame decode (read_frame_limited_deadline max_len s)"

subsection \<open>Deadlines\<close>

text \<open>The reading loop with an idle-gap timeout and an absolute deadline.  A step is one iteration: the clock when
  it starts, when the socket timeout is set and when the read returned, and what the read returned.\<close>

datatype read_outcome = ReadBytes bytes | ReadWouldBlock | ReadInterrupted | ReadFailed

record read_step =
  rs_now :: nat
  rs_set :: nat
  rs_outcome :: read_outcome
  rs_after :: nat

datatype read_progress = Waiting | ReadDone bytes | ReadError io_error

fun earlier :: "nat option \<Rightarrow> nat option \<Rightarrow> nat option" where
  "earlier (Some a) (Some b) = Some (min a b)"
| "earlier (Some a) None = Some a"
| "earlier None b = b"

definition elapsed :: "nat option \<Rightarrow> nat \<Rightarrow> bool" where
  "elapsed deadline now = (case deadline of Some d \<Rightarrow> d \<le> now | None \<Rightarrow> False)"

fun read_exact_with_deadlines ::
  "nat option \<Rightarrow> nat option \<Rightarrow> nat option \<Rightarrow> nat \<Rightarrow> bytes \<Rightarrow> read_step list \<Rightarrow> read_progress" where
  "read_exact_with_deadlines idle absolute idle_deadline want got [] =
    (if length got < want then Waiting else ReadDone got)"
| "read_exact_with_deadlines idle absolute idle_deadline want got (st # steps) =
    (if \<not> length got < want then ReadDone got
     else if elapsed idle_deadline (rs_now st) \<or> elapsed absolute (rs_now st) then ReadError IoTimedOut
     else
       let next_deadline = earlier idle_deadline absolute in
       if elapsed next_deadline (rs_set st) then ReadError IoTimedOut
       else case rs_outcome st of
         ReadBytes bs \<Rightarrow>
           if bs = [] then ReadError IoEnded
           else read_exact_with_deadlines idle absolute (map_option (\<lambda>i. rs_after st + i) idle) want
                  (got @ take (want - length got) bs) steps
       | ReadInterrupted \<Rightarrow> read_exact_with_deadlines idle absolute idle_deadline want got steps
       | ReadWouldBlock \<Rightarrow>
           if next_deadline \<noteq> None then read_exact_with_deadlines idle absolute idle_deadline want got steps
           else ReadError IoWrite
       | ReadFailed \<Rightarrow> ReadError IoWrite)"

section \<open>Facts\<close>

declare read_body.simps [simp del]

text \<open>Reading a body in chunks is one exact read.\<close>

lemma read_body_eq:
  assumes "length result \<le> len"
  shows "read_body len result s =
    (if len - length result \<le> length (sk_incoming s)
     then (Inr (result @ take (len - length result) (sk_incoming s)), s\<lparr>sk_incoming := drop (len - length result) (sk_incoming s)\<rparr>)
     else (Inl IoEnded, s\<lparr>sk_incoming := []\<rparr>))"
  using assms
proof (induction len result s rule: read_body.induct)
  case (1 len result s)
  define cnt where "cnt = min (len - length result) PROTO_READ_CHUNK"
  show ?case
  proof (cases "length result < len")
    case True
    show ?thesis
    proof (cases "cnt \<le> length (sk_incoming s)")
      case le: True
      let ?chunk = "take cnt (sk_incoming s)" and ?s = "s\<lparr>sk_incoming := drop cnt (sk_incoming s)\<rparr>"
      have read: "read_exact cnt s = (Inr ?chunk, ?s)" using le by (simp add: read_exact_def)
      have fit: "length (result @ ?chunk) \<le> len" using True le by (simp add: cnt_def)
      have step: "read_body len result s = read_body len (result @ ?chunk) ?s"
        using True read by (simp add: read_body.simps [of len result s] cnt_def Let_def)
      have ih: "read_body len (result @ ?chunk) ?s =
          (if len - length (result @ ?chunk) \<le> length (sk_incoming ?s)
           then (Inr ((result @ ?chunk) @ take (len - length (result @ ?chunk)) (sk_incoming ?s)),
                 ?s\<lparr>sk_incoming := drop (len - length (result @ ?chunk)) (sk_incoming ?s)\<rparr>)
           else (Inl IoEnded, ?s\<lparr>sk_incoming := []\<rparr>))"
        by (rule "1.IH" [OF True cnt_def read [symmetric] refl fit])
      obtain more where m: "len - length result = cnt + more" using le_Suc_ex [of cnt "len - length result"] by (auto simp: cnt_def)
      have "len - length (result @ ?chunk) = more" using m le by simp
      then show ?thesis using step ih m le by (simp add: take_add drop_drop add.commute le_diff_conv2)
    next
      case False
      then have "\<not> len - length result \<le> length (sk_incoming s)" by (simp add: cnt_def)
      then show ?thesis using True False
        by (simp add: read_body.simps [of len result s] cnt_def [symmetric] read_exact_def Let_def)
    qed
  next
    case False
    then show ?thesis using "1.prems" by (simp add: read_body.simps [of len result s])
  qed
qed

text \<open>A frame on the wire, and what reading it gives.\<close>

lemma read_body_0:
  "read_body n [] s = (if n \<le> length (sk_incoming s) then (Inr (take n (sk_incoming s)), s\<lparr>sk_incoming := drop n (sk_incoming s)\<rparr>)
     else (Inl IoEnded, s\<lparr>sk_incoming := []\<rparr>))"
  using read_body_eq [of "[]" n s] by simp

lemma i64_of_nat_le_max:
  assumes "int n \<le> i64_max"
  shows "i64_of_nat n = int n"
proof -
  have "nat_of_i64 (int n) = n" using assms by (simp add: nat_of_i64_def i64_max_def unat_of_nat)
  then show ?thesis using i64_of_nat_nat_of_i64 [of "int n"] assms by (simp add: i64_min_def)
qed

lemma frame_bytes: "int (length p) \<le> i64_max \<Longrightarrow> frame_native_i64 p = i64_to_le_bytes (int (length p)) @ p"
  by (simp add: frame_native_i64_def i64_of_nat_le_max)

lemma i64_nat_roundtrip: "int n \<le> i64_max \<Longrightarrow> i64_from_le_bytes (i64_to_le_bytes (int n)) = int n"
  by (rule i64_le_roundtrip) (simp_all add: i64_min_def)

lemma read_frame:
  assumes "sk_incoming s = frame_native_i64 p @ rest" "int (length p) \<le> max_len" "max_len \<le> i64_max"
  shows "read_frame_limited_deadline max_len s = (Inr p, s\<lparr>sk_incoming := rest\<rparr>)"
  using assms frame_bytes [of p] i64_nat_roundtrip [of "length p"]
  by (simp add: read_frame_limited_deadline_def read_exact_def read_body_0 usize_try_from_i64_def Let_def)

lemma read_proto_frame:
  assumes "sk_incoming s = frame_native_i64 p @ rest" "int (length p) \<le> max_len" "max_len \<le> i64_max" "decode p = Some m"
  shows "read_proto_limited_deadline decode max_len s = (Inr m, s\<lparr>sk_incoming := rest\<rparr>)"
  using read_frame [OF assms(1-3)] assms(4) by (simp add: read_proto_limited_deadline_def decode_frame_def)

lemma write_proto_frame:
  assumes "int (length p) \<le> max_len" "max_len \<le> i64_max" "8 + length p \<le> sk_room s"
  shows "write_proto_limited_deadline p max_len s =
    (Inr (), s\<lparr>sk_outgoing := sk_outgoing s @ frame_native_i64 p, sk_room := sk_room s - (8 + length p)\<rparr>)"
  using assms frame_bytes [of p] by (simp add: write_proto_limited_deadline_def write_all_def i64_try_from_usize_def)

lemma write_proto_refused:
  assumes "max_len < int (length p)" "max_len \<le> i64_max"
  shows "\<exists>e. write_proto_limited_deadline p max_len s = (Inl e, s)"
  using assms by (simp add: write_proto_limited_deadline_def i64_try_from_usize_def)

text \<open>The absolute deadline bounds the whole read: bytes that trickle in move the idle deadline only.\<close>

lemma read_done_before_deadline:
  assumes "read_exact_with_deadlines idle (Some d) idle_deadline want got steps = ReadDone bs" "length got < want"
  shows "\<exists>used rest. steps = used @ rest \<and> used \<noteq> [] \<and> list_all (\<lambda>st. rs_now st < d) used \<and> length bs = want"
  using assms
proof (induction steps arbitrary: idle_deadline got)
  case (Cons st steps)
  have now: "rs_now st < d" using Cons.prems by (auto simp: elapsed_def split: if_splits)
  have step: "\<exists>used rest. steps = used @ rest \<and> list_all (\<lambda>st. rs_now st < d) used \<and> length bs = want"
    if "read_exact_with_deadlines idle (Some d) i want g steps = ReadDone bs" "length g \<le> want" for i g
  proof (cases "length g < want")
    case True
    then show ?thesis using Cons.IH [OF that(1)] by blast
  next
    case False
    then have "bs = g" using that(1) by (cases steps) auto
    then show ?thesis using False that(2) by (intro exI [of _ "[]"] exI [of _ steps]) auto
  qed
  obtain i g where "read_exact_with_deadlines idle (Some d) i want g steps = ReadDone bs" "length g \<le> want"
    using Cons.prems by (cases "rs_outcome st") (auto simp: Let_def split: if_splits)
  from step [OF this] obtain used rest where "steps = used @ rest" "list_all (\<lambda>st. rs_now st < d) used" "length bs = want" by blast
  then show ?case using now by (intro exI [of _ "st # used"] exI [of _ rest]) auto
qed simp

section \<open>Properties\<close>

text \<open>C33: A message written within the limit is read back, at any position of the stream and whatever follows it, and
  a message over the limit is refused before anything reaches the socket.\<close>

theorem proto_roundtrip:
  assumes "max_len \<le> i64_max" "8 + length p \<le> sk_room s" "decode p = Some m"
  shows "if int (length p) \<le> max_len
    then (\<exists>s'. write_proto_limited_deadline p max_len s = (Inr (), s') \<and>
      (\<forall>r rest. sk_incoming r = drop (length (sk_outgoing s)) (sk_outgoing s') @ rest \<longrightarrow>
        read_proto_limited_deadline decode max_len r = (Inr m, r\<lparr>sk_incoming := rest\<rparr>)))
    else (\<exists>e. write_proto_limited_deadline p max_len s = (Inl e, s))"
proof (cases "int (length p) \<le> max_len")
  case True
  then show ?thesis using write_proto_frame [OF True assms(1,2)] read_proto_frame [of _ p _ max_len decode m] True assms(1,3) by simp
next
  case False
  then show ?thesis using write_proto_refused [of max_len p s] assms(1) by simp
qed

theorem proto_roundtrip_witness:
  "\<exists>s'. write_proto_limited_deadline [1, 2] 100 \<lparr>sk_incoming = [], sk_outgoing = [7], sk_room = 50\<rparr> = (Inr (), s') \<and>
    read_proto_limited_deadline Some 100 \<lparr>sk_incoming = drop 1 (sk_outgoing s') @ [9], sk_outgoing = [], sk_room = 0\<rparr> =
      (Inr [1, 2], \<lparr>sk_incoming = [9], sk_outgoing = [], sk_room = 0\<rparr>)"
proof -
  define r where "r x = \<lparr>sk_incoming = drop 1 (sk_outgoing x) @ [9 :: byte], sk_outgoing = [], sk_room = 0\<rparr>" for x :: socket
  from proto_roundtrip [of 100 "[1, 2]" "\<lparr>sk_incoming = [], sk_outgoing = [7], sk_room = 50\<rparr>" Some "[1, 2]"]
  obtain s' where "write_proto_limited_deadline [1, 2] 100 \<lparr>sk_incoming = [], sk_outgoing = [7], sk_room = 50\<rparr> = (Inr (), s')"
    "read_proto_limited_deadline Some 100 (r s') = (Inr [1, 2], (r s')\<lparr>sk_incoming := [9]\<rparr>)"
    by (auto simp: i64_max_def r_def)
  then show ?thesis by (auto simp: r_def)
qed

end
