(* ===== verification/Handshake.thy ===== *)
theory Handshake
  imports Framing_IO Crypto
begin

text \<open>
  \<^verbatim>\<open>crates/et-net/src/handshake.rs\<close>: the connect handshake of the client, legacy or with a challenge and proofs.
  The generated encoders and decoders of its messages are the parameter \<open>H\<close>.
\<close>

section \<open>Definitions\<close>

definition PROTOCOL_VERSION :: int where "PROTOCOL_VERSION = 6"

definition MAX_HANDSHAKE_PROTO_LEN :: int where "MAX_HANDSHAKE_PROTO_LEN = 4 * 1024"

datatype connect_status = NewClient | ReturningClient | InvalidKey | MismatchedProtocol | RetryLater

definition status_code :: "connect_status \<Rightarrow> int" where
  "status_code s = (case s of NewClient \<Rightarrow> 1 | ReturningClient \<Rightarrow> 2 | InvalidKey \<Rightarrow> 3 | MismatchedProtocol \<Rightarrow> 4 | RetryLater \<Rightarrow> 5)"

record connect_request =
  rq_client_id :: "bytes option"
  rq_version :: "int option"
  rq_reset_intent :: "bool option"
  rq_supports_challenge :: "bool option"

record connect_response =
  rs_status :: "int option"
  rs_error :: "bytes option"
  rs_auth_challenge :: "bytes option"
  rs_reset_required :: "bool option"
  rs_reset_proof :: "bytes option"
  rs_reset_salt :: "bytes option"

record handshake_codec =
  enc_request :: "connect_request \<Rightarrow> bytes"
  enc_auth :: "bytes option \<Rightarrow> bytes"
  dec_response :: "bytes \<Rightarrow> connect_response option"

definition client_request :: "bytes \<Rightarrow> connect_request" where
  "client_request client_id = \<lparr>rq_client_id = Some client_id, rq_version = Some PROTOCOL_VERSION,
     rq_reset_intent = None, rq_supports_challenge = None\<rparr>"

definition client_request_challenge :: "bytes \<Rightarrow> bool \<Rightarrow> connect_request" where
  "client_request_challenge client_id resetting = \<lparr>rq_client_id = Some client_id, rq_version = Some PROTOCOL_VERSION,
     rq_reset_intent = (if resetting then Some True else None), rq_supports_challenge = Some True\<rparr>"

definition supports_challenge :: "connect_request \<Rightarrow> bool" where
  "supports_challenge request = (case rq_supports_challenge request of Some b \<Rightarrow> b | None \<Rightarrow> False)"

definition reset_intent :: "connect_request \<Rightarrow> bool" where
  "reset_intent request = (supports_challenge request \<and> (case rq_reset_intent request of Some b \<Rightarrow> b | None \<Rightarrow> False))"

definition protocol_matches :: "connect_request \<Rightarrow> bool" where
  "protocol_matches req \<longleftrightarrow> rq_version req = Some PROTOCOL_VERSION"

definition response_status :: "connect_status \<Rightarrow> connect_response" where
  "response_status status = \<lparr>rs_status = Some (status_code status), rs_error = None, rs_auth_challenge = None,
     rs_reset_required = None, rs_reset_proof = None, rs_reset_salt = None\<rparr>"

text \<open>\<^verbatim>\<open>Option::unwrap_or_default\<close> on the status field.\<close>

definition status_or_default :: "connect_response \<Rightarrow> int" where
  "status_or_default r = (case rs_status r of Some c \<Rightarrow> c | None \<Rightarrow> 0)"

definition accepted_status :: "int \<Rightarrow> bool" where
  "accepted_status status \<longleftrightarrow> status = status_code NewClient \<or> status = status_code ReturningClient"

text \<open>The legacy answer: what a response without a challenge leads to.\<close>

definition legacy_response :: "bool \<Rightarrow> connect_response \<Rightarrow> io_error + connect_response" where
  "legacy_response resetting first =
    (if resetting \<and> accepted_status (status_or_default first)
     then Inl (InvalidData ''Server does not support session reattach; upgrade etserver'')
     else Inr (first\<lparr>rs_reset_required := None, rs_reset_salt := None, rs_reset_proof := None\<rparr>))"

text \<open>The check of the final response.\<close>

definition check_final :: "primitives \<Rightarrow> bytes \<Rightarrow> bytes \<Rightarrow> bytes \<Rightarrow> connect_response \<Rightarrow> io_error + connect_response" where
  "check_final P key client_id challenge response =
    (let status = status_or_default response in
     if accepted_status status
     then
       let reset_required = (case rs_reset_required response of Some b \<Rightarrow> b | None \<Rightarrow> False);
           salt = (case rs_reset_salt response of Some s \<Rightarrow> s | None \<Rightarrow> [])
       in if reset_required \<and> length salt \<noteq> EPOCH_SALT_BYTES then Inl (InvalidData ''invalid reset decision salt'')
          else if \<not> (case rs_reset_proof response of
                       Some pr \<Rightarrow> verify_reset_decision_proof P pr key client_id PROTOCOL_VERSION challenge status reset_required salt
                     | None \<Rightarrow> False)
          then Inl (InvalidData ''connect success is missing a valid reset decision proof'')
          else Inr response
     else Inr response)"

definition client_handshake ::
  "primitives \<Rightarrow> handshake_codec \<Rightarrow> bytes \<Rightarrow> bytes \<Rightarrow> bool \<Rightarrow> socket \<Rightarrow> (io_error + connect_response) \<times> socket" where
  "client_handshake P H client_id key resetting s =
    (case write_proto_limited_deadline (enc_request H (client_request_challenge client_id resetting)) MAX_HANDSHAKE_PROTO_LEN s of
       (Inl e, s1) \<Rightarrow> (Inl e, s1)
     | (Inr _, s1) \<Rightarrow>
     (case read_proto_limited_deadline (dec_response H) MAX_HANDSHAKE_PROTO_LEN s1 of
       (Inl e, s2) \<Rightarrow> (Inl e, s2)
     | (Inr first, s2) \<Rightarrow>
     (case rs_auth_challenge first of
       None \<Rightarrow> (legacy_response resetting first, s2)
     | Some challenge \<Rightarrow>
         if length challenge \<noteq> AUTH_CHALLENGE_BYTES
         then (Inl (InvalidData ''server sent an invalid authentication challenge''), s2)
         else
     (case connection_proof P key client_id PROTOCOL_VERSION challenge resetting of
       Inl _ \<Rightarrow> (Inl (InvalidData ''could not build the connection proof''), s2)
     | Inr pr \<Rightarrow>
     (case write_proto_limited_deadline (enc_auth H (Some pr)) MAX_HANDSHAKE_PROTO_LEN s2 of
       (Inl e, s3) \<Rightarrow> (Inl e, s3)
     | (Inr _, s3) \<Rightarrow>
     (case read_proto_limited_deadline (dec_response H) MAX_HANDSHAKE_PROTO_LEN s3 of
       (Inl e, s4) \<Rightarrow> (Inl e, s4)
     | (Inr response, s4) \<Rightarrow> (check_final P key client_id challenge response, s4)))))))"

definition read_request :: "(bytes \<Rightarrow> connect_request option) \<Rightarrow> socket \<Rightarrow> (io_error + connect_request) \<times> socket" where
  "read_request decode s = read_proto_limited decode MAX_HANDSHAKE_PROTO_LEN s"

definition read_request_deadline :: "(bytes \<Rightarrow> connect_request option) \<Rightarrow> socket \<Rightarrow> (io_error + connect_request) \<times> socket" where
  "read_request_deadline decode s = read_proto_limited_deadline decode MAX_HANDSHAKE_PROTO_LEN s"

definition write_response :: "(connect_response \<Rightarrow> bytes) \<Rightarrow> connect_response \<Rightarrow> socket \<Rightarrow> (io_error + unit) \<times> socket" where
  "write_response encode response s = write_proto (encode response) s"

section \<open>Facts\<close>

lemma check_final_accepted:
  assumes "check_final P key client_id challenge response = Inr response'" "accepted_status (status_or_default response')"
  shows "response' = response \<and> (\<exists>pr. rs_reset_proof response = Some pr \<and>
      reset_decision_proof P key client_id PROTOCOL_VERSION challenge (status_or_default response)
        (rs_reset_required response = Some True) (case rs_reset_salt response of Some x \<Rightarrow> x | None \<Rightarrow> []) = Inr pr)"
proof -
  have eq: "response' = response" using assms(1) by (auto simp: check_final_def Let_def split: if_splits)
  have req: "(case rs_reset_required response of Some b \<Rightarrow> b | None \<Rightarrow> False) \<longleftrightarrow> rs_reset_required response = Some True"
    by (auto split: option.split)
  obtain pr where "rs_reset_proof response = Some pr"
    "verify_reset_decision_proof P pr key client_id PROTOCOL_VERSION challenge (status_or_default response)
       (rs_reset_required response = Some True) (case rs_reset_salt response of Some x \<Rightarrow> x | None \<Rightarrow> [])"
    using assms eq unfolding check_final_def Let_def req by (auto split: if_splits option.splits)
  then show ?thesis using eq
    by (auto simp: verify_reset_decision_proof_def split: if_splits sum.splits)
qed

lemma legacy_response_accepted:
  "legacy_response resetting first = Inr response \<Longrightarrow> accepted_status (status_or_default response) \<Longrightarrow> rs_auth_challenge first = None \<Longrightarrow>
   \<not> resetting \<and> rs_auth_challenge response = None \<and> rs_reset_required response = None \<and> rs_reset_proof response = None"
  by (auto simp: legacy_response_def status_or_default_def split: if_splits)

lemma client_handshake_ok:
  assumes "client_handshake P H client_id key resetting s = (Inr response, s')"
  shows "(\<exists>first. rs_auth_challenge first = None \<and> legacy_response resetting first = Inr response) \<or>
    (\<exists>challenge final. length challenge = AUTH_CHALLENGE_BYTES \<and> check_final P key client_id challenge final = Inr response)"
  using assms by (auto simp: client_handshake_def split: sum.splits prod.splits option.splits if_splits)

text \<open>The whole exchange over an honest server: two frames in, two frames out.\<close>

lemma client_handshake_exchange:
  fixes P H client_id key resetting
  defines "request \<equiv> enc_request H (client_request_challenge client_id resetting)"
  assumes "sk_incoming s = frame_native_i64 p1 @ frame_native_i64 p2 @ rest" "dec_response H p1 = Some first" "dec_response H p2 = Some final"
    "rs_auth_challenge first = Some challenge" "length challenge = AUTH_CHALLENGE_BYTES"
    "connection_proof P key client_id PROTOCOL_VERSION challenge resetting = Inr pr"
    "int (length p1) \<le> MAX_HANDSHAKE_PROTO_LEN" "int (length p2) \<le> MAX_HANDSHAKE_PROTO_LEN"
    "int (length request) \<le> MAX_HANDSHAKE_PROTO_LEN" "int (length (enc_auth H (Some pr))) \<le> MAX_HANDSHAKE_PROTO_LEN"
    "16 + length request + length (enc_auth H (Some pr)) \<le> sk_room s"
  shows "\<exists>s'. client_handshake P H client_id key resetting s = (check_final P key client_id challenge final, s') \<and>
    sk_incoming s' = rest \<and> sk_outgoing s' = sk_outgoing s @ frame_native_i64 request @ frame_native_i64 (enc_auth H (Some pr))"
proof -
  have le: "MAX_HANDSHAKE_PROTO_LEN \<le> i64_max" by (simp add: MAX_HANDSHAKE_PROTO_LEN_def i64_max_def)
  define s1 where "s1 = s\<lparr>sk_outgoing := sk_outgoing s @ frame_native_i64 request, sk_room := sk_room s - (8 + length request)\<rparr>"
  define s2 where "s2 = s1\<lparr>sk_incoming := frame_native_i64 p2 @ rest\<rparr>"
  define s3 where "s3 = s2\<lparr>sk_outgoing := sk_outgoing s2 @ frame_native_i64 (enc_auth H (Some pr)), sk_room := sk_room s2 - (8 + length (enc_auth H (Some pr)))\<rparr>"
  have 1: "write_proto_limited_deadline request MAX_HANDSHAKE_PROTO_LEN s = (Inr (), s1)"
    unfolding s1_def by (rule write_proto_frame) (use assms le in simp_all)
  have 2: "read_proto_limited_deadline (dec_response H) MAX_HANDSHAKE_PROTO_LEN s1 = (Inr first, s2)"
    unfolding s2_def by (rule read_proto_frame) (use assms le in \<open>simp_all add: s1_def\<close>)
  have 3: "write_proto_limited_deadline (enc_auth H (Some pr)) MAX_HANDSHAKE_PROTO_LEN s2 = (Inr (), s3)"
    unfolding s3_def by (rule write_proto_frame) (use assms le in \<open>simp_all add: s1_def s2_def\<close>)
  have 4: "read_proto_limited_deadline (dec_response H) MAX_HANDSHAKE_PROTO_LEN s3 = (Inr final, s3\<lparr>sk_incoming := rest\<rparr>)"
    by (rule read_proto_frame) (use assms le in \<open>simp_all add: s1_def s2_def s3_def\<close>)
  show ?thesis using 1 2 3 4 assms(5-7) by (simp add: client_handshake_def request_def [symmetric]) (simp add: s1_def s2_def s3_def)
qed

section \<open>Properties\<close>


definition sample_first :: connect_response where
  "sample_first = (response_status NewClient)\<lparr>rs_auth_challenge := Some (replicate 32 1)\<rparr>"

definition sample_final :: connect_response where
  "sample_final = (response_status NewClient)\<lparr>rs_reset_proof :=
     Some (case reset_decision_proof plain_primitives (replicate 32 7) [97] 6 (replicate 32 1) 1 False [] of Inr d \<Rightarrow> d | Inl _ \<Rightarrow> [])\<rparr>"

definition sample_codec :: handshake_codec where
  "sample_codec = \<lparr>enc_request = (\<lambda>_. [0]), enc_auth = (\<lambda>_. [0]),
     dec_response = (\<lambda>b. if b = [1] then Some sample_first else if b = [2] then Some sample_final else None)\<rparr>"

definition sample_socket :: socket where
  "sample_socket = \<lparr>sk_incoming = frame_native_i64 [1] @ frame_native_i64 [2], sk_outgoing = [], sk_room = 100\<rparr>"


end
