(* ===== verification/Connection.thy ===== *)
theory Connection
  imports Framing_IO Session Output_Window Output_Queue
begin

text \<open>
  \<^verbatim>\<open>crates/et-net/src/connection.rs\<close>, \<^verbatim>\<open>connection_pending.rs\<close> and \<^verbatim>\<open>connection_nonblocking.rs\<close>
  (the Unix configuration): a connection couples a backed writer and a backed reader with one TCP
  stream, a retained live frame, the acknowledgement schedule and the output window.

  A \<open>transport\<close> is what the live writes of this connection put on its stream, and whether the stream
  was shut down.  What the kernel answers and what the clock shows are arguments of the operations: the
  result of each system call, in the order of the calls.  A loop that waits for the kernel takes the list
  of its answers and is \<open>None\<close> while it has not returned.
\<close>

section \<open>Definitions\<close>

subsection \<open>Errors\<close>

datatype conn_error = ConnIo io_error | ConnRead read_error | ConnRecover recover_error | ConnEncrypt encrypt_error
  | ConnBackpressure | PacketTooLarge | SequenceOutOfRange int | InvalidRecoverySequence "int option"

datatype write_packet_error = BeforeReplay conn_error | ReplayOwned conn_error

fun into_inner :: "write_packet_error \<Rightarrow> conn_error" where
  "into_inner (BeforeReplay e) = e"
| "into_inner (ReplayOwned e) = e"

subsection \<open>The retained live frame\<close>

record transport =
  tp_sent :: bytes
  tp_shutdown :: bool

definition WRITE_QUANTUM :: nat where "WRITE_QUANTUM = 256 * 1024"

type_synonym inbound_mark = "int \<times> nat"

record pending_write =
  pw_frame :: bytes
  pw_offset :: nat
  pw_deadline :: nat
  pw_heard :: "(inbound_mark \<times> nat) option"

text \<open>A prepared write: the frame and its live-write timeout, or nothing to send.\<close>

type_synonym prepared_write = "(bytes \<times> nat) option"

definition into_pending :: "nat \<Rightarrow> prepared_write \<Rightarrow> pending_write option" where
  "into_pending now prepared = map_option (\<lambda>(frame, timeout).
     \<lparr>pw_frame = frame, pw_offset = 0, pw_deadline = now + timeout, pw_heard = None\<rparr>) prepared"

definition defer_while_peer_talks :: "inbound_mark \<Rightarrow> nat \<Rightarrow> nat \<Rightarrow> nat \<Rightarrow> pending_write \<Rightarrow> pending_write" where
  "defer_while_peer_talks inbound now silence timeout p =
    (let heard_at = (case pw_heard p of
           Some (seen, at) \<Rightarrow> if seen = inbound then at else now
         | None \<Rightarrow> if timeout \<le> pw_deadline p then pw_deadline p - timeout else now);
         p1 = p\<lparr>pw_heard := Some (inbound, heard_at)\<rparr>;
         limit = heard_at + silence
     in if now < limit then p1\<lparr>pw_deadline := min limit (now + timeout)\<rparr> else p1)"

text \<open>The kernel's answer to a nonblocking send: room for so many bytes, none now
  (\<^verbatim>\<open>EAGAIN\<close> or \<^verbatim>\<open>EINTR\<close>), or an error.\<close>

datatype send_result = SendRoom nat | SendAgain | SendFailed

definition pending_advance ::
  "nat \<Rightarrow> send_result \<Rightarrow> pending_write \<Rightarrow> transport \<Rightarrow> (io_error + bool) \<times> pending_write \<times> transport" where
  "pending_advance now result p t =
    (if pw_deadline p \<le> now then (Inl IoTimedOut, p, t)
     else
       let stop = min (length (pw_frame p)) (pw_offset p + WRITE_QUANTUM);
           slice = take (stop - pw_offset p) (drop (pw_offset p) (pw_frame p))
       in case result of
            SendRoom room \<Rightarrow>
              let cnt = min room (length slice) in
              if cnt = 0 then (Inl IoWrite, p, t)
              else let p1 = p\<lparr>pw_offset := pw_offset p + cnt\<rparr>
                in (Inr (pw_offset p1 = length (pw_frame p1)), p1, t\<lparr>tp_sent := tp_sent t @ take cnt slice\<rparr>)
          | SendAgain \<Rightarrow> (Inr False, p, t)
          | SendFailed \<Rightarrow> (Inl IoWrite, p, t))"

text \<open>\<^verbatim>\<open>Drop\<close>: a partial record is never left on a usable stream.\<close>

definition pending_drop :: "pending_write \<Rightarrow> transport \<Rightarrow> transport" where
  "pending_drop p t = (if pw_offset p \<noteq> length (pw_frame p) then t\<lparr>tp_shutdown := True\<rparr> else t)"

datatype poll_result = PollTimeout | PollReady | PollInterrupted | PollFailed

datatype wait_result = WaitReady | WaitTimedOut | WaitFailed

fun wait_writable :: "nat \<Rightarrow> (nat \<times> poll_result) list \<Rightarrow> wait_result option" where
  "wait_writable deadline [] = None"
| "wait_writable deadline ((now, result) # rest) =
    (if deadline \<le> now then Some WaitTimedOut
     else case result of
       PollTimeout \<Rightarrow> Some WaitTimedOut
     | PollReady \<Rightarrow> Some WaitReady
     | PollInterrupted \<Rightarrow> wait_writable deadline rest
     | PollFailed \<Rightarrow> Some WaitFailed)"

text \<open>One iteration of \<^verbatim>\<open>finish\<close>: the clock and the answer of the send, then the polls of the wait.\<close>

record finish_step =
  fs_now :: nat
  fs_send :: send_result
  fs_polls :: "(nat \<times> poll_result) list"

fun finish_loop :: "finish_step list \<Rightarrow> pending_write \<Rightarrow> transport \<Rightarrow> (io_error + unit) option \<times> pending_write \<times> transport" where
  "finish_loop [] p t = (None, p, t)"
| "finish_loop (st # steps) p t =
    (case pending_advance (fs_now st) (fs_send st) p t of
       (Inl e, p1, t1) \<Rightarrow> (Some (Inl e), p1, t1)
     | (Inr finished, p1, t1) \<Rightarrow>
         if finished then (Some (Inr ()), p1, t1)
         else case wait_writable (pw_deadline p1) (fs_polls st) of
           None \<Rightarrow> (None, p1, t1)
         | Some WaitFailed \<Rightarrow> (Some (Inl IoWrite), p1, t1)
         | Some _ \<Rightarrow> finish_loop steps p1 t1)"

definition pending_finish ::
  "finish_step list \<Rightarrow> pending_write \<Rightarrow> transport \<Rightarrow> (write_packet_error + unit) option \<times> transport" where
  "pending_finish steps p t =
    (case finish_loop steps p t of
       (None, p1, t1) \<Rightarrow> (None, t1)
     | (Some (Inl e), p1, t1) \<Rightarrow> (Some (Inl (ReplayOwned (ConnIo e))), pending_drop p1 t1)
     | (Some (Inr _), p1, t1) \<Rightarrow> (Some (Inr ()), pending_drop p1 t1))"

definition prepared_send ::
  "nat \<Rightarrow> finish_step list \<Rightarrow> prepared_write \<Rightarrow> transport \<Rightarrow> (write_packet_error + unit) option \<times> transport" where
  "prepared_send now steps prepared t =
    (case into_pending now prepared of
       Some p \<Rightarrow> pending_finish steps p t
     | None \<Rightarrow> (Some (Inr ()), t))"

definition prepared_send_until ::
  "nat \<Rightarrow> nat \<Rightarrow> finish_step list \<Rightarrow> prepared_write \<Rightarrow> transport \<Rightarrow> (write_packet_error + unit) option \<times> transport" where
  "prepared_send_until deadline now steps prepared t =
    (case into_pending now prepared of
       None \<Rightarrow> (Some (Inr ()), t)
     | Some p \<Rightarrow> pending_finish steps (p\<lparr>pw_deadline := deadline\<rparr>) t)"

subsection \<open>The connection\<close>

definition DEFAULT_LIVE_WRITE_TIMEOUT :: nat where "DEFAULT_LIVE_WRITE_TIMEOUT = 2 * 1000000000"
definition FLOW_CONTROL_LIVE_WRITE_TIMEOUT :: nat where "FLOW_CONTROL_LIVE_WRITE_TIMEOUT = 5 * 1000000000"
definition FLOW_CONTROL_PEER_SILENCE :: nat where "FLOW_CONTROL_PEER_SILENCE = 10 * 1000000000"

record connection =
  cn_stream :: transport
  cn_writer :: backed_writer
  cn_reader :: backed_reader
  cn_live_write_timeout :: nat
  cn_peer_silence :: "nat option"
  cn_pending :: "pending_write option"
  cn_acks :: ack_schedule
  cn_window :: "output_window option"

definition connection_new :: "bytes \<Rightarrow> byte \<Rightarrow> byte \<Rightarrow> nat \<Rightarrow> connection" where
  "connection_new key enc dec max_socket_read =
    \<lparr>cn_stream = \<lparr>tp_sent = [], tp_shutdown = False\<rparr>,
     cn_writer = writer_new (crypto_new key enc) True,
     cn_reader = with_max_socket_read max_socket_read (reader_new (crypto_new key dec) True),
     cn_live_write_timeout = DEFAULT_LIVE_WRITE_TIMEOUT, cn_peer_silence = None, cn_pending = None,
     cn_acks = ack_schedule_default, cn_window = None\<rparr>"

definition new_client :: "bytes \<Rightarrow> connection" where
  "new_client key = connection_new key DIR_CLIENT_TO_SERVER DIR_SERVER_TO_CLIENT CLIENT_MAX_SOCKET_READ"

definition new_server :: "bytes \<Rightarrow> connection" where
  "new_server key = connection_new key DIR_SERVER_TO_CLIENT DIR_CLIENT_TO_SERVER SERVER_MAX_SOCKET_READ"

definition drop_pending :: "connection \<Rightarrow> connection" where
  "drop_pending c = (case cn_pending c of
     None \<Rightarrow> c
   | Some p \<Rightarrow> c\<lparr>cn_pending := None, cn_stream := pending_drop p (cn_stream c)\<rparr>)"

definition conn_disconnect :: "connection \<Rightarrow> connection" where
  "conn_disconnect c =
    (let c1 = drop_pending c
     in c1\<lparr>cn_writer := writer_invalidate (cn_writer c1), cn_reader := reader_invalidate (cn_reader c1)\<rparr>)"

definition conn_connected :: "connection \<Rightarrow> bool" where
  "conn_connected c = bw_connected (cn_writer c)"

text \<open>What \<^verbatim>\<open>recv\<close> with \<^verbatim>\<open>MSG_PEEK\<close> reports: end of stream, data, nothing yet (\<^verbatim>\<open>EAGAIN\<close>, \<^verbatim>\<open>EINTR\<close>), a peer
  that is gone (broken pipe, aborted, reset, not connected), or another error.\<close>

datatype probe_result = ProbeClosed | ProbeData | ProbeRetry | ProbeReset | ProbeFailed

definition refresh_connectivity :: "probe_result \<Rightarrow> connection \<Rightarrow> (conn_error + unit) \<times> connection" where
  "refresh_connectivity probe c =
    (if \<not> bw_connected (cn_writer c) then (Inr (), c)
     else case probe of
       ProbeClosed \<Rightarrow> (Inr (), c\<lparr>cn_writer := writer_invalidate (cn_writer c)\<rparr>)
     | ProbeData \<Rightarrow> (Inr (), c)
     | ProbeRetry \<Rightarrow> (Inr (), c)
     | ProbeReset \<Rightarrow> (Inr (), c\<lparr>cn_writer := writer_invalidate (cn_writer c)\<rparr>)
     | ProbeFailed \<Rightarrow> (Inl (ConnIo IoWrite), conn_disconnect c))"

definition note_output :: "writer_outcome \<Rightarrow> byte \<Rightarrow> nat \<Rightarrow> nat \<Rightarrow> connection \<Rightarrow> connection" where
  "note_output outcome h payload_len now c =
    (case cn_window c of
       None \<Rightarrow> c
     | Some w \<Rightarrow>
         if outcome = Skipped then c
         else
           let carries_ack = (h = KEEP_ALIVE \<and> payload_len = ACK_PAYLOAD_LEN)
           in c\<lparr>cn_window := Some (on_write (bw_sequence (cn_writer c)) payload_len (h = TERMINAL_BUFFER) carries_ack now w)\<rparr>)"

text \<open>The part the ways of preparing a write share: the writer takes the packet, and a live frame is handed out.\<close>

definition admit_packet :: "primitives \<Rightarrow> byte \<Rightarrow> bytes \<Rightarrow> nat \<Rightarrow> connection \<Rightarrow> (write_packet_error + prepared_write) \<times> connection" where
  "admit_packet P h payload now c =
    (let live = bw_connected (cn_writer c);
         (outcome, w) = write_packet P h payload (cn_writer c);
         c1 = note_output outcome h (length payload) now (c\<lparr>cn_writer := w\<rparr>)
     in case outcome of
          Send frame \<Rightarrow> (Inr (if live then Some (frame, cn_live_write_timeout c1) else None), c1)
        | BufferedOnly \<Rightarrow> (Inr None, c1)
        | Skipped \<Rightarrow> (Inl (BeforeReplay ConnBackpressure), c1))"

definition prepare_write_packet_unprobed ::
  "primitives \<Rightarrow> byte \<Rightarrow> bytes \<Rightarrow> nat \<Rightarrow> connection \<Rightarrow> (write_packet_error + prepared_write) \<times> connection" where
  "prepare_write_packet_unprobed P h payload now c =
    (if cn_pending c \<noteq> None then (Inl (BeforeReplay ConnBackpressure), c)
     else admit_packet P h payload now c)"

definition probed :: "probe_result \<Rightarrow> connection \<Rightarrow> connection" where
  "probed probe c = (case refresh_connectivity probe c of (Inl _, c1) \<Rightarrow> conn_disconnect c1 | (Inr _, c1) \<Rightarrow> c1)"

definition prepare_write_packet ::
  "primitives \<Rightarrow> byte \<Rightarrow> bytes \<Rightarrow> probe_result \<Rightarrow> nat \<Rightarrow> connection \<Rightarrow> (write_packet_error + prepared_write) \<times> connection" where
  "prepare_write_packet P h payload probe now c =
    (if cn_pending c \<noteq> None then (Inl (BeforeReplay ConnBackpressure), c)
     else admit_packet P h payload now (probed probe c))"

definition prepare_write_packet_with ::
  "primitives \<Rightarrow> byte \<Rightarrow> bytes \<Rightarrow> bool \<Rightarrow> probe_result \<Rightarrow> nat \<Rightarrow> connection \<Rightarrow> (write_packet_error + prepared_write) \<times> connection" where
  "prepare_write_packet_with P h payload clone_ok probe now c =
    (if cn_pending c \<noteq> None then (Inl (BeforeReplay ConnBackpressure), c)
     else
       let c1 = probed probe c in
       if bw_connected (cn_writer c1) \<and> \<not> clone_ok then (Inl (BeforeReplay (ConnIo IoWrite)), c1)
       else admit_packet P h payload now c1)"

definition reserve_write_packet ::
  "byte \<Rightarrow> nat \<Rightarrow> connection \<Rightarrow> (write_packet_error + reserved_write) \<times> connection" where
  "reserve_write_packet h payload_len c =
    (if cn_pending c \<noteq> None then (Inl (BeforeReplay ConnBackpressure), c)
     else case reserve_write h payload_len (cn_writer c) of
       (None, w) \<Rightarrow> (Inl (BeforeReplay ConnBackpressure), c\<lparr>cn_writer := w\<rparr>)
     | (Some r, w) \<Rightarrow> (Inr r, c\<lparr>cn_writer := w\<rparr>))"

definition commit_write_packet :: "reserved_write \<Rightarrow> bytes \<Rightarrow> nat \<Rightarrow> connection \<Rightarrow> prepared_write \<times> connection" where
  "commit_write_packet reserved frame now c =
    (let live = bw_connected (cn_writer c);
         (outcome, w) = commit_write reserved frame (cn_writer c);
         c1 = note_output outcome (reserved_header reserved) (reserved_payload_len reserved) now (c\<lparr>cn_writer := w\<rparr>)
     in case outcome of
          Send f \<Rightarrow> (if live then Some (f, cn_live_write_timeout c1) else None, c1)
        | _ \<Rightarrow> (None, c1))"

text \<open>What the kernel and the clock answer to one blocking write.\<close>

record write_env =
  we_probe :: probe_result
  we_noted :: nat
  we_started :: nat
  we_steps :: "finish_step list"

definition write_packet_owned_until ::
  "primitives \<Rightarrow> byte \<Rightarrow> bytes \<Rightarrow> nat option \<Rightarrow> write_env \<Rightarrow> connection \<Rightarrow> (write_packet_error + unit) option \<times> connection" where
  "write_packet_owned_until P h payload deadline env c =
    (case prepare_write_packet P h payload (we_probe env) (we_noted env) c of
       (Inl e, c1) \<Rightarrow> (Some (Inl e), c1)
     | (Inr prepared, c1) \<Rightarrow>
         let (result, t) = (case deadline of
               Some d \<Rightarrow> prepared_send_until d (we_started env) (we_steps env) prepared (cn_stream c1)
             | None \<Rightarrow> prepared_send (we_started env) (we_steps env) prepared (cn_stream c1));
             c2 = c1\<lparr>cn_stream := t\<rparr>
         in case result of
              None \<Rightarrow> (None, c2)
            | Some (Inr _) \<Rightarrow> (Some (Inr ()), c2)
            | Some (Inl e) \<Rightarrow> (Some (Inl e), conn_disconnect c2))"

definition write_packet_owned ::
  "primitives \<Rightarrow> byte \<Rightarrow> bytes \<Rightarrow> write_env \<Rightarrow> connection \<Rightarrow> (write_packet_error + unit) option \<times> connection" where
  "write_packet_owned P h payload env c = write_packet_owned_until P h payload None env c"

definition conn_write_packet ::
  "primitives \<Rightarrow> byte \<Rightarrow> bytes \<Rightarrow> write_env \<Rightarrow> connection \<Rightarrow> (conn_error + unit) option \<times> connection" where
  "conn_write_packet P h payload env c =
    (case write_packet_owned P h payload env c of (r, c1) \<Rightarrow> (map_option (map_sum into_inner id) r, c1))"

definition live_result :: "(write_packet_error + unit) option \<times> connection \<Rightarrow> (conn_error + unit) option \<times> connection" where
  "live_result rc = (case rc of
     (None, c1) \<Rightarrow> (None, c1)
   | (Some (Inl e), c1) \<Rightarrow> (Some (Inl (into_inner e)), c1)
   | (Some (Inr _), c1) \<Rightarrow> (Some (if conn_connected c1 then Inr () else Inl (ConnIo IoNotConnected)), c1))"

definition write_packet_live ::
  "primitives \<Rightarrow> byte \<Rightarrow> bytes \<Rightarrow> write_env \<Rightarrow> connection \<Rightarrow> (conn_error + unit) option \<times> connection" where
  "write_packet_live P h payload env c =
    (if \<not> conn_connected c then (Some (Inl (ConnIo IoNotConnected)), c)
     else live_result (write_packet_owned P h payload env c))"

definition write_packet_live_until ::
  "primitives \<Rightarrow> byte \<Rightarrow> bytes \<Rightarrow> nat \<Rightarrow> write_env \<Rightarrow> connection \<Rightarrow> (conn_error + unit) option \<times> connection" where
  "write_packet_live_until P h payload deadline env c =
    (if \<not> conn_connected c then (Some (Inl (ConnIo IoNotConnected)), c)
     else live_result (write_packet_owned_until P h payload (Some deadline) env c))"

subsection \<open>Pumping the retained frame\<close>

record advance_env =
  ae_now :: nat
  ae_unread :: nat
  ae_later :: nat
  ae_send :: send_result

definition inbound :: "nat \<Rightarrow> connection \<Rightarrow> inbound_mark" where
  "inbound unread_bytes c = (br_sequence (cn_reader c), unread_bytes)"

definition defer_elapsed :: "advance_env \<Rightarrow> connection \<Rightarrow> connection" where
  "defer_elapsed env c =
    (case (cn_peer_silence c, cn_pending c) of
       (Some silence, Some p) \<Rightarrow>
         if pw_deadline p \<le> ae_now env
         then c\<lparr>cn_pending := Some (defer_while_peer_talks (inbound (ae_unread env) c) (ae_now env) silence (cn_live_write_timeout c) p)\<rparr>
         else c
     | _ \<Rightarrow> c)"

definition advance_write :: "advance_env \<Rightarrow> connection \<Rightarrow> (write_packet_error + bool) \<times> connection" where
  "advance_write env c0 =
    (let c = defer_elapsed env c0 in
     case cn_pending c of
       None \<Rightarrow> (Inr True, c)
     | Some p \<Rightarrow>
         (case pending_advance (ae_later env) (ae_send env) p (cn_stream c) of
            (Inr True, p1, t) \<Rightarrow> (Inr True, c\<lparr>cn_pending := None, cn_stream := pending_drop p1 t\<rparr>)
          | (Inr False, p1, t) \<Rightarrow> (Inr False, c\<lparr>cn_pending := Some p1, cn_stream := t\<rparr>)
          | (Inl e, p1, t) \<Rightarrow>
              (Inl (ReplayOwned (ConnIo e)), conn_disconnect (c\<lparr>cn_pending := Some p1, cn_stream := t\<rparr>))))"

definition start_prepared ::
  "nat \<Rightarrow> advance_env \<Rightarrow> (write_packet_error + prepared_write) \<times> connection \<Rightarrow> (write_packet_error + unit) \<times> connection" where
  "start_prepared started env rc = (case rc of
     (Inl e, c1) \<Rightarrow> (Inl e, c1)
   | (Inr prepared, c1) \<Rightarrow>
       (case advance_write env ((drop_pending c1)\<lparr>cn_pending := into_pending started prepared\<rparr>) of
          (Inl e, c2) \<Rightarrow> (Inl e, c2)
        | (Inr _, c2) \<Rightarrow> (Inr (), c2)))"

definition start_write_packet_owned ::
  "primitives \<Rightarrow> byte \<Rightarrow> bytes \<Rightarrow> probe_result \<Rightarrow> nat \<Rightarrow> nat \<Rightarrow> advance_env \<Rightarrow> connection \<Rightarrow> (write_packet_error + unit) \<times> connection" where
  "start_write_packet_owned P h payload probe noted started env c =
    start_prepared started env (prepare_write_packet P h payload probe noted c)"

definition start_write_packet_owned_unprobed ::
  "primitives \<Rightarrow> byte \<Rightarrow> bytes \<Rightarrow> nat \<Rightarrow> nat \<Rightarrow> advance_env \<Rightarrow> connection \<Rightarrow> (write_packet_error + unit) \<times> connection" where
  "start_write_packet_owned_unprobed P h payload noted started env c =
    start_prepared started env (prepare_write_packet_unprobed P h payload noted c)"

definition write_pending :: "connection \<Rightarrow> bool" where
  "write_pending c \<longleftrightarrow> cn_pending c \<noteq> None"

definition live_write_deadline :: "nat \<Rightarrow> connection \<Rightarrow> nat" where
  "live_write_deadline since c = since + cn_live_write_timeout c"

definition backdate_pending_write :: "nat \<Rightarrow> connection \<Rightarrow> connection" where
  "backdate_pending_write since c =
    (case cn_pending c of
       None \<Rightarrow> c
     | Some p \<Rightarrow> c\<lparr>cn_pending := Some (p\<lparr>pw_deadline := min (pw_deadline p) (live_write_deadline since c)\<rparr>)\<rparr>)"

definition finish_pending_write :: "finish_step list \<Rightarrow> connection \<Rightarrow> (write_packet_error + unit) option \<times> connection" where
  "finish_pending_write steps c =
    (case cn_pending c of
       None \<Rightarrow> (Some (Inr ()), c)
     | Some p \<Rightarrow>
         (case pending_finish steps p (cn_stream c) of
            (None, t) \<Rightarrow> (None, c\<lparr>cn_pending := None, cn_stream := t\<rparr>)
          | (Some (Inr _), t) \<Rightarrow> (Some (Inr ()), c\<lparr>cn_pending := None, cn_stream := t\<rparr>)
          | (Some (Inl e), t) \<Rightarrow> (Some (Inl e), conn_disconnect (c\<lparr>cn_pending := None, cn_stream := t\<rparr>))))"

definition pending_write_deadline :: "connection \<Rightarrow> nat option" where
  "pending_write_deadline c = map_option pw_deadline (cn_pending c)"

subsection \<open>Reading\<close>

fun read_packet :: "primitives \<Rightarrow> read_outcome list \<Rightarrow> connection \<Rightarrow> (conn_error + packet) option \<times> connection" where
  "read_packet P outcomes c =
    (case pop P (cn_reader c) of
       (Inr (ReadPacket p), r) \<Rightarrow> (Some (Inr p), c\<lparr>cn_reader := r\<rparr>)
     | (Inl e, r) \<Rightarrow> (Some (Inl (ConnRead e)), conn_disconnect (c\<lparr>cn_reader := r\<rparr>))
     | (Inr NeedMore, r) \<Rightarrow>
         let c1 = c\<lparr>cn_reader := r\<rparr> in
         (case outcomes of
            [] \<Rightarrow> (None, c1)
          | ReadBytes bs # rest \<Rightarrow>
              if bs = [] then (Some (Inl (ConnIo IoEnded)), conn_disconnect c1)
              else read_packet P rest (c1\<lparr>cn_reader := feed (take 8192 bs) r\<rparr>)
          | ReadInterrupted # rest \<Rightarrow> read_packet P rest c1
          | _ # rest \<Rightarrow> (Some (Inl (ConnIo IoEnded)), conn_disconnect c1)))"

text \<open>With a deadline: the clock before each read, whether the timeout could be set, and the answer of the
  read; \<open>clear_ok\<close> says whether the timeout could be cleared in the end.\<close>

fun read_packet_until ::
  "primitives \<Rightarrow> nat \<Rightarrow> bool \<Rightarrow> (nat \<times> bool \<times> read_outcome) list \<Rightarrow> connection \<Rightarrow> (conn_error + packet) option \<times> connection" where
  "read_packet_until P deadline clear_ok outcomes c =
    (case pop P (cn_reader c) of
       (Inr (ReadPacket p), r) \<Rightarrow> (Some (if clear_ok then Inr p else Inl (ConnIo IoWrite)), c\<lparr>cn_reader := r\<rparr>)
     | (Inl e, r) \<Rightarrow> (Some (Inl (ConnRead e)), conn_disconnect (c\<lparr>cn_reader := r\<rparr>))
     | (Inr NeedMore, r) \<Rightarrow>
         let c1 = c\<lparr>cn_reader := r\<rparr> in
         (case outcomes of
            [] \<Rightarrow> (None, c1)
          | (now, set_ok, outcome) # rest \<Rightarrow>
              if deadline \<le> now then (Some (Inl (ConnIo IoTimedOut)), conn_disconnect c1)
              else if \<not> set_ok then (Some (Inl (ConnIo IoWrite)), c1)
              else (case outcome of
                 ReadBytes bs \<Rightarrow>
                   if bs = [] then (Some (Inl (ConnIo IoEnded)), conn_disconnect c1)
                   else read_packet_until P deadline clear_ok rest (c1\<lparr>cn_reader := feed (take 8192 bs) r\<rparr>)
               | ReadInterrupted \<Rightarrow> read_packet_until P deadline clear_ok rest c1
               | _ \<Rightarrow> (Some (Inl (ConnIo IoEnded)), conn_disconnect c1))))"

text \<open>\<^verbatim>\<open>try_read\<close>: at most four receives.  For each the capacity of the reader's buffer, which the allocator chose,
  and the answer of the kernel.\<close>

fun try_read_loop ::
  "primitives \<Rightarrow> nat \<Rightarrow> (nat \<Rightarrow> nat \<times> read_outcome) \<Rightarrow> backed_reader \<Rightarrow> (conn_error + packet option) \<times> backed_reader" where
  "try_read_loop P 0 env r =
    (case pop P r of
       (Inl e, r1) \<Rightarrow> (Inl (ConnRead e), r1)
     | (Inr (ReadPacket p), r1) \<Rightarrow> (Inr (Some p), r1)
     | (Inr NeedMore, r1) \<Rightarrow> (Inr None, r1))"
| "try_read_loop P (Suc n) env r =
    (case pop P r of
       (Inl e, r1) \<Rightarrow> (Inl (ConnRead e), r1)
     | (Inr (ReadPacket p), r1) \<Rightarrow> (Inr (Some p), r1)
     | (Inr NeedMore, r1) \<Rightarrow>
         let r2 = prepare_socket_read (fst (env n)) r1 in
         (case snd (env n) of
            ReadBytes bs \<Rightarrow>
              if bs = [] then (Inl (ConnIo IoEnded), r2)
              else let got = take (br_read_requested r2) bs
                in try_read_loop P n env (commit_socket_read (length got) (fill_slice got r2))
          | ReadWouldBlock \<Rightarrow> (Inr None, r2)
          | ReadInterrupted \<Rightarrow> (Inr None, r2)
          | ReadFailed \<Rightarrow> (Inl (ConnIo IoEnded), r2)))"

definition try_read :: "primitives \<Rightarrow> (nat \<Rightarrow> nat \<times> read_outcome) \<Rightarrow> backed_reader \<Rightarrow> (conn_error + packet option) \<times> backed_reader" where
  "try_read P env r = try_read_loop P 4 env r"

definition try_read_packet :: "primitives \<Rightarrow> (nat \<Rightarrow> nat \<times> read_outcome) \<Rightarrow> connection \<Rightarrow> (conn_error + packet option) \<times> connection" where
  "try_read_packet P env c =
    (case try_read P env (cn_reader c) of
       (Inl e, r) \<Rightarrow> (Inl e, conn_disconnect (c\<lparr>cn_reader := r\<rparr>))
     | (Inr x, r) \<Rightarrow> (Inr x, c\<lparr>cn_reader := r\<rparr>))"

text \<open>The receive half a server session reads through: an error invalidates the shared reader only.\<close>

definition reader_try_read_packet ::
  "primitives \<Rightarrow> (nat \<Rightarrow> nat \<times> read_outcome) \<Rightarrow> connection \<Rightarrow> (conn_error + packet option) \<times> connection" where
  "reader_try_read_packet P env c =
    (case try_read P env (cn_reader c) of
       (Inl e, r) \<Rightarrow> (Inl e, c\<lparr>cn_reader := reader_invalidate r\<rparr>)
     | (Inr x, r) \<Rightarrow> (Inr x, c\<lparr>cn_reader := r\<rparr>))"

definition has_buffered_read :: "connection \<Rightarrow> bool" where
  "has_buffered_read c = has_buffered_data (cn_reader c)"

subsection \<open>Shutdown, acknowledgements and the output bound\<close>

datatype shutdown_result = ShutdownDone | ShutdownNotConnected | ShutdownFailed

definition conn_shutdown :: "shutdown_result \<Rightarrow> connection \<Rightarrow> (conn_error + unit) \<times> connection" where
  "conn_shutdown result c =
    (let c1 = conn_disconnect c; c2 = c1\<lparr>cn_stream := (cn_stream c1)\<lparr>tp_shutdown := True\<rparr>\<rparr>
     in case result of
          ShutdownDone \<Rightarrow> (Inr (), c2)
        | ShutdownNotConnected \<Rightarrow> (Inr (), c1)
        | ShutdownFailed \<Rightarrow> (Inl (ConnIo IoWrite), c1))"

definition can_buffer_write :: "int \<Rightarrow> connection \<Rightarrow> bool" where
  "can_buffer_write n c = has_capacity n (cn_writer c)"

definition acknowledge_delivery :: "int \<Rightarrow> nat \<Rightarrow> connection \<Rightarrow> connection" where
  "acknowledge_delivery sequence now c0 =
    (let c = c0\<lparr>cn_writer := acknowledge sequence (cn_writer c0)\<rparr> in
     case cn_window c of
       None \<Rightarrow> c
     | Some w \<Rightarrow>
         (case delivery_backlog (cn_writer c) of
            None \<Rightarrow> c
          | Some (acknowledged, unacknowledged) \<Rightarrow>
              if acknowledged = sequence \<and> bw_connected (cn_writer c)
              then c\<lparr>cn_window := Some (on_ack acknowledged
                       (unacknowledged_payload acknowledged unacknowledged (bw_sequence (cn_writer c))) now w)\<rparr>
              else c))"

definition bound_unacknowledged_output :: "connection \<Rightarrow> connection" where
  "bound_unacknowledged_output c =
    (case cn_window c of None \<Rightarrow> c\<lparr>cn_window := Some output_window_default\<rparr> | Some _ \<Rightarrow> c)"

definition seed_output_round_trip :: "nat \<Rightarrow> connection \<Rightarrow> connection" where
  "seed_output_round_trip rtt c = c\<lparr>cn_window := map_option (seed_round_trip rtt) (cn_window c)\<rparr>"

definition output_window_blocked :: "nat \<Rightarrow> connection \<Rightarrow> nat option \<times> connection" where
  "output_window_blocked now c =
    (case cn_window c of
       None \<Rightarrow> (None, c)
     | Some w \<Rightarrow>
         if \<not> bw_connected (cn_writer c) then (None, c)
         else (case delivery_backlog (cn_writer c) of
            None \<Rightarrow> (None, c)
          | Some (acknowledged, unacknowledged) \<Rightarrow>
              (case blocked acknowledged (unacknowledged_payload acknowledged unacknowledged (bw_sequence (cn_writer c))) now w of
                 (until, w1) \<Rightarrow> (until, c\<lparr>cn_window := Some w1\<rparr>))))"

definition keepalive_ack :: "connection \<Rightarrow> bytes" where
  "keepalive_ack c = encode_ack (br_sequence (cn_reader c))"

definition next_keepalive_ack :: "ack_side \<Rightarrow> bool \<Rightarrow> connection \<Rightarrow> bytes option \<times> connection" where
  "next_keepalive_ack side volume c =
    (case ack_next side (br_sequence (cn_reader c)) (br_data_sequence (cn_reader c))
            (delivery_backlog (cn_writer c) \<noteq> None) volume (cn_acks c) of
       (a, s) \<Rightarrow> (a, c\<lparr>cn_acks := s\<rparr>))"

text \<open>The two settings of \<^verbatim>\<open>minimize_output_buffering\<close>; the socket options it also sets are not observable here.\<close>

definition minimize_output_buffering :: "connection \<Rightarrow> connection" where
  "minimize_output_buffering c =
    c\<lparr>cn_live_write_timeout := FLOW_CONTROL_LIVE_WRITE_TIMEOUT, cn_peer_silence := Some FLOW_CONTROL_PEER_SILENCE\<rparr>"

section \<open>The bytes on the transport\<close>

text \<open>What a transport no longer written to carries of the stream of the packets \<open>log\<close>: a prefix, and whole frames
  unless it was shut down.\<close>

definition left_on :: "primitives \<Rightarrow> crypto_handler \<Rightarrow> (byte \<times> bytes) list \<Rightarrow> transport \<Rightarrow> bool" where
  "left_on P c log t \<longleftrightarrow> prefix (tp_sent t) (stream_of P c log) \<and>
    (tp_shutdown t \<or> (\<exists>n \<le> length log. tp_sent t = stream_of P c (take n log)))"

text \<open>A connection whose stream was opened when \<open>before\<close> had been written, and that has taken \<open>log\<close> since.\<close>

definition conn_inv ::
  "primitives \<Rightarrow> crypto_handler \<Rightarrow> (byte \<times> bytes) list \<Rightarrow> (byte \<times> bytes) list \<Rightarrow> connection \<Rightarrow> bool" where
  "conn_inv P c0 before log c \<longleftrightarrow>
    (\<exists>hi. writer_inv P c0 (before @ log) hi (cn_writer c)) \<and>
    (case cn_pending c of
       Some p \<Rightarrow> conn_connected c \<and> \<not> tp_shutdown (cn_stream c) \<and> pw_offset p < length (pw_frame p) \<and>
         tp_sent (cn_stream c) @ drop (pw_offset p) (pw_frame p) = stream_of P (sealed_state P c0 before) log
     | None \<Rightarrow>
         if conn_connected c then \<not> tp_shutdown (cn_stream c) \<and> tp_sent (cn_stream c) = stream_of P (sealed_state P c0 before) log
         else left_on P (sealed_state P c0 before) log (cn_stream c))"

text \<open>The operations of a connection, with the packets it took so far.\<close>

definition logged :: "connection \<Rightarrow> byte \<Rightarrow> bytes \<Rightarrow> connection \<Rightarrow> (byte \<times> bytes) list \<Rightarrow> (byte \<times> bytes) list" where
  "logged c h p c' log = (if bw_sequence (cn_writer c') = bw_sequence (cn_writer c) then log else log @ [(h, p)])"

inductive conn_run :: "primitives \<Rightarrow> connection \<Rightarrow> (byte \<times> bytes) list \<Rightarrow> connection \<Rightarrow> bool" for P c0 where
  run_opened: "conn_run P c0 [] c0"
| run_start: "conn_run P c0 log c \<Longrightarrow> start_write_packet_owned P h p probe noted started env c = (r, c') \<Longrightarrow>
    conn_run P c0 (logged c h p c' log) c'"
| run_start_unprobed: "conn_run P c0 log c \<Longrightarrow> start_write_packet_owned_unprobed P h p noted started env c = (r, c') \<Longrightarrow>
    conn_run P c0 (logged c h p c' log) c'"
| run_write: "conn_run P c0 log c \<Longrightarrow> write_packet_owned_until P h p deadline wenv c = (Some wr, c') \<Longrightarrow>
    conn_run P c0 (logged c h p c' log) c'"
| run_advance: "conn_run P c0 log c \<Longrightarrow> advance_write env c = (ar, c') \<Longrightarrow> conn_run P c0 log c'"
| run_finish: "conn_run P c0 log c \<Longrightarrow> finish_pending_write steps c = (Some fr, c') \<Longrightarrow> conn_run P c0 log c'"
| run_backdate: "conn_run P c0 log c \<Longrightarrow> conn_run P c0 log (backdate_pending_write since c)"
| run_read: "conn_run P c0 log c \<Longrightarrow> read_packet P outcomes c = (rr, c') \<Longrightarrow> conn_run P c0 log c'"
| run_read_until: "conn_run P c0 log c \<Longrightarrow> read_packet_until P d clear_ok timed c = (rr, c') \<Longrightarrow> conn_run P c0 log c'"
| run_try_read: "conn_run P c0 log c \<Longrightarrow> try_read_packet P renv c = (tr, c') \<Longrightarrow> conn_run P c0 log c'"
| run_reader: "conn_run P c0 log c \<Longrightarrow> reader_try_read_packet P renv c = (tr, c') \<Longrightarrow> conn_run P c0 log c'"
| run_acknowledge: "conn_run P c0 log c \<Longrightarrow> conn_run P c0 log (acknowledge_delivery a now c)"
| run_keepalive: "conn_run P c0 log c \<Longrightarrow> next_keepalive_ack side volume c = (ack, c') \<Longrightarrow> conn_run P c0 log c'"
| run_blocked: "conn_run P c0 log c \<Longrightarrow> output_window_blocked now c = (until, c') \<Longrightarrow> conn_run P c0 log c'"
| run_bound: "conn_run P c0 log c \<Longrightarrow> conn_run P c0 log (bound_unacknowledged_output c)"
| run_seed: "conn_run P c0 log c \<Longrightarrow> conn_run P c0 log (seed_output_round_trip rtt c)"
| run_minimize: "conn_run P c0 log c \<Longrightarrow> conn_run P c0 log (minimize_output_buffering c)"
| run_disconnect: "conn_run P c0 log c \<Longrightarrow> conn_run P c0 log (conn_disconnect c)"
| run_shutdown: "conn_run P c0 log c \<Longrightarrow> conn_shutdown sr c = (res, c') \<Longrightarrow> conn_run P c0 log c'"

lemma conn_inv_cong:
  "cn_writer c' = cn_writer c \<Longrightarrow> cn_stream c' = cn_stream c \<Longrightarrow> cn_pending c' = cn_pending c \<Longrightarrow>
   conn_inv P c0 before log c' \<longleftrightarrow> conn_inv P c0 before log c"
  by (simp add: conn_inv_def conn_connected_def split: option.split)

lemma left_on_append:
  assumes "left_on P c log t"
  shows "left_on P c (log @ log') t"
proof -
  have "\<exists>n \<le> length (log @ log'). tp_sent t = stream_of P c (take n (log @ log'))" if "n \<le> length log" "tp_sent t = stream_of P c (take n log)" for n
    using that by (intro exI [of _ n]) simp
  then show ?thesis using assms unfolding left_on_def stream_of_append by auto
qed

lemma left_on_whole: "tp_sent t = stream_of P c log \<Longrightarrow> left_on P c log t"
  unfolding left_on_def by (intro conjI disjI2 exI [of _ "length log"]) auto

lemma left_on_shutdown: "prefix (tp_sent t) (stream_of P c log) \<Longrightarrow> tp_shutdown t \<Longrightarrow> left_on P c log t"
  by (simp add: left_on_def)

lemma pending_drop_fields [simp]:
  "tp_sent (pending_drop p t) = tp_sent t" "tp_shutdown t \<Longrightarrow> tp_shutdown (pending_drop p t)"
  "pw_offset p \<noteq> length (pw_frame p) \<Longrightarrow> tp_shutdown (pending_drop p t)"
  "pw_offset p = length (pw_frame p) \<Longrightarrow> pending_drop p t = t"
  by (simp_all add: pending_drop_def)

lemma disconnect_fields [simp]:
  "cn_pending (conn_disconnect c) = None" "cn_writer (conn_disconnect c) = writer_invalidate (cn_writer c)"
  "conn_connected (conn_disconnect c) = False"
  by (simp_all add: conn_disconnect_def drop_pending_def conn_connected_def writer_invalidate_def Let_def split: option.split)

lemma disconnect_stream:
  "cn_stream (conn_disconnect c) = (case cn_pending c of None \<Rightarrow> cn_stream c | Some p \<Rightarrow> pending_drop p (cn_stream c))"
  by (simp add: conn_disconnect_def drop_pending_def Let_def split: option.split)

lemma disconnect_inv:
  assumes "conn_inv P c0 before log c"
  shows "conn_inv P c0 before log (conn_disconnect c)"
proof -
  have w: "\<exists>hi. writer_inv P c0 (before @ log) hi (writer_invalidate (cn_writer c))"
    using assms invalidate_inv unfolding conn_inv_def by blast
  have "left_on P (sealed_state P c0 before) log (cn_stream (conn_disconnect c))"
  proof (cases "cn_pending c")
    case None
    then show ?thesis using assms left_on_whole by (auto simp: conn_inv_def disconnect_stream split: if_splits)
  next
    case (Some p)
    then have "prefix (tp_sent (cn_stream c)) (stream_of P (sealed_state P c0 before) log)" "pw_offset p < length (pw_frame p)"
      using assms by (auto simp: conn_inv_def intro: prefixI [OF sym])
    then show ?thesis using Some by (intro left_on_shutdown) (simp_all add: disconnect_stream)
  qed
  then show ?thesis using w by (simp add: conn_inv_def)
qed

text \<open>Sending a frame, piece by piece.\<close>

lemma pending_advance_spec:
  assumes "pending_advance now result p t = (res, p', t')" "pw_offset p < length (pw_frame p)"
  shows "pw_frame p' = pw_frame p \<and> tp_shutdown t' = tp_shutdown t \<and> pw_deadline p' = pw_deadline p \<and>
    tp_sent t' @ drop (pw_offset p') (pw_frame p) = tp_sent t @ drop (pw_offset p) (pw_frame p) \<and>
    pw_offset p' \<le> length (pw_frame p) \<and> (res = Inr True \<longleftrightarrow> pw_offset p' = length (pw_frame p))"
proof -
  define slice where "slice = take (min (length (pw_frame p)) (pw_offset p + WRITE_QUANTUM) - pw_offset p) (drop (pw_offset p) (pw_frame p))"
  have cut: "take (min n (length slice)) slice = take n slice" for n by (simp add: min_def)
  have whole: "take n slice @ drop (pw_offset p + min n (length slice)) (pw_frame p) = drop (pw_offset p) (pw_frame p)" for n
  proof -
    have "take n slice = take (min n (length slice)) (drop (pw_offset p) (pw_frame p))"
      unfolding slice_def by (simp add: min.assoc min.commute min.left_commute)
    then show ?thesis using append_take_drop_id [of "min n (length slice)" "drop (pw_offset p) (pw_frame p)"] by (simp add: add.commute)
  qed
  have "pw_offset p + min n (length slice) \<le> length (pw_frame p)" for n using assms(2) by (auto simp: slice_def)
  then show ?thesis using assms whole
    by (auto simp: pending_advance_def Let_def slice_def [symmetric] cut split: if_splits send_result.splits)
qed

lemma finish_loop_spec:
  assumes "finish_loop steps p t = (res, p', t')" "pw_offset p < length (pw_frame p)"
  shows "pw_frame p' = pw_frame p \<and> tp_shutdown t' = tp_shutdown t \<and>
    tp_sent t' @ drop (pw_offset p') (pw_frame p) = tp_sent t @ drop (pw_offset p) (pw_frame p) \<and>
    pw_offset p' \<le> length (pw_frame p) \<and> (res = Some (Inr ()) \<longleftrightarrow> pw_offset p' = length (pw_frame p))"
  using assms
proof (induction steps arbitrary: p t)
  case (Cons st steps)
  obtain r p1 t1 where a: "pending_advance (fs_now st) (fs_send st) p t = (r, p1, t1)" by (metis prod_cases3)
  note s = pending_advance_spec [OF a Cons.prems(2)]
  show ?case
  proof (cases "r = Inr False")
    case True
    then have lt: "pw_offset p1 < length (pw_frame p1)" using s by auto
    show ?thesis using Cons.prems(1) Cons.IH [of p1 t1, OF _ lt] a True s lt
      by (auto split: option.splits wait_result.splits)
  next
    case False
    then show ?thesis using Cons.prems(1) a s by (cases r) (auto split: if_splits)
  qed
qed auto

lemma pending_finish_spec:
  assumes "pending_finish steps p t = (Some res, t')" "pw_offset p < length (pw_frame p)"
  shows "prefix (tp_sent t') (tp_sent t @ drop (pw_offset p) (pw_frame p)) \<and>
    (if res = Inr () then tp_sent t' = tp_sent t @ drop (pw_offset p) (pw_frame p) \<and> tp_shutdown t' = tp_shutdown t else tp_shutdown t')"
proof -
  obtain r p1 t1 where l: "finish_loop steps p t = (r, p1, t1)" by (metis prod_cases3)
  note s = finish_loop_spec [OF l assms(2)]
  then have "prefix (tp_sent t1) (tp_sent t @ drop (pw_offset p) (pw_frame p))" by (metis prefixI)
  then show ?thesis using assms(1) l s by (auto simp: pending_finish_def split: option.splits sum.splits)
qed

text \<open>Taking a packet.\<close>

lemma note_output_fields [simp]:
  "cn_writer (note_output out h n now c) = cn_writer c" "cn_stream (note_output out h n now c) = cn_stream c"
  "cn_pending (note_output out h n now c) = cn_pending c" "cn_reader (note_output out h n now c) = cn_reader c"
  "cn_live_write_timeout (note_output out h n now c) = cn_live_write_timeout c"
  by (simp_all add: note_output_def Let_def split: option.split)

lemma admit_packet_cases:
  assumes "sodium_laws P" "conn_inv P c0 before log c" "cn_pending c = None" "admit_packet P h p now c = (res, c')"
  obtains (refused) "res = Inl (BeforeReplay ConnBackpressure)" "conn_inv P c0 before log c'" "\<not> conn_connected c"
      "logged c h p c' log = log" "cn_pending c' = None"
  | (buffered) "res = Inr None" "conn_inv P c0 before (log @ [(h, p)]) c'" "\<not> conn_connected c"
      "logged c h p c' log = log @ [(h, p)]" "cn_pending c' = None"
  | (live) f timeout where "res = Inr (Some (f, timeout))" "f \<noteq> []" "logged c h p c' log = log @ [(h, p)]" "cn_pending c' = None"
      "\<exists>hi. writer_inv P c0 (before @ log @ [(h, p)]) hi (cn_writer c')" "conn_connected c'" "\<not> tp_shutdown (cn_stream c')"
      "tp_sent (cn_stream c') @ f = stream_of P (sealed_state P c0 before) (log @ [(h, p)])"
proof -
  obtain out w where w: "write_packet P h p (cn_writer c) = (out, w)" by fastforce
  obtain hi where inv: "writer_inv P c0 (before @ log) hi (cn_writer c)" using assms(2) by (auto simp: conn_inv_def)
  then have ok: "writer_ok P c0 (before @ log) (cn_writer c)" by (simp add: writer_inv_def)
  note o = write_outcome [OF assms(1) ok w]
  have c': "cn_writer c' = w" "cn_stream c' = cn_stream c" "cn_pending c' = None"
    and res: "res = (case out of Send f \<Rightarrow> Inr (if bw_connected (cn_writer c) then Some (f, cn_live_write_timeout c) else None)
      | BufferedOnly \<Rightarrow> Inr None | Skipped \<Rightarrow> Inl (BeforeReplay ConnBackpressure))"
    using assms(3,4) w by (auto simp: admit_packet_def Let_def split: writer_outcome.splits)
  have conn: "bw_connected w = bw_connected (cn_writer c)"
  proof (cases "out = Skipped")
    case True
    then show ?thesis using o by simp
  next
    case False
    then show ?thesis using w by (auto simp: write_packet_def commit_write_def reserve_write_def Let_def split: prod.splits option.splits if_splits)
  qed
  show thesis
  proof (cases "out = Skipped")
    case True
    then have "w = cn_writer c" "\<not> bw_connected (cn_writer c)" using o by auto
    then show thesis using True res c' assms(2,3) conn_inv_cong [of c' c P c0 before log]
      by (intro refused) (auto simp: logged_def conn_connected_def)
  next
    case False
    have inv': "writer_inv P c0 (before @ log @ [(h, p)]) hi w" using write_inv [OF assms(1) inv w False] by simp
    have lg: "logged c h p c' log = log @ [(h, p)]" using o False c' by (auto simp: logged_def)
    show thesis
    proof (cases "bw_connected (cn_writer c)")
      case True
      let ?f = "frame_be_u32 (last (sealed P c0 ((before @ log) @ [(h, p)])))"
      have "out = Send ?f" using o False True by simp
      moreover have st: "stream_of P (sealed_state P c0 before) (log @ [(h, p)]) =
          stream_of P (sealed_state P c0 before) log @ ?f"
        by (simp add: stream_of_append stream_of_single sealed_append sealed_single sealed_state_append)
      moreover have "?f \<noteq> []" by (simp add: frame_be_u32_def length_u32_to_be_bytes flip: length_0_conv)
      ultimately show thesis using True res c' assms(2,3) inv' lg conn
        by (intro live [of ?f "cn_live_write_timeout c"]) (auto simp: conn_inv_def conn_connected_def)
    next
      case dis: False
      then have "left_on P (sealed_state P c0 before) log (cn_stream c)" using assms(2,3) by (simp add: conn_inv_def conn_connected_def)
      then show thesis using dis False o res c' inv' lg conn left_on_append
        by (intro buffered) (auto simp: conn_inv_def conn_connected_def)
    qed
  qed
qed

lemma probed_inv:
  assumes "conn_inv P c0 before log c" "cn_pending c = None"
  shows "conn_inv P c0 before log (probed probe c)" "cn_pending (probed probe c) = None"
    "bw_sequence (cn_writer (probed probe c)) = bw_sequence (cn_writer c)"
proof -
  define lost where "lost = c\<lparr>cn_writer := writer_invalidate (cn_writer c)\<rparr>"
  have "conn_inv P c0 before log lost"
    using disconnect_inv [OF assms(1)] assms(2) unfolding lost_def
    by (subst conn_inv_cong [of _ "conn_disconnect c"]) (simp_all add: disconnect_stream)
  then show "conn_inv P c0 before log (probed probe c)" "cn_pending (probed probe c) = None"
      "bw_sequence (cn_writer (probed probe c)) = bw_sequence (cn_writer c)"
    using assms disconnect_inv [OF assms(1)] disconnect_inv [OF disconnect_inv [OF assms(1)]]
    by (auto simp: probed_def refresh_connectivity_def lost_def writer_invalidate_def split: probe_result.splits if_splits)
qed

lemma logged_probed [simp]: "cn_pending c = None \<Longrightarrow> conn_inv P c0 before log c \<Longrightarrow> logged (probed probe c) h p c' l = logged c h p c' l"
  using probed_inv(3) by (simp add: logged_def)

text \<open>The operations keep the invariant.\<close>

lemma conn_inv_pending:
  "cn_pending c = Some p \<Longrightarrow> conn_inv P c0 before log c \<longleftrightarrow>
   (\<exists>hi. writer_inv P c0 (before @ log) hi (cn_writer c)) \<and> conn_connected c \<and> \<not> tp_shutdown (cn_stream c) \<and>
   pw_offset p < length (pw_frame p) \<and>
   tp_sent (cn_stream c) @ drop (pw_offset p) (pw_frame p) = stream_of P (sealed_state P c0 before) log"
  by (simp add: conn_inv_def)

lemma conn_inv_sent:
  "cn_pending c = None \<Longrightarrow> \<exists>hi. writer_inv P c0 (before @ log) hi (cn_writer c) \<Longrightarrow> conn_connected c \<Longrightarrow> \<not> tp_shutdown (cn_stream c) \<Longrightarrow>
   tp_sent (cn_stream c) = stream_of P (sealed_state P c0 before) log \<Longrightarrow> conn_inv P c0 before log c"
  by (simp add: conn_inv_def)

lemma conn_inv_left:
  "cn_pending c = None \<Longrightarrow> \<exists>hi. writer_inv P c0 (before @ log) hi (cn_writer c) \<Longrightarrow> \<not> conn_connected c \<Longrightarrow>
   left_on P (sealed_state P c0 before) log (cn_stream c) \<Longrightarrow> conn_inv P c0 before log c"
  by (simp add: conn_inv_def)

lemma conn_inv_repending:
  "conn_inv P c0 before log c \<Longrightarrow> cn_pending c = Some p \<Longrightarrow> pw_frame q = pw_frame p \<Longrightarrow> pw_offset q = pw_offset p \<Longrightarrow>
   conn_inv P c0 before log (c\<lparr>cn_pending := Some q\<rparr>)"
  by (simp add: conn_inv_pending conn_connected_def)

lemma defer_fields [simp]:
  "pw_frame (defer_while_peer_talks i now s t p) = pw_frame p" "pw_offset (defer_while_peer_talks i now s t p) = pw_offset p"
  by (simp_all add: defer_while_peer_talks_def Let_def split: option.split prod.split)

lemma defer_elapsed_inv:
  "conn_inv P c0 before log c \<Longrightarrow> conn_inv P c0 before log (defer_elapsed env c)"
  "cn_writer (defer_elapsed env c) = cn_writer c"
  using conn_inv_repending by (auto simp: defer_elapsed_def split: option.splits)

lemma advance_write_inv:
  assumes "conn_inv P c0 before log c" "advance_write env c = (r, c')"
  shows "conn_inv P c0 before log c' \<and> bw_sequence (cn_writer c') = bw_sequence (cn_writer c)"
proof -
  define d where "d = defer_elapsed env c"
  have inv: "conn_inv P c0 before log d" and w: "cn_writer d = cn_writer c"
    unfolding d_def using defer_elapsed_inv assms(1) by auto
  show ?thesis
  proof (cases "cn_pending d")
    case None
    then show ?thesis using assms(2) inv w by (simp add: advance_write_def d_def [symmetric])
  next
    case (Some p)
    obtain res p1 t1 where a: "pending_advance (ae_later env) (ae_send env) p (cn_stream d) = (res, p1, t1)" by (metis prod_cases3)
    note i = inv [unfolded conn_inv_pending [OF Some]]
    then have "pw_offset p < length (pw_frame p)" by simp
    note s = pending_advance_spec [OF a this]
    have keep: "conn_inv P c0 before log (d\<lparr>cn_pending := Some p1, cn_stream := t1\<rparr>)" if "res \<noteq> Inr True"
      using that s i by (subst conn_inv_pending [of _ p1]) (auto simp: conn_connected_def)
    consider "res = Inr True" | "res = Inr False" | e where "res = Inl e" by (metis sum.exhaust_sel)
    then show ?thesis
    proof cases
      case 1
      then have "c' = d\<lparr>cn_pending := None, cn_stream := t1\<rparr>" using assms(2) a Some s
        by (simp add: advance_write_def d_def [symmetric])
      then show ?thesis using i s 1 w by (auto intro!: conn_inv_sent simp: conn_connected_def)
    next
      case 2
      then have "c' = d\<lparr>cn_pending := Some p1, cn_stream := t1\<rparr>" using assms(2) a Some
        by (simp add: advance_write_def d_def [symmetric])
      then show ?thesis using keep 2 w by simp
    next
      case (3 e)
      then have "c' = conn_disconnect (d\<lparr>cn_pending := Some p1, cn_stream := t1\<rparr>)" using assms(2) a Some
        by (simp add: advance_write_def d_def [symmetric])
      then show ?thesis using disconnect_inv [OF keep] 3 w by (simp add: writer_invalidate_def)
    qed
  qed
qed

lemma start_prepared_inv:
  assumes "sodium_laws P" "conn_inv P c0 before log c" "cn_pending c = None"
    "start_prepared started env (admit_packet P h p now c) = (r, c')"
  shows "conn_inv P c0 before (logged c h p c' log) c'"
proof -
  obtain res c1 where a: "admit_packet P h p now c = (res, c1)" by fastforce
  from assms(1-3) a show ?thesis
  proof (cases rule: admit_packet_cases)
    case refused
    then show ?thesis using assms(4) a by (simp add: start_prepared_def)
  next
    case buffered
    then have "drop_pending c1 = c1" "c1\<lparr>cn_pending := None\<rparr> = c1" by (simp_all add: drop_pending_def)
    then obtain ar where "advance_write env c1 = (ar, c')"
      using buffered(1) assms(4) a by (auto simp: start_prepared_def into_pending_def split: prod.splits sum.splits)
    from advance_write_inv [OF buffered(2) this] show ?thesis using buffered(4) by (simp add: logged_def split: if_splits)
  next
    case (live f timeout)
    define d where "d = c1\<lparr>cn_pending := into_pending started (Some (f, timeout))\<rparr>"
    have "drop_pending c1 = c1" using live(4) by (simp add: drop_pending_def)
    then obtain ar where adv: "advance_write env d = (ar, c')"
      using live(1) assms(4) a by (auto simp: start_prepared_def d_def split: prod.splits sum.splits)
    have "conn_inv P c0 before (log @ [(h, p)]) d"
      unfolding d_def using live by (subst conn_inv_pending) (auto simp: into_pending_def conn_connected_def)
    from advance_write_inv [OF this adv] show ?thesis using live(3) by (simp add: logged_def d_def split: if_splits)
  qed
qed

lemma start_inv:
  assumes "sodium_laws P" "conn_inv P c0 before log c" "start_write_packet_owned P h p probe noted started env c = (r, c')"
  shows "conn_inv P c0 before (logged c h p c' log) c'"
proof (cases "cn_pending c")
  case None
  note q = probed_inv(1,2) [OF assms(2) None, of probe]
  show ?thesis using start_prepared_inv [OF assms(1) q, of started env h p noted r c'] assms(2,3) None
    by (simp add: start_write_packet_owned_def prepare_write_packet_def)
next
  case (Some q)
  then show ?thesis using assms(2,3) by (simp add: start_write_packet_owned_def prepare_write_packet_def start_prepared_def logged_def)
qed

lemma start_logs:
  assumes "sodium_laws P" "conn_inv P c0 before log c" "cn_pending c = None" "conn_connected c"
    "start_prepared started env (admit_packet P h p now c) = (r, c')"
  shows "bw_sequence (cn_writer c') = bw_sequence (cn_writer c) + 1"
proof -
  obtain res c1 where a: "admit_packet P h p now c = (res, c1)" by fastforce
  from assms(1-3) a show ?thesis
  proof (cases rule: admit_packet_cases)
    case (live f timeout)
    define d where "d = c1\<lparr>cn_pending := into_pending started (Some (f, timeout))\<rparr>"
    have "drop_pending c1 = c1" using live(4) by (simp add: drop_pending_def)
    then obtain ar where adv: "advance_write env d = (ar, c')"
      using live(1) assms(5) a by (auto simp: start_prepared_def d_def split: prod.splits sum.splits)
    have "conn_inv P c0 before (log @ [(h, p)]) d"
      unfolding d_def using live by (subst conn_inv_pending) (auto simp: into_pending_def conn_connected_def)
    from advance_write_inv [OF this adv] have "bw_sequence (cn_writer c') = bw_sequence (cn_writer c1)" by (simp add: d_def)
    moreover have "bw_sequence (cn_writer c1) = int (length (before @ log @ [(h, p)]))" "bw_sequence (cn_writer c) = int (length (before @ log))"
      using live(5) assms(2) by (auto simp: conn_inv_def writer_inv_def writer_ok_def)
    ultimately show ?thesis by simp
  qed (use assms(4) in simp_all)
qed

lemma start_unprobed_inv:
  assumes "sodium_laws P" "conn_inv P c0 before log c" "start_write_packet_owned_unprobed P h p noted started env c = (r, c')"
  shows "conn_inv P c0 before (logged c h p c' log) c'"
proof (cases "cn_pending c")
  case None
  then show ?thesis using start_prepared_inv [OF assms(1,2) None, of started env h p noted r c'] assms(3)
    by (simp add: start_write_packet_owned_unprobed_def prepare_write_packet_unprobed_def)
next
  case (Some q)
  then show ?thesis using assms(2,3)
    by (simp add: start_write_packet_owned_unprobed_def prepare_write_packet_unprobed_def start_prepared_def logged_def)
qed

lemma pending_id: "cn_pending c = x \<Longrightarrow> c\<lparr>cn_pending := x\<rparr> = c"
  by (cases c) simp

lemma finish_inv:
  assumes "conn_inv P c0 before log (c\<lparr>cn_pending := Some p\<rparr>)" "pending_finish steps p (cn_stream c) = (Some res, t)"
  shows "conn_inv P c0 before log (case res of Inr _ \<Rightarrow> c\<lparr>cn_pending := None, cn_stream := t\<rparr>
      | Inl e \<Rightarrow> conn_disconnect (c\<lparr>cn_pending := None, cn_stream := t\<rparr>))"
proof -
  note i = assms(1) [unfolded conn_inv_pending [of "c\<lparr>cn_pending := Some p\<rparr>" p, simplified]]
  then have "pw_offset p < length (pw_frame p)" by simp
  note s = pending_finish_spec [OF assms(2) this]
  show ?thesis
  proof (cases res)
    case (Inr u)
    then show ?thesis using i s by (auto intro!: conn_inv_sent simp: conn_connected_def)
  next
    case (Inl e)
    have "\<exists>hi. writer_inv P c0 (before @ log) hi (writer_invalidate (cn_writer c))" using i invalidate_inv by blast
    moreover have "left_on P (sealed_state P c0 before) log t" using Inl i s by (auto intro: left_on_shutdown)
    ultimately show ?thesis using Inl by (auto intro!: conn_inv_left simp: disconnect_stream)
  qed
qed

lemma finish_pending_inv:
  assumes "conn_inv P c0 before log c" "finish_pending_write steps c = (Some r, c')"
  shows "conn_inv P c0 before log c'"
proof (cases "cn_pending c")
  case None
  then show ?thesis using assms by (simp add: finish_pending_write_def)
next
  case (Some p)
  then have "conn_inv P c0 before log (c\<lparr>cn_pending := Some p\<rparr>)" using assms(1) by (simp add: pending_id)
  note f = finish_inv [OF this]
  obtain res t where pf: "pending_finish steps p (cn_stream c) = (res, t)" by fastforce
  then obtain x where x: "res = Some x" using assms(2) Some by (cases res) (auto simp: finish_pending_write_def)
  show ?thesis using f [OF pf [unfolded x]] assms(2) Some pf x by (cases x) (auto simp: finish_pending_write_def)
qed

lemma send_inv:
  assumes "conn_inv P c0 before log (c\<lparr>cn_pending := into_pending now (Some (f, timeout))\<rparr>)" "cn_pending c = None"
    "(case deadline of Some d \<Rightarrow> prepared_send_until d now steps (Some (f, timeout)) (cn_stream c)
       | None \<Rightarrow> prepared_send now steps (Some (f, timeout)) (cn_stream c)) = (Some res, t)"
  shows "conn_inv P c0 before log (case res of Inr _ \<Rightarrow> c\<lparr>cn_stream := t\<rparr> | Inl e \<Rightarrow> conn_disconnect (c\<lparr>cn_stream := t\<rparr>))"
proof -
  define p where "p = \<lparr>pw_frame = f, pw_offset = 0, pw_deadline = (case deadline of Some d \<Rightarrow> d | None \<Rightarrow> now + timeout), pw_heard = None\<rparr>"
  have f: "pending_finish steps p (cn_stream c) = (Some res, t)"
    using assms(3) by (auto simp: prepared_send_def prepared_send_until_def into_pending_def p_def split: option.splits)
  have "conn_inv P c0 before log (c\<lparr>cn_pending := Some p\<rparr>)"
    using conn_inv_repending [OF assms(1), of "\<lparr>pw_frame = f, pw_offset = 0, pw_deadline = now + timeout, pw_heard = None\<rparr>" p]
    by (simp add: into_pending_def p_def)
  note i = finish_inv [OF this f]
  have "c\<lparr>cn_pending := None, cn_stream := t\<rparr> = c\<lparr>cn_stream := t\<rparr>" using assms(2) by (cases c) simp
  with i show ?thesis by (simp only:)
qed

lemma write_owned_inv:
  assumes "sodium_laws P" "conn_inv P c0 before log c" "write_packet_owned_until P h p deadline env c = (Some r, c')"
  shows "conn_inv P c0 before (logged c h p c' log) c'"
proof (cases "cn_pending c")
  case (Some q)
  then show ?thesis using assms(2,3) by (simp add: write_packet_owned_until_def prepare_write_packet_def logged_def)
next
  case None
  define d where "d = probed (we_probe env) c"
  note q = probed_inv [OF assms(2) None, of "we_probe env", folded d_def]
  have lg: "logged d h p x log = logged c h p x log" for x using q(3) by (simp add: logged_def)
  obtain res c1 where a: "admit_packet P h p (we_noted env) d = (res, c1)" by fastforce
  have w: "write_packet_owned_until P h p deadline env c =
    (case (res, c1) of (Inl e, c1) \<Rightarrow> (Some (Inl e), c1)
     | (Inr prepared, c1) \<Rightarrow>
         let (result, t) = (case deadline of
               Some d \<Rightarrow> prepared_send_until d (we_started env) (we_steps env) prepared (cn_stream c1)
             | None \<Rightarrow> prepared_send (we_started env) (we_steps env) prepared (cn_stream c1));
             c2 = c1\<lparr>cn_stream := t\<rparr>
         in case result of None \<Rightarrow> (None, c2) | Some (Inr _) \<Rightarrow> (Some (Inr ()), c2) | Some (Inl e) \<Rightarrow> (Some (Inl e), conn_disconnect c2))"
    using None a by (simp add: write_packet_owned_until_def prepare_write_packet_def d_def)
  from assms(1) q(1,2) a show ?thesis
  proof (cases rule: admit_packet_cases)
    case refused
    then show ?thesis using assms(3) w lg by simp
  next
    case buffered
    have "c' = c1" using assms(3) w buffered(1)
      by (simp add: prepared_send_def prepared_send_until_def into_pending_def split: option.splits)
    then show ?thesis using buffered lg by simp
  next
    case (live f timeout)
    obtain result t where r: "(case deadline of Some d \<Rightarrow> prepared_send_until d (we_started env) (we_steps env) (Some (f, timeout)) (cn_stream c1)
       | None \<Rightarrow> prepared_send (we_started env) (we_steps env) (Some (f, timeout)) (cn_stream c1)) = (result, t)" by fastforce
    have ne: "result \<noteq> None"
    proof
      assume "result = None"
      then show False using assms(3) w live(1) r by simp
    qed
    then obtain x where x: "result = Some x" by auto
    have "conn_inv P c0 before (log @ [(h, p)]) (c1\<lparr>cn_pending := into_pending (we_started env) (Some (f, timeout))\<rparr>)"
      using live by (subst conn_inv_pending) (auto simp: into_pending_def conn_connected_def)
    note inv = send_inv [OF this live(4) r [unfolded x]]
    have c': "c' = (case x of Inr _ \<Rightarrow> c1\<lparr>cn_stream := t\<rparr> | Inl e \<Rightarrow> conn_disconnect (c1\<lparr>cn_stream := t\<rparr>))"
      using assms(3) w live(1) r x by (auto split: sum.splits)
    then have "bw_sequence (cn_writer c') = bw_sequence (cn_writer c1)" by (auto simp: writer_invalidate_def split: sum.split)
    then have "logged c h p c' log = log @ [(h, p)]" using live(3) lg [of c1] by (auto simp: logged_def split: if_splits)
    then show ?thesis using inv c' by simp
  qed
qed

declare read_packet.simps [simp del] read_packet_until.simps [simp del]

lemma conn_inv_update [simp]:
  "conn_inv P c0 before log (c\<lparr>cn_reader := r\<rparr>) = conn_inv P c0 before log c"
  "conn_inv P c0 before log (c\<lparr>cn_window := w\<rparr>) = conn_inv P c0 before log c"
  "conn_inv P c0 before log (c\<lparr>cn_acks := a\<rparr>) = conn_inv P c0 before log c"
  "conn_inv P c0 before log (c\<lparr>cn_live_write_timeout := n, cn_peer_silence := m\<rparr>) = conn_inv P c0 before log c"
  by (rule conn_inv_cong; simp)+

lemma read_packet_inv: "conn_inv P c0 before log c \<Longrightarrow> conn_inv P c0 before log (snd (read_packet P outcomes c))"
proof (induction outcomes arbitrary: c)
  case Nil
  then show ?case
    by (simp add: read_packet.simps [of P "[]" c] Let_def disconnect_inv split: prod.split sum.split read_item.split)
next
  case (Cons out outcomes)
  obtain res rd where p: "pop P (cn_reader c) = (res, rd)" by fastforce
  note s = read_packet.simps [of P "out # outcomes" c, unfolded p Let_def, simplified]
  have inv: "conn_inv P c0 before log (c\<lparr>cn_reader := x\<rparr>)" for x using Cons.prems by simp
  show ?case
  proof (cases "res = Inr NeedMore")
    case True
    show ?thesis unfolding s
      by (cases out) (simp_all add: True inv Cons.IH disconnect_inv Cons.prems)
  next
    case False
    then show ?thesis by (auto simp: s Cons.prems disconnect_inv split: sum.split read_item.split)
  qed
qed

lemma read_packet_until_inv:
  "conn_inv P c0 before log c \<Longrightarrow> conn_inv P c0 before log (snd (read_packet_until P d clear_ok outcomes c))"
proof (induction outcomes arbitrary: c)
  case Nil
  then show ?case
    by (simp add: read_packet_until.simps [of P d clear_ok "[]" c] Let_def disconnect_inv split: prod.split sum.split read_item.split)
next
  case (Cons out outcomes)
  obtain now ok o' where out: "out = (now, ok, o')" by (cases out)
  obtain res rd where p: "pop P (cn_reader c) = (res, rd)" by fastforce
  note s = read_packet_until.simps [of P d clear_ok "out # outcomes" c, unfolded p Let_def out, simplified]
  have inv: "conn_inv P c0 before log (c\<lparr>cn_reader := x\<rparr>)" for x using Cons.prems by simp
  show ?case
  proof (cases "res = Inr NeedMore")
    case True
    show ?thesis unfolding out s
      by (cases o') (simp_all add: True inv Cons.IH disconnect_inv Cons.prems)
  next
    case False
    then show ?thesis by (auto simp: out s Cons.prems disconnect_inv split: sum.split read_item.split)
  qed
qed

lemma acknowledge_connected [simp]: "bw_connected (acknowledge a w) = bw_connected w"
  by (simp add: acknowledge_def Let_def split: prod.split)

lemma conn_inv_writer:
  "conn_inv P c0 before log c \<Longrightarrow> \<exists>hi. writer_inv P c0 (before @ log) hi w \<Longrightarrow> bw_connected w = bw_connected (cn_writer c) \<Longrightarrow>
   conn_inv P c0 before log (c\<lparr>cn_writer := w\<rparr>)"
  by (cases "cn_pending c") (simp_all add: conn_inv_def conn_connected_def)

lemma acknowledge_delivery_inv:
  assumes "conn_inv P c0 before log c"
  shows "conn_inv P c0 before log (acknowledge_delivery a now c)"
proof -
  obtain hi where "writer_inv P c0 (before @ log) hi (cn_writer c)" using assms by (auto simp: conn_inv_def)
  from acknowledge_inv [OF this] have "\<exists>hi. writer_inv P c0 (before @ log) hi (acknowledge a (cn_writer c))" by blast
  from conn_inv_writer [OF assms this] have "conn_inv P c0 before log (c\<lparr>cn_writer := acknowledge a (cn_writer c)\<rparr>)" by simp
  then show ?thesis by (auto simp: acknowledge_delivery_def Let_def split: option.split)
qed

lemma shutdown_inv:
  assumes "conn_inv P c0 before log c" "conn_shutdown r c = (res, c')"
  shows "conn_inv P c0 before log c'"
proof -
  have d: "conn_inv P c0 before log (conn_disconnect c)" by (rule disconnect_inv [OF assms(1)])
  then have "conn_inv P c0 before log ((conn_disconnect c)\<lparr>cn_stream := (cn_stream (conn_disconnect c))\<lparr>tp_shutdown := True\<rparr>\<rparr>)"
    by (simp add: conn_inv_def conn_connected_def left_on_def writer_invalidate_def)
  then show ?thesis using assms(2) d by (auto simp: conn_shutdown_def Let_def split: shutdown_result.splits)
qed

lemma conn_run_inv:
  assumes "sodium_laws P" "conn_inv P k before [] c0" "conn_run P c0 log c"
  shows "conn_inv P k before log c"
  using assms(3)
proof (induction rule: conn_run.induct)
  case (run_backdate log c since)
  then show ?case by (auto simp: backdate_pending_write_def intro: conn_inv_repending split: option.split)
next
  case (run_try_read log c renv tr c')
  then show ?case using disconnect_inv by (auto simp: try_read_packet_def split: prod.splits sum.splits)
next
  case (run_reader log c renv tr c')
  then show ?case by (auto simp: reader_try_read_packet_def split: prod.splits sum.splits)
next
  case (run_blocked log c now until c')
  then show ?case by (auto simp: output_window_blocked_def split: option.splits if_splits prod.splits)
next
  case (run_keepalive log c side volume ack c')
  then show ?case by (auto simp: next_keepalive_ack_def split: prod.splits)
next
  case (run_read log c outcomes rr c')
  then show ?case using read_packet_inv [of P k before log c outcomes] by simp
next
  case (run_read_until log c d clear_ok timed rr c')
  then show ?case using read_packet_until_inv [of P k before log c d clear_ok timed] by simp
next
  case run_opened
  show ?case by (rule assms(2))
next
  case (run_start log c h p probe noted started env r c')
  from run_start(3,2) show ?case by (rule start_inv [OF assms(1)])
next
  case (run_start_unprobed log c h p noted started env r c')
  from run_start_unprobed(3,2) show ?case by (rule start_unprobed_inv [OF assms(1)])
next
  case (run_write log c h p deadline wenv wr c')
  from run_write(3,2) show ?case by (rule write_owned_inv [OF assms(1)])
next
  case (run_advance log c env ar c')
  from advance_write_inv [OF run_advance(3,2)] show ?case by simp
next
  case (run_finish log c steps fr c')
  from run_finish(3,2) show ?case by (rule finish_pending_inv)
next
  case (run_acknowledge log c a now)
  from run_acknowledge(2) show ?case by (rule acknowledge_delivery_inv)
next
  case (run_bound log c)
  then show ?case by (simp add: bound_unacknowledged_output_def split: option.split)
next
  case (run_seed log c rtt)
  then show ?case by (simp add: seed_output_round_trip_def)
next
  case (run_minimize log c)
  then show ?case by (simp add: minimize_output_buffering_def)
next
  case (run_disconnect log c)
  from run_disconnect(2) show ?case by (rule disconnect_inv)
next
  case (run_shutdown log c sr res c')
  from run_shutdown(3,2) show ?case by (rule shutdown_inv)
qed

section \<open>A silent peer\<close>

text \<open>The retained frame of a peer that has sent nothing since the frame was started at \<open>since\<close>.\<close>

definition waiting :: "nat \<Rightarrow> nat \<Rightarrow> nat \<Rightarrow> inbound_mark \<Rightarrow> connection \<Rightarrow> bool" where
  "waiting since silence timeout seen c \<longleftrightarrow>
    cn_peer_silence c = Some silence \<and> cn_live_write_timeout c = timeout \<and> br_sequence (cn_reader c) = fst seen \<and>
    (case cn_pending c of None \<Rightarrow> True
     | Some p \<Rightarrow> pw_deadline p \<le> since + silence \<and>
         (pw_heard p = None \<and> pw_deadline p = since + timeout \<or> pw_heard p = Some (seen, since)))"

definition silent_env :: "inbound_mark \<Rightarrow> advance_env \<Rightarrow> bool" where
  "silent_env seen env \<longleftrightarrow> ae_unread env = snd seen \<and> ae_now env \<le> ae_later env"

lemma reader_invalidate_sequence [simp]: "br_sequence (reader_invalidate r) = br_sequence r"
  by (simp add: reader_invalidate_def)

lemma disconnect_settings [simp]:
  "cn_peer_silence (conn_disconnect c) = cn_peer_silence c" "cn_live_write_timeout (conn_disconnect c) = cn_live_write_timeout c"
  "br_sequence (cn_reader (conn_disconnect c)) = br_sequence (cn_reader c)"
  by (simp_all add: conn_disconnect_def drop_pending_def Let_def split: option.split)

lemma pending_advance_heard:
  "pending_advance now result p t = (res, p', t') \<Longrightarrow> pw_heard p' = pw_heard p \<and> pw_deadline p' = pw_deadline p"
  by (auto simp: pending_advance_def Let_def split: if_splits send_result.splits)

lemma defer_waiting:
  assumes "waiting since silence timeout seen c" "silent_env seen env"
  shows "waiting since silence timeout seen (defer_elapsed env c)"
proof (cases "cn_pending c")
  case None
  then show ?thesis using assms by (simp add: waiting_def defer_elapsed_def)
next
  case (Some p)
  have "inbound (ae_unread env) c = seen" using assms by (simp add: inbound_def waiting_def silent_env_def)
  then show ?thesis using assms Some
    by (auto simp: waiting_def defer_elapsed_def defer_while_peer_talks_def Let_def)
qed

lemma advance_waiting:
  assumes "waiting since silence timeout seen c" "silent_env seen env"
  shows "waiting since silence timeout seen (snd (advance_write env c))"
proof -
  define d where "d = defer_elapsed env c"
  have d: "waiting since silence timeout seen d" unfolding d_def by (rule defer_waiting [OF assms])
  show ?thesis
  proof (cases "cn_pending d")
    case None
    then show ?thesis using d by (simp add: advance_write_def d_def [symmetric])
  next
    case (Some p)
    obtain res p1 t1 where a: "pending_advance (ae_later env) (ae_send env) p (cn_stream d) = (res, p1, t1)" by (metis prod_cases3)
    from pending_advance_heard [OF a] show ?thesis using d Some a
      by (cases res) (auto simp: advance_write_def d_def [symmetric] waiting_def split: bool.split)
  qed
qed

lemma advance_timed_out:
  assumes "waiting since silence timeout seen c" "silent_env seen env" "since + silence \<le> ae_now env"
  shows "cn_pending (snd (advance_write env c)) = None"
proof -
  define d where "d = defer_elapsed env c"
  have d: "waiting since silence timeout seen d" unfolding d_def by (rule defer_waiting [OF assms(1,2)])
  show ?thesis
  proof (cases "cn_pending d")
    case None
    then show ?thesis by (simp add: advance_write_def d_def [symmetric])
  next
    case (Some p)
    then have "pw_deadline p \<le> ae_later env" using d assms(2,3) by (auto simp: waiting_def silent_env_def)
    then show ?thesis using Some by (simp add: advance_write_def d_def [symmetric] pending_advance_def)
  qed
qed

lemma fold_waiting:
  "waiting since silence timeout seen c \<Longrightarrow> list_all (silent_env seen) envs \<Longrightarrow>
   waiting since silence timeout seen (fold (\<lambda>e c. snd (advance_write e c)) envs c)"
  by (induction envs arbitrary: c) (auto intro: advance_waiting)

section \<open>Properties\<close>


definition stuck_env :: advance_env where
  "stuck_env = \<lparr>ae_now = 0, ae_unread = 0, ae_later = 0, ae_send = SendRoom 3\<rparr>"

definition example_connection :: connection where
  "example_connection = snd (start_write_packet_owned plain_primitives 4 [65] ProbeRetry 0 0 stuck_env (new_client (replicate 32 7)))"

lemma new_client_facts:
  "cn_pending (new_client key) = None" "conn_connected (new_client key)" "bw_sequence (cn_writer (new_client key)) = 0"
  "cn_stream (new_client key) = \<lparr>tp_sent = [], tp_shutdown = False\<rparr>" "bw_crypto (cn_writer (new_client key)) = crypto_new key DIR_CLIENT_TO_SERVER"
  "writer_run P (crypto_new key DIR_CLIENT_TO_SERVER) [] 0 (cn_writer (new_client key))"
  "probed ProbeRetry (new_client key) = new_client key"
  using writer_run.run_new
  by (simp_all add: new_client_def connection_new_def conn_connected_def probed_def refresh_connectivity_def) (simp_all add: writer_new_def)

lemma example_connection_run:
  "conn_run plain_primitives (new_client (replicate 32 7)) [(4, [65])] example_connection"
proof -
  let ?c = "new_client (replicate 32 7)"
  obtain r where st: "start_write_packet_owned plain_primitives 4 [65] ProbeRetry 0 0 stuck_env ?c = (r, example_connection)"
    by (metis example_connection_def prod.collapse)
  have "conn_inv plain_primitives (crypto_new (replicate 32 7) DIR_CLIENT_TO_SERVER) [] [] ?c"
    using writer_run_inv [OF plain_sodium_laws new_client_facts(6)] new_client_facts by (intro conn_inv_sent) auto
  from start_logs [OF plain_sodium_laws this new_client_facts(1,2), of 0 stuck_env 4 "[65]" 0 r example_connection] st
  have "bw_sequence (cn_writer example_connection) = 1"
    by (simp add: start_write_packet_owned_def prepare_write_packet_def new_client_facts)
  then have "logged ?c 4 [65] example_connection [] = [(4, [65])]" by (simp add: logged_def new_client_facts)
  then show ?thesis using conn_run.run_start [OF conn_run.run_opened st] by simp
qed


text \<open>C34: A stuck live frame is given up once the peer has been silent for the configured time, counted from when the
  frame was started, however often the pump ran meanwhile and whatever the kernel took of it.\<close>

theorem silent_peer_dropped:
  assumes "cn_peer_silence c = Some silence" "cn_live_write_timeout c \<le> silence"
    "cn_pending c = Some p" "pw_heard p = None" "pw_deadline p = since + cn_live_write_timeout c"
    "list_all (silent_env (br_sequence (cn_reader c), unread_bytes)) (envs @ [env])" "since + silence \<le> ae_now env"
  shows "cn_pending (fold (\<lambda>e c. snd (advance_write e c)) (envs @ [env]) c) = None"
proof -
  define seen where "seen = (br_sequence (cn_reader c), unread_bytes)"
  have "waiting since silence (cn_live_write_timeout c) seen c" using assms(1-5) by (simp add: waiting_def seen_def)
  moreover have "list_all (silent_env seen) envs" using assms(6) by (simp add: seen_def)
  ultimately have "waiting since silence (cn_live_write_timeout c) seen (fold (\<lambda>e c. snd (advance_write e c)) envs c)"
    by (rule fold_waiting)
  from advance_timed_out [OF this _ assms(7)] assms(6) show ?thesis by (simp add: seen_def)
qed

theorem silent_peer_dropped_witness:
  "cn_pending (fold (\<lambda>e c. snd (advance_write e c))
     [\<lparr>ae_now = 5, ae_unread = 0, ae_later = 5, ae_send = SendAgain\<rparr>, \<lparr>ae_now = 10, ae_unread = 0, ae_later = 11, ae_send = SendRoom 1\<rparr>]
     ((new_client (replicate 32 7))\<lparr>cn_peer_silence := Some 10, cn_live_write_timeout := 5,
        cn_pending := Some \<lparr>pw_frame = [1, 2, 3], pw_offset = 0, pw_deadline = 5, pw_heard = None\<rparr>\<rparr>)) = None"
  using silent_peer_dropped [of "(new_client (replicate 32 7))\<lparr>cn_peer_silence := Some 10, cn_live_write_timeout := 5,
        cn_pending := Some \<lparr>pw_frame = [1, 2, 3], pw_offset = 0, pw_deadline = 5, pw_heard = None\<rparr>\<rparr>" 10
      "\<lparr>pw_frame = [1, 2, 3], pw_offset = 0, pw_deadline = 5, pw_heard = None\<rparr>" 0 0
      "[\<lparr>ae_now = 5, ae_unread = 0, ae_later = 5, ae_send = SendAgain\<rparr>]" "\<lparr>ae_now = 10, ae_unread = 0, ae_later = 11, ae_send = SendRoom 1\<rparr>"]
  by (simp add: silent_env_def)

end
