(* ===== verification/Recovery.thy ===== *)
theory Recovery
  imports Connection Handshake
begin

text \<open>
  \<^verbatim>\<open>crates/et-net/src/connection_recovery.rs\<close>: the recovery exchange on a new stream.  Each side sends the sequence
  number it has read up to, then the catchup the other one misses; the client reads the peer's catchup before it
  sends its own.  A reset recovery exchanges a salt and empty catchups instead.

  The generated encoders of \<^verbatim>\<open>SequenceHeader\<close> and \<^verbatim>\<open>CatchupBuffer\<close> are the parameter \<open>K\<close>.  The new stream is a
  \<open>socket\<close>; duplicating its descriptor and setting its timeouts are taken to succeed.
\<close>

section \<open>Definitions\<close>

definition MAX_RECOVERY_PROTO_LEN :: int where "MAX_RECOVERY_PROTO_LEN = 144 * 1024 * 1024"

record recovery_exchange =
  rx_read_peer_catchup_first :: bool
  rx_reset_salt :: "bytes option"

definition exchange_default :: recovery_exchange where
  "exchange_default = \<lparr>rx_read_peer_catchup_first = False, rx_reset_salt = None\<rparr>"

definition exchange_client :: "bytes option \<Rightarrow> recovery_exchange" where
  "exchange_client salt = \<lparr>rx_read_peer_catchup_first = True, rx_reset_salt = salt\<rparr>"

record sequence_header =
  sh_sequence_number :: "int option"
  sh_reset :: "bool option"
  sh_reset_salt :: "bytes option"

record recovery_codec =
  enc_header :: "sequence_header \<Rightarrow> bytes"
  dec_header :: "bytes \<Rightarrow> sequence_header option"
  enc_catchup :: "bytes list \<Rightarrow> bytes"
  dec_catchup :: "bytes \<Rightarrow> bytes list option"

subsection \<open>Checking a catchup before it is decoded\<close>

text \<open>The tenth byte of a varint is at most 1, so the value fits 64 bits.\<close>

fun decode_varint_loop :: "bytes \<Rightarrow> nat \<Rightarrow> nat \<Rightarrow> (nat \<times> nat) option" where
  "decode_varint_loop [] index v = None"
| "decode_varint_loop (b # rest) index v =
    (if 10 \<le> index then None
     else if index = 9 \<and> 1 < b then None
     else let v = v OR push_bit (index * 7) (unat (b AND 0x7f)) in
       if b AND 0x80 = 0 then Some (v, index + 1) else decode_varint_loop rest (index + 1) v)"

definition decode_varint :: "bytes \<Rightarrow> (nat \<times> nat) option" where
  "decode_varint bs = decode_varint_loop bs 0 0"

definition invalid_catchup :: "string \<Rightarrow> conn_error" where
  "invalid_catchup message = ConnIo (InvalidData message)"

lemma decode_varint_loop_consumes: "decode_varint_loop bs index v = Some (n, consumed) \<Longrightarrow> index < consumed"
  by (induction bs index v rule: decode_varint_loop.induct) (fastforce simp: Let_def split: if_splits)+

function validate_loop :: "bytes \<Rightarrow> nat \<Rightarrow> nat \<Rightarrow> conn_error + unit" where
  "validate_loop encoded offset entries =
    (if offset < length encoded
     then
       if encoded ! offset \<noteq> 0x0a then Inl (invalid_catchup ''catchup contains an unsupported field'')
       else (case decode_varint (drop (offset + 1) encoded) of
          None \<Rightarrow> Inl (invalid_catchup ''catchup contains an invalid length'')
        | Some (len, consumed) \<Rightarrow>
            if len = 0 then Inl (invalid_catchup ''catchup contains an empty entry'')
            else if MAX_BACKUP_PACKETS + MAX_DISCONNECT_PACKETS < entries + 1
            then Inl (invalid_catchup ''catchup contains too many entries'')
            else if length encoded < offset + 1 + consumed + len
            then Inl (invalid_catchup ''catchup entry exceeds frame'')
            else validate_loop encoded (offset + 1 + consumed + len) (entries + 1))
     else Inr ())"
  by pat_completeness auto
termination
  by (relation "measure (\<lambda>(encoded, offset, entries). length encoded - offset)") auto

definition validate_catchup_encoding :: "bytes \<Rightarrow> conn_error + unit" where
  "validate_catchup_encoding encoded = validate_loop encoded 0 0"

subsection \<open>The exchange\<close>

definition io_bind :: "(io_error + 'a) \<times> socket \<Rightarrow> ('a \<Rightarrow> socket \<Rightarrow> (conn_error + 'b) \<times> socket) \<Rightarrow> (conn_error + 'b) \<times> socket" where
  "io_bind m f = (case m of (Inl e, s) \<Rightarrow> (Inl (ConnIo e), s) | (Inr x, s) \<Rightarrow> f x s)"

definition swap_catchup :: "bool \<Rightarrow> bytes \<Rightarrow> socket \<Rightarrow> (conn_error + bytes) \<times> socket" where
  "swap_catchup read_first own s =
    (if read_first
     then io_bind (read_frame_limited_deadline MAX_RECOVERY_PROTO_LEN s) (\<lambda>encoded s.
          io_bind (write_proto_limited_deadline own MAX_RECOVERY_PROTO_LEN s) (\<lambda>_ s. (Inr encoded, s)))
     else io_bind (write_proto_limited_deadline own MAX_RECOVERY_PROTO_LEN s) (\<lambda>_ s.
          io_bind (read_frame_limited_deadline MAX_RECOVERY_PROTO_LEN s) (\<lambda>encoded s. (Inr encoded, s))))"

definition decode_catchup :: "recovery_codec \<Rightarrow> bytes \<Rightarrow> conn_error + bytes list" where
  "decode_catchup K encoded =
    (case validate_catchup_encoding encoded of
       Inl e \<Rightarrow> Inl e
     | Inr _ \<Rightarrow> (case dec_catchup K encoded of None \<Rightarrow> Inl (ConnIo (InvalidData ''decode'')) | Some b \<Rightarrow> Inr b))"

definition exchange_reset ::
  "recovery_codec \<Rightarrow> bool \<Rightarrow> bytes \<Rightarrow> sequence_header \<Rightarrow> socket \<Rightarrow> (conn_error + bytes list) \<times> socket" where
  "exchange_reset K read_first salt remote s =
    (if sh_reset remote \<noteq> Some True \<or> sh_reset_salt remote \<noteq> Some salt
     then (Inl (ConnIo (InvalidData ''reset request does not match the negotiated salt'')), s)
     else case swap_catchup read_first (enc_catchup K []) s of
       (Inl e, s) \<Rightarrow> (Inl e, s)
     | (Inr encoded, s) \<Rightarrow> if encoded = [] then (Inr [], s) else (decode_catchup K encoded, s))"

definition exchange_replay ::
  "recovery_codec \<Rightarrow> bool \<Rightarrow> backed_writer \<Rightarrow> sequence_header \<Rightarrow> socket \<Rightarrow> (conn_error + bytes list) \<times> socket" where
  "exchange_replay K read_first w remote s =
    (if sh_reset remote = Some True \<or> (case sh_reset_salt remote of Some salt \<Rightarrow> salt \<noteq> [] | None \<Rightarrow> False)
     then (Inl (ConnIo (InvalidData ''unexpected reset request'')), s)
     else if \<not> (case sh_sequence_number remote of Some n \<Rightarrow> 0 \<le> n | None \<Rightarrow> False)
     then (Inl (InvalidRecoverySequence (sh_sequence_number remote)), s)
     else case recover (the (sh_sequence_number remote)) w of
       Inl e \<Rightarrow> (Inl (ConnRecover e), s)
     | Inr catchup \<Rightarrow>
         (case swap_catchup read_first (enc_catchup K catchup) s of
            (Inl e, s) \<Rightarrow> (Inl e, s)
          | (Inr encoded, s) \<Rightarrow> (decode_catchup K encoded, s)))"

definition exchange_recovery ::
  "recovery_codec \<Rightarrow> recovery_exchange \<Rightarrow> connection \<Rightarrow> socket \<Rightarrow> (conn_error + bytes list) \<times> socket" where
  "exchange_recovery K ex c s =
    (let resetting = (rx_reset_salt ex \<noteq> None);
         local_sequence = (if resetting then 0 else br_sequence (cn_reader c))
     in if \<not> (- i32_max - 1 \<le> local_sequence \<and> local_sequence \<le> i32_max) then (Inl (SequenceOutOfRange local_sequence), s)
        else
          let local_header = \<lparr>sh_sequence_number = Some local_sequence,
                sh_reset = (if resetting then Some True else None), sh_reset_salt = rx_reset_salt ex\<rparr>
          in io_bind (write_proto_limited_deadline (enc_header K local_header) MAX_HANDSHAKE_PROTO_LEN s) (\<lambda>_ s.
             io_bind (read_proto_limited_deadline (dec_header K) MAX_HANDSHAKE_PROTO_LEN s) (\<lambda>remote s.
               case rx_reset_salt ex of
                 Some salt \<Rightarrow> exchange_reset K (rx_read_peer_catchup_first ex) salt remote s
               | None \<Rightarrow> exchange_replay K (rx_read_peer_catchup_first ex) (cn_writer c) remote s)))"

subsection \<open>Candidates and handshakes\<close>

definition shut :: "connection \<Rightarrow> connection" where
  "shut c = c\<lparr>cn_stream := (cn_stream c)\<lparr>tp_shutdown := True\<rparr>\<rparr>"

definition invalid_reset :: conn_error where
  "invalid_reset = ConnIo (InvalidData ''reset recovery salt is invalid'')"

definition restart_output_window :: "connection \<Rightarrow> connection" where
  "restart_output_window c = c\<lparr>cn_window := map_option (\<lambda>_. output_window_default) (cn_window c)\<rparr>"

definition prepare_recovery_candidate :: "connection \<Rightarrow> connection" where
  "prepare_recovery_candidate c = conn_disconnect
    \<lparr>cn_stream = \<lparr>tp_sent = [], tp_shutdown = False\<rparr>, cn_writer = cn_writer c, cn_reader = cn_reader c,
     cn_live_write_timeout = cn_live_write_timeout c, cn_peer_silence = cn_peer_silence c, cn_pending = None,
     cn_acks = ack_schedule_default, cn_window = map_option for_new_transport (cn_window c)\<rparr>"

text \<open>Both halves are rekeyed; a salt of the wrong length fails in the first.\<close>

definition reset_halves :: "primitives \<Rightarrow> bytes \<Rightarrow> connection \<Rightarrow> (conn_error + unit) \<times> connection" where
  "reset_halves P salt c =
    (case reader_reset P salt (cn_reader c) of
       Inl _ \<Rightarrow> (Inl invalid_reset, c)
     | Inr r \<Rightarrow>
         let c1 = c\<lparr>cn_reader := r\<rparr> in
         (case writer_reset P salt (cn_writer c1) of
            Inl _ \<Rightarrow> (Inl invalid_reset, c1)
          | Inr w \<Rightarrow> (Inr (), restart_output_window (c1\<lparr>cn_writer := w\<rparr>))))"

definition revive_halves :: "primitives \<Rightarrow> bytes list \<Rightarrow> connection \<Rightarrow> (conn_error + nat) \<times> connection" where
  "revive_halves P catchup c =
    (case reader_revive P catchup (cn_reader c) of
       (Inl e, r) \<Rightarrow> (Inl (ConnRead e), c\<lparr>cn_reader := r\<rparr>)
     | (Inr _, r) \<Rightarrow> (Inr (length catchup), c\<lparr>cn_reader := r, cn_writer := writer_revive (cn_writer c)\<rparr>))"

definition run_recovery_handshake_with ::
  "primitives \<Rightarrow> recovery_codec \<Rightarrow> recovery_exchange \<Rightarrow> connection \<Rightarrow> socket \<Rightarrow> (conn_error + nat) \<times> connection \<times> socket" where
  "run_recovery_handshake_with P K ex c s =
    (case exchange_recovery K ex c s of
       (Inl e, s1) \<Rightarrow> (Inl e, shut c, s1)
     | (Inr remote, s1) \<Rightarrow>
         (case rx_reset_salt ex of
            None \<Rightarrow> (case revive_halves P remote c of (r, c1) \<Rightarrow> (r, c1, s1))
          | Some salt \<Rightarrow>
              (case reset_halves P salt c of
                 (Inl e, c1) \<Rightarrow> (Inl e, c1, s1)
               | (Inr _, c1) \<Rightarrow> (case revive_halves P [] c1 of (r, c2) \<Rightarrow> (r, c2, s1)))))"

definition run_recovery_handshake ::
  "primitives \<Rightarrow> recovery_codec \<Rightarrow> connection \<Rightarrow> socket \<Rightarrow> (conn_error + nat) \<times> connection \<times> socket" where
  "run_recovery_handshake P K c s = run_recovery_handshake_with P K exchange_default c s"

text \<open>The result is the connection afterwards and whether the old stream was shut down in its favour.\<close>

definition recover_with_exchange ::
  "primitives \<Rightarrow> recovery_codec \<Rightarrow> recovery_exchange \<Rightarrow> connection \<Rightarrow> socket \<Rightarrow> (conn_error + unit) \<times> connection \<times> socket" where
  "recover_with_exchange P K ex c s =
    (case run_recovery_handshake_with P K ex (prepare_recovery_candidate c) s of
       (Inl e, _, s1) \<Rightarrow> (Inl e, c, s1)
     | (Inr _, candidate, s1) \<Rightarrow> (Inr (), candidate, s1))"

definition recover_connection ::
  "primitives \<Rightarrow> recovery_codec \<Rightarrow> connection \<Rightarrow> socket \<Rightarrow> (conn_error + unit) \<times> connection \<times> socket" where
  "recover_connection P K c s = recover_with_exchange P K exchange_default c s"

definition recovery_candidate ::
  "primitives \<Rightarrow> recovery_codec \<Rightarrow> connection \<Rightarrow> socket \<Rightarrow> (conn_error + connection) \<times> socket" where
  "recovery_candidate P K c s =
    (case run_recovery_handshake P K (prepare_recovery_candidate c) s of
       (Inl e, _, s1) \<Rightarrow> (Inl e, s1)
     | (Inr _, candidate, s1) \<Rightarrow> (Inr candidate, s1))"

definition establish_reset ::
  "primitives \<Rightarrow> recovery_codec \<Rightarrow> recovery_exchange \<Rightarrow> connection \<Rightarrow> socket \<Rightarrow> (conn_error + unit) \<times> connection \<times> socket" where
  "establish_reset P K ex c0 s =
    (case rx_reset_salt ex of
       None \<Rightarrow> (Inl (ConnIo (InvalidData ''reset recovery has no negotiated salt'')), c0, s)
     | Some salt \<Rightarrow>
         let c = (conn_disconnect c0)\<lparr>cn_acks := ack_schedule_default\<rparr> in
         (case exchange_recovery K ex c s of
            (Inl e, s1) \<Rightarrow> (Inl e, shut c, s1)
          | (Inr remote, s1) \<Rightarrow>
              (case reset_halves P salt c of
                 (Inl e, c1) \<Rightarrow> (Inl e, c1, s1)
               | (Inr _, c1) \<Rightarrow>
                   if remote \<noteq> [] then (Inl (ConnIo (InvalidData ''reset recovery received a non-empty catchup'')), c1, s1)
                   else (case revive_halves P [] c1 of
                       (Inl e, c2) \<Rightarrow> (Inl e, c2, s1)
                     | (Inr _, c2) \<Rightarrow> (Inr (), c2, s1)))))"

fun read_live_packet_until ::
  "primitives \<Rightarrow> nat \<Rightarrow> (nat \<times> read_outcome) list \<Rightarrow> connection \<Rightarrow> (conn_error + packet) option \<times> connection" where
  "read_live_packet_until P deadline outcomes c =
    (case pop_live P (cn_reader c) of
       (Inr (ReadPacket p), r) \<Rightarrow> (Some (Inr p), c\<lparr>cn_reader := r\<rparr>)
     | (Inl e, r) \<Rightarrow> (Some (Inl (ConnRead e)), conn_disconnect (c\<lparr>cn_reader := r\<rparr>))
     | (Inr NeedMore, r) \<Rightarrow>
         let c1 = c\<lparr>cn_reader := r\<rparr> in
         (case outcomes of
            [] \<Rightarrow> (None, c1)
          | (now, outcome) # rest \<Rightarrow>
              if deadline \<le> now then (Some (Inl (ConnIo IoTimedOut)), c1)
              else (case outcome of
                 ReadBytes bs \<Rightarrow>
                   if bs = [] then (Some (Inl (ConnIo IoEnded)), conn_disconnect c1)
                   else read_live_packet_until P deadline rest (c1\<lparr>cn_reader := feed (take 8192 bs) r\<rparr>)
               | ReadInterrupted \<Rightarrow> read_live_packet_until P deadline rest c1
               | _ \<Rightarrow> (Some (Inl (ConnIo IoEnded)), conn_disconnect c1))))"

definition authenticate_peer ::
  "primitives \<Rightarrow> nat \<Rightarrow> (nat \<times> read_outcome) list \<Rightarrow> connection \<Rightarrow> (conn_error + unit) option \<times> connection" where
  "authenticate_peer P deadline outcomes c =
    (case read_live_packet_until P deadline outcomes c of
       (None, c1) \<Rightarrow> (None, c1)
     | (Some (Inl e), c1) \<Rightarrow> (Some (Inl e), c1)
     | (Some (Inr p), c1) \<Rightarrow> (Some (Inr ()), c1\<lparr>cn_reader := unread p (cn_reader c1)\<rparr>))"

section \<open>Catchup encodings\<close>

declare validate_loop.simps [simp del]

lemma decode_varint_loop_encode:
  assumes "index \<le> 9" "v < 2 ^ (64 - index * 7)" "acc < 2 ^ (index * 7)"
  shows "decode_varint_loop (encode_varint v @ rest) index acc = Some (acc + v * 2 ^ (index * 7), index + length (encode_varint v))"
  using assms
proof (induction v arbitrary: index acc rule: encode_varint.induct)
  case (1 v)
  show ?case
  proof (cases "128 \<le> v")
    case True
    have s: "index < 9"
    proof (rule ccontr)
      assume "\<not> index < 9"
      with 1(2) have "index = 9" by simp
      with True 1(3) show False by simp
    qed
    have e: "(2 :: nat) ^ (64 - index * 7) = 128 * 2 ^ (64 - Suc index * 7)"
      using s power_add [of "2 :: nat" 7 "64 - Suc index * 7"] by simp
    let ?acc = "acc + v mod 128 * 2 ^ (index * 7)"
    have "?acc < 2 ^ (index * 7) + 127 * 2 ^ (index * 7)"
      using 1(4) by (intro add_less_le_mono mult_le_mono1) auto
    then have acc: "?acc < 2 ^ (Suc index * 7)" by (simp add: power_add)
    have "v div 128 < 2 ^ (64 - Suc index * 7)" using 1(3) unfolding e
      by (simp add: less_mult_imp_div_less mult.commute)
    from 1(1) [OF True _ this acc] s
    have "decode_varint_loop (encode_varint (v div 128) @ rest) (Suc index) ?acc =
        Some (?acc + v div 128 * 2 ^ (Suc index * 7), Suc index + length (encode_varint (v div 128)))" by simp
    moreover have "acc OR push_bit (index * 7) (unat ((word_of_nat v OR 128 :: byte) AND 127)) = ?acc"
      using 1(4) by (simp add: byte_or_128_low7 byte_low7 or_push_bit_eq_add mod_mod_cancel)
    moreover have "v mod 128 * 2 ^ (index * 7) + v div 128 * 2 ^ (Suc index * 7) = v * 2 ^ (index * 7)"
    proof -
      have "(2 :: nat) ^ (Suc index * 7) = 128 * 2 ^ (index * 7)" by (simp add: power_add)
      then show ?thesis using arg_cong [OF mod_div_mult_eq [of v 128], of "\<lambda>z. z * 2 ^ (index * 7)"] by (simp only: add_mult_distrib mult.assoc)
    qed
    ultimately show ?thesis using True s
      by (simp add: encode_varint.simps [of v] byte_or_128_high Let_def)
  next
    case False
    then have "acc OR push_bit (index * 7) (unat (word_of_nat v AND 127 :: byte)) = acc + v * 2 ^ (index * 7)"
      using 1(4) by (simp add: byte_low7 or_push_bit_eq_add)
    moreover have "\<not> (index = 9 \<and> 1 < (word_of_nat v :: byte))"
    proof
      assume "index = 9 \<and> 1 < (word_of_nat v :: byte)"
      then show False using 1(3) False by (simp add: word_less_nat_alt)
    qed
    ultimately show ?thesis using False 1(2) by (auto simp add: encode_varint.simps [of v] small_byte_high Let_def)
  qed
qed

lemma decode_varint_encode: "v < 2 ^ 64 \<Longrightarrow> decode_varint (encode_varint v @ rest) = Some (v, length (encode_varint v))"
  using decode_varint_loop_encode [of 0 v 0 rest] by (simp add: decode_varint_def)

text \<open>The protobuf encoding of a \<^verbatim>\<open>CatchupBuffer\<close>: field 1, length-delimited, once per entry.\<close>

definition catchup_entry :: "bytes \<Rightarrow> bytes" where
  "catchup_entry f = 0x0a # encode_varint (length f) @ f"

definition entry_cap :: nat where "entry_cap = MAX_BACKUP_PACKETS + MAX_DISCONNECT_PACKETS"

lemma validate_entries:
  assumes "list_all (\<lambda>f. f \<noteq> [] \<and> length f < 2 ^ 64) fs" "n \<le> entry_cap"
  shows "validate_loop (pre @ concat (map catchup_entry fs)) (length pre) n =
    (if n + length fs \<le> entry_cap then Inr () else Inl (invalid_catchup ''catchup contains too many entries''))"
  using assms
proof (induction fs arbitrary: pre n)
  case Nil
  then show ?case by (simp add: validate_loop.simps [of pre])
next
  case (Cons f fs)
  let ?enc = "pre @ concat (map catchup_entry (f # fs))"
  have lt: "length pre < length ?enc" by (simp add: catchup_entry_def)
  have tag: "?enc ! length pre = 0x0a" by (simp add: catchup_entry_def)
  have dec: "decode_varint (drop (length pre + 1) ?enc) = Some (length f, length (encode_varint (length f)))"
    using Cons.prems(1) decode_varint_encode [of "length f" "f @ concat (map catchup_entry fs)"] by (simp add: catchup_entry_def)
  have off: "length pre + 1 + length (encode_varint (length f)) + length f = length (pre @ catchup_entry f)" by (simp add: catchup_entry_def)
  have step: "validate_loop ?enc (length pre) n =
    (if entry_cap < n + 1 then Inl (invalid_catchup ''catchup contains too many entries'')
     else validate_loop ((pre @ catchup_entry f) @ concat (map catchup_entry fs)) (length (pre @ catchup_entry f)) (n + 1))"
    using lt tag dec Cons.prems(1) unfolding validate_loop.simps [of ?enc "length pre"] off [symmetric] by (simp add: entry_cap_def [symmetric] catchup_entry_def)
  show ?case
  proof (cases "entry_cap < n + 1")
    case True
    then show ?thesis using step by simp
  next
    case False
    then show ?thesis using step Cons.IH [of "n + 1" "pre @ catchup_entry f"] Cons.prems(1) by simp
  qed
qed

text \<open>The compile-time assertion of the source: an encoded catchup is at most 20/18 of its entries.\<close>

lemma catchup_entry_length:
  assumes "18 \<le> length f" "length f < 2 ^ 35"
  shows "18 * length (catchup_entry f) \<le> 20 * length f"
proof (cases "length f < 128")
  case True
  then have "length (encode_varint (length f)) = 1" by (simp add: encode_varint.simps [of "length f"])
  then show ?thesis using assms(1) by (simp add: catchup_entry_def)
next
  case False
  have "length (encode_varint (length f)) \<le> 5" using encode_varint_length_le [of "length f" 5] assms(2) by simp
  then show ?thesis using False by (simp add: catchup_entry_def)
qed

lemma catchup_length:
  "list_all (\<lambda>f. 18 \<le> length f \<and> length f < 2 ^ 35) fs \<Longrightarrow> 18 * length (concat (map catchup_entry fs)) \<le> 20 * sum_list (map length fs)"
proof (induction fs)
  case (Cons f fs)
  have "18 * length (catchup_entry f) \<le> 20 * length f" using Cons.prems catchup_entry_length [of f] by simp
  then show ?case using Cons by simp
qed simp

lemma int_sum_length: "int (sum_list (map length fs)) = sum_list (map (\<lambda>f. int (length f)) fs)"
  by (induction fs) auto

lemma elem_le_sum: "f \<in> set fs \<Longrightarrow> length f \<le> sum_list (map length fs)"
  by (induction fs) auto

lemma sealed_lengths: "sodium_laws P \<Longrightarrow> f \<in> set (sealed P c log) \<Longrightarrow> 18 \<le> length f"
proof (induction log arbitrary: c)
  case (Cons x log)
  have "sealed P c (x # log) = sealed P c [x] @ sealed P (sealed_state P c [x]) log" using sealed_append [of P c "[x]" log] by simp
  moreover have "18 \<le> length (fst (seal_packet P c x))" by (simp add: length_seal_packet [OF Cons.prems(1)])
  ultimately show ?case using Cons by (auto simp: sealed_single)
qed (simp add: sealed_def)

lemma missed_packets:
  assumes "sodium_laws P" "writer_inv P k log hi w" "n \<le> length log" "length log - n \<le> length (bw_backup w)"
  defines "fs \<equiv> drop n (sealed P k log)"
  shows "recover (int n) w = Inr fs" "length fs = length log - n" "list_all (\<lambda>f. 18 \<le> length f \<and> length f < 2 ^ 35) fs"
    "int (length (concat (map catchup_entry fs))) \<le> MAX_RECOVERY_PROTO_LEN"
proof -
  have ok: "writer_ok P k log w" using assms(2) by (simp add: writer_inv_def)
  show "recover (int n) w = Inr fs" using recover_ok [OF ok, of "int n"] assms(3,4) by (simp add: fs_def)
  show "length fs = length log - n" by (simp add: fs_def)
  have "take (length log - n) (bw_backup w) = take (length log - n) (history P k log)"
    using ok assms(4) by (auto simp: writer_ok_def prefix_def)
  then have "wires (take (length log - n) (history P k log)) \<le> wires (bw_backup w)"
    using wires_take_mono [of "bw_backup w" "length log - n" "length (bw_backup w)"] writer_ok_nonneg [OF ok] assms(4) by simp
  then have sum: "int (sum_list (map length fs)) \<le> MAX_RECOVERY_BACKUP_BYTES"
    using assms(2,3) wires_history [of "length log - n" log P k]
    by (simp add: fs_def writer_inv_def writer_ok_def writer_bounded_def int_sum_length)
  have "18 \<le> length f" if "f \<in> set fs" for f
    using sealed_lengths [OF assms(1), of f k log] in_set_dropD that unfolding fs_def by metis
  moreover have "length f < 2 ^ 35" if "f \<in> set fs" for f
    using elem_le_sum [OF that] sum by (simp add: MAX_RECOVERY_BACKUP_BYTES_def)
  ultimately show all: "list_all (\<lambda>f. 18 \<le> length f \<and> length f < 2 ^ 35) fs" by (simp add: list_all_iff)
  show "int (length (concat (map catchup_entry fs))) \<le> MAX_RECOVERY_PROTO_LEN"
    using catchup_length [OF all] sum by (simp add: MAX_RECOVERY_BACKUP_BYTES_def MAX_RECOVERY_PROTO_LEN_def)
qed

section \<open>The exchange between two peers\<close>

definition plain_header :: "int \<Rightarrow> sequence_header" where
  "plain_header n = \<lparr>sh_sequence_number = Some n, sh_reset = None, sh_reset_salt = None\<rparr>"

text \<open>What the generated code is relied on for: it decodes what it encodes, a header without a salt is short, and a
  catchup has the protobuf encoding of a repeated bytes field.\<close>

definition recovery_laws :: "recovery_codec \<Rightarrow> bool" where
  "recovery_laws K \<longleftrightarrow>
    (\<forall>n. 0 \<le> n \<and> n \<le> i32_max \<longrightarrow> dec_header K (enc_header K (plain_header n)) = Some (plain_header n) \<and>
       length (enc_header K (plain_header n)) \<le> 4096) \<and>
    (\<forall>fs. enc_catchup K fs = concat (map catchup_entry fs)) \<and>
    (\<forall>fs. list_all (\<lambda>f. length f < 2 ^ 64) fs \<longrightarrow> dec_catchup K (enc_catchup K fs) = Some fs)"

definition sendable :: "bytes list \<Rightarrow> bool" where
  "sendable fs \<longleftrightarrow> list_all (\<lambda>f. 18 \<le> length f \<and> length f < 2 ^ 35) fs \<and> length fs \<le> entry_cap \<and>
    int (length (concat (map catchup_entry fs))) \<le> MAX_RECOVERY_PROTO_LEN"

lemma limits_i64: "MAX_HANDSHAKE_PROTO_LEN \<le> i64_max" "MAX_RECOVERY_PROTO_LEN \<le> i64_max"
  by (simp_all add: MAX_HANDSHAKE_PROTO_LEN_def MAX_RECOVERY_PROTO_LEN_def i64_max_def)

lemma decode_sendable:
  assumes "recovery_laws K" "sendable fs"
  shows "decode_catchup K (enc_catchup K fs) = Inr fs"
proof -
  have "list_all (\<lambda>f. f \<noteq> [] \<and> length f < 2 ^ 64) fs" using assms(2) unfolding sendable_def list_all_iff by force
  then have "validate_catchup_encoding (enc_catchup K fs) = Inr ()" "dec_catchup K (enc_catchup K fs) = Some fs"
    using assms validate_entries [of fs 0 "[]"]
    by (auto simp: validate_catchup_encoding_def recovery_laws_def sendable_def entry_cap_def list_all_iff)
  then show ?thesis by (simp add: decode_catchup_def)
qed

lemma swap_catchup_ok:
  assumes "sk_incoming s = frame_native_i64 x @ rest" "int (length x) \<le> MAX_RECOVERY_PROTO_LEN" "int (length own) \<le> MAX_RECOVERY_PROTO_LEN"
    "8 + length own \<le> sk_room s"
  shows "swap_catchup read_first own s = (Inr x, s\<lparr>sk_incoming := rest, sk_outgoing := sk_outgoing s @ frame_native_i64 own,
    sk_room := sk_room s - (8 + length own)\<rparr>)"
proof -
  have r: "read_frame_limited_deadline MAX_RECOVERY_PROTO_LEN t = (Inr x, t\<lparr>sk_incoming := rest\<rparr>)" if "sk_incoming t = frame_native_i64 x @ rest" for t
    using read_frame [OF that assms(2) limits_i64(2)] .
  have w: "write_proto_limited_deadline own MAX_RECOVERY_PROTO_LEN t =
      (Inr (), t\<lparr>sk_outgoing := sk_outgoing t @ frame_native_i64 own, sk_room := sk_room t - (8 + length own)\<rparr>)"
    if "8 + length own \<le> sk_room t" for t using write_proto_frame [OF assms(3) limits_i64(2) that] .
  show ?thesis using assms(1,4) by (simp add: swap_catchup_def io_bind_def r w)
qed

lemma exchange_side:
  assumes K: "recovery_laws K" and ex: "rx_reset_salt ex = None"
    and own: "br_sequence (cn_reader c) = int m" "int m \<le> i32_max" and peer: "int n \<le> i32_max"
    and fs: "recover (int n) (cn_writer c) = Inr fs" "sendable fs" "sendable gs"
    and s: "sk_incoming s = frame_native_i64 (enc_header K (plain_header (int n))) @ frame_native_i64 (enc_catchup K gs)" "2 ^ 28 \<le> sk_room s"
  shows "\<exists>s'. exchange_recovery K ex c s = (Inr gs, s') \<and>
    sk_outgoing s' = sk_outgoing s @ frame_native_i64 (enc_header K (plain_header (int m))) @ frame_native_i64 (enc_catchup K fs)"
proof -
  have hm: "length (enc_header K (plain_header (int m))) \<le> 4096" using K own(2) by (auto simp: recovery_laws_def)
  have hn: "length (enc_header K (plain_header (int n))) \<le> 4096" "dec_header K (enc_header K (plain_header (int n))) = Some (plain_header (int n))"
    using K peer by (auto simp: recovery_laws_def)
  have enc: "enc_catchup K xs = concat (map catchup_entry xs)" for xs using K by (simp add: recovery_laws_def)
  define s1 where "s1 = s\<lparr>sk_outgoing := sk_outgoing s @ frame_native_i64 (enc_header K (plain_header (int m))),
      sk_room := sk_room s - (8 + length (enc_header K (plain_header (int m))))\<rparr>"
  have w: "write_proto_limited_deadline (enc_header K (plain_header (int m))) MAX_HANDSHAKE_PROTO_LEN s = (Inr (), s1)"
    unfolding s1_def using hm s(2) by (intro write_proto_frame limits_i64) (simp_all add: MAX_HANDSHAKE_PROTO_LEN_def)
  define s2 where "s2 = s1\<lparr>sk_incoming := frame_native_i64 (enc_catchup K gs)\<rparr>"
  have r: "read_proto_limited_deadline (dec_header K) MAX_HANDSHAKE_PROTO_LEN s1 = (Inr (plain_header (int n)), s2)"
    unfolding s2_def using hn s(1) by (intro read_proto_frame [of _ "enc_header K (plain_header (int n))"] limits_i64) (simp_all add: MAX_HANDSHAKE_PROTO_LEN_def s1_def)
  have len: "int (length (enc_catchup K fs)) \<le> MAX_RECOVERY_PROTO_LEN" "int (length (enc_catchup K gs)) \<le> MAX_RECOVERY_PROTO_LEN"
    using fs(2,3) by (simp_all add: enc sendable_def)
  have room: "8 + length (enc_catchup K fs) \<le> sk_room s2" using s(2) hm len(1) by (simp add: s2_def s1_def MAX_RECOVERY_PROTO_LEN_def)
  note sw = swap_catchup_ok [of s2 "enc_catchup K gs" "[]" "enc_catchup K fs" "rx_read_peer_catchup_first ex", OF _ len(2,1) room]
  have "exchange_recovery K ex c s = exchange_replay K (rx_read_peer_catchup_first ex) (cn_writer c) (plain_header (int n)) s2"
    using ex own w r by (simp add: exchange_recovery_def Let_def io_bind_def plain_header_def i32_max_def)
  also have "\<dots> = (Inr gs, s2\<lparr>sk_incoming := [], sk_outgoing := sk_outgoing s2 @ frame_native_i64 (enc_catchup K fs),
      sk_room := sk_room s2 - (8 + length (enc_catchup K fs))\<rparr>)"
    using fs(1) sw decode_sendable [OF K fs(3)] by (simp add: exchange_replay_def plain_header_def s2_def)
  finally show ?thesis by (simp add: s2_def s1_def)
qed

text \<open>A connection that has read the first \<open>n\<close> packets of its peer's \<open>log\<close>, and one that has resumed after them.\<close>

definition reads_at :: "primitives \<Rightarrow> crypto_handler \<Rightarrow> (byte \<times> bytes) list \<Rightarrow> nat \<Rightarrow> connection \<Rightarrow> bool" where
  "reads_at P k log n c \<longleftrightarrow> n \<le> length log \<and> br_sequence (cn_reader c) = int n \<and> int n \<le> i32_max \<and>
    crypto_sync P (sealed_state P k (take n log)) (br_crypto (cn_reader c))"

definition resumed :: "primitives \<Rightarrow> crypto_handler \<Rightarrow> (byte \<times> bytes) list \<Rightarrow> nat \<Rightarrow> connection \<Rightarrow> connection \<Rightarrow> bool" where
  "resumed P k log n c c' \<longleftrightarrow> conn_connected c' \<and> br_connected (cn_reader c') \<and>
    br_replay (cn_reader c') = br_replay (cn_reader c) @ map plain_packet (drop n log) \<and>
    br_sequence (cn_reader c') = int (length log) \<and> crypto_sync P (sealed_state P k log) (br_crypto (cn_reader c'))"

lemma candidate_fields [simp]:
  "cn_writer (prepare_recovery_candidate c) = writer_invalidate (cn_writer c)"
  "cn_reader (prepare_recovery_candidate c) = reader_invalidate (cn_reader c)"
  by (simp_all add: prepare_recovery_candidate_def) (simp_all add: conn_disconnect_def drop_pending_def Let_def)

lemma recover_invalidate [simp]: "recover n (writer_invalidate w) = recover n w"
  by (simp add: recover_def writer_invalidate_def Let_def split: option.split)

lemma revive_connected [simp]: "bw_connected (writer_revive w)"
  by (simp add: writer_revive_def Let_def split: prod.split)

lemma handshake_side:
  assumes K: "recovery_laws K" "rx_reset_salt ex = None" and r: "reads_at P k log n c" and m: "int m \<le> i32_max"
    and fs: "recover (int m) (cn_writer c) = Inr fs" "sendable fs" "sendable (drop n (sealed P k log))"
    and s: "sk_incoming s = frame_native_i64 (enc_header K (plain_header (int m))) @ frame_native_i64 (enc_catchup K (drop n (sealed P k log)))"
      "2 ^ 28 \<le> sk_room s"
  shows "\<exists>c' s'. run_recovery_handshake_with P K ex (prepare_recovery_candidate c) s = (Inr (length log - n), c', s') \<and>
    resumed P k log n c c' \<and>
    sk_outgoing s' = sk_outgoing s @ frame_native_i64 (enc_header K (plain_header (int n))) @ frame_native_i64 (enc_catchup K fs)"
proof -
  let ?gs = "drop n (sealed P k log)"
  obtain s' where x: "exchange_recovery K ex (prepare_recovery_candidate c) s = (Inr ?gs, s')"
    "sk_outgoing s' = sk_outgoing s @ frame_native_i64 (enc_header K (plain_header (int n))) @ frame_native_i64 (enc_catchup K fs)"
    using exchange_side [OF K, of "prepare_recovery_candidate c" n m fs ?gs s] r m fs s by (auto simp: reads_at_def)
  have sync: "crypto_sync P (sealed_state P k (take n log)) (br_crypto (reader_invalidate (cn_reader c)))"
    using r by (simp add: reads_at_def)
  obtain rd where d: "reader_revive P ?gs (reader_invalidate (cn_reader c)) = (Inr (), rd)"
    and rd: "br_connected rd" "br_replay rd = br_replay (cn_reader c) @ map plain_packet (drop n log)"
      "br_sequence rd = br_sequence (cn_reader c) + int (length (drop n log))" "crypto_sync P (sealed_state P k log) (br_crypto rd)"
    using revive_sealed [OF sync, of "drop n log"] by (auto simp: sealed_drop sealed_state_take_drop plain_packet_def)
  have len: "length ?gs = length log - n" by simp
  let ?c = "(prepare_recovery_candidate c)\<lparr>cn_reader := rd, cn_writer := writer_revive (writer_invalidate (cn_writer c))\<rparr>"
  have "run_recovery_handshake_with P K ex (prepare_recovery_candidate c) s = (Inr (length log - n), ?c, s')"
    unfolding run_recovery_handshake_with_def revive_halves_def candidate_fields x(1) K(2) by (simp add: d)
  moreover have "resumed P k log n c ?c" using rd r by (simp add: resumed_def reads_at_def conn_connected_def of_nat_diff)
  ultimately show ?thesis using x(2) by blast
qed

text \<open>A concrete codec with the properties above.\<close>

function decode_entries :: "bytes \<Rightarrow> bytes list option" where
  "decode_entries bs = (case bs of
     [] \<Rightarrow> Some []
   | tag # rest \<Rightarrow> (case decode_varint rest of
       None \<Rightarrow> None
     | Some (len, consumed) \<Rightarrow>
         map_option ((#) (take len (drop consumed rest))) (decode_entries (drop (consumed + len) rest))))"
  by pat_completeness auto
termination
  by (relation "measure length") auto

declare decode_entries.simps [simp del]

lemma decode_entries_encode:
  "list_all (\<lambda>f. length f < 2 ^ 64) fs \<Longrightarrow> decode_entries (concat (map catchup_entry fs)) = Some fs"
proof (induction fs)
  case (Cons f fs)
  let ?rest = "encode_varint (length f) @ f @ concat (map catchup_entry fs)"
  have d: "decode_varint ?rest = Some (length f, length (encode_varint (length f)))"
    using Cons.prems decode_varint_encode [of "length f"] by simp
  have "decode_entries (0x0a # ?rest) = Some (f # fs)"
    using Cons by (simp add: decode_entries.simps [of "0x0a # ?rest"] d)
  then show ?case by (simp add: catchup_entry_def [of f])
qed (simp add: decode_entries.simps [of "[]"])

definition plain_recovery_codec :: recovery_codec where
  "plain_recovery_codec = \<lparr>
     enc_header = (\<lambda>h. case sh_sequence_number h of Some n \<Rightarrow> i64_to_le_bytes n | None \<Rightarrow> []),
     dec_header = (\<lambda>bs. Some (plain_header (i64_from_le_bytes bs))),
     enc_catchup = (\<lambda>fs. concat (map catchup_entry fs)),
     dec_catchup = decode_entries\<rparr>"

lemma plain_recovery_laws [simp]: "recovery_laws plain_recovery_codec"
  using decode_entries_encode
  by (auto simp: recovery_laws_def plain_recovery_codec_def plain_header_def i64_le_roundtrip length_i64_bytes i64_min_def i64_max_def i32_max_def)

section \<open>Properties\<close>



text \<open>C35: Recovery can fail for good.  Reviving trims the backup by bytes only, so it can hold more packets than a peer
  accepts in a catchup; a peer that has read none of them is then sent a catchup it refuses, although the
  backup still holds every packet it asked for.\<close>

theorem revived_backup_unrecoverable:
  "\<exists>P k log w n fs. sodium_laws P \<and> writer_run P k log 0 w \<and> bw_connected w \<and> recover n w = Inr fs \<and>
    decode_catchup plain_recovery_codec (enc_catchup plain_recovery_codec fs) = Inl (invalid_catchup ''catchup contains too many entries'')"
proof -
  obtain P k log w where w: "sodium_laws P" "writer_run P k log 0 w" "bw_connected w" "length (bw_backup w) = 3 * MAX_BACKUP_PACKETS"
    using revive_exceeds_packet_cap by blast
  have inv: "writer_inv P k log 0 w" by (rule writer_run_inv [OF w(1,2)])
  have le: "length (bw_backup w) \<le> length log"
    using inv prefix_length_le [of "bw_backup w" "history P k log"] by (simp add: writer_inv_def writer_ok_def)
  let ?n = "length log - length (bw_backup w)"
  note f = missed_packets [OF w(1) inv, of ?n]
  have "list_all (\<lambda>f. f \<noteq> [] \<and> length f < 2 ^ 64) (drop ?n (sealed P k log))"
    using f(3) le unfolding list_all_iff by force
  from validate_entries [OF this, of 0 "[]"] le w(4)
  have "decode_catchup plain_recovery_codec (enc_catchup plain_recovery_codec (drop ?n (sealed P k log))) =
      Inl (invalid_catchup ''catchup contains too many entries'')"
    by (simp add: decode_catchup_def validate_catchup_encoding_def plain_recovery_codec_def entry_cap_def writer_caps)
  moreover have "recover (int ?n) w = Inr (drop ?n (sealed P k log))" using f(1) le by simp
  ultimately show ?thesis using w(1-3) by (intro exI conjI)
qed

end
