(* ===== verification/Outcome.thy ===== *)
theory Outcome
  imports Prelude
begin

text \<open>
  Code with state that returns \<^verbatim>\<open>Result<T, String>\<close> or panics: an action maps a state to its outcome and the state
  it leaves, also when it fails. \<open>safe E Q\<close> says of a run that it does not panic, that \<open>Q\<close> holds of its result and state,
  and \<open>E\<close> of the state it leaves with an error.
\<close>

datatype 'a outcome = Ok 'a | Err bytes | Panic

type_synonym ('m, 'a) action = "'m \<Rightarrow> 'a outcome \<times> 'm"

definition ret :: "'a \<Rightarrow> ('m, 'a) action" where
  "ret a s = (Ok a, s)"

definition fail :: "bytes \<Rightarrow> ('m, 'a) action" where
  "fail e s = (Err e, s)"

definition bind_action :: "('m, 'a) action \<Rightarrow> ('a \<Rightarrow> ('m, 'b) action) \<Rightarrow> ('m, 'b) action" where
  "bind_action m f s = (case m s of (Ok a, s') \<Rightarrow> f a s' | (Err e, s') \<Rightarrow> (Err e, s') | (Panic, s') \<Rightarrow> (Panic, s'))"

definition and_then :: "('m, unit) action \<Rightarrow> ('m, 'b) action \<Rightarrow> ('m, 'b) action" where
  "and_then m n = bind_action m (\<lambda>_. n)"

text \<open>A lookup that is unwrapped, an error passed on by \<^verbatim>\<open>?\<close>, and a change of the state.\<close>

definition unwrap :: "'a option \<Rightarrow> ('m, 'a) action" where
  "unwrap x s = (case x of Some a \<Rightarrow> (Ok a, s) | None \<Rightarrow> (Panic, s))"

definition attempt :: "bytes + 'a \<Rightarrow> ('m, 'a) action" where
  "attempt x s = (case x of Inr a \<Rightarrow> (Ok a, s) | Inl e \<Rightarrow> (Err e, s))"

definition modify :: "('m \<Rightarrow> 'm) \<Rightarrow> ('m, unit) action" where
  "modify f s = (Ok (), f s)"

definition with_state :: "('m \<Rightarrow> ('m, 'a) action) \<Rightarrow> ('m, 'a) action" where
  "with_state f s = f s s"

definition of_outcome :: "'a outcome \<Rightarrow> ('m, 'a) action" where
  "of_outcome r s = (r, s)"

text \<open>An error that is dropped, \<^verbatim>\<open>let _ = \<dots>\<close>.\<close>

definition ignore :: "('m, 'a) action \<Rightarrow> ('m, unit) action" where
  "ignore m s = (case m s of (Ok a, s') \<Rightarrow> (Ok (), s') | (Err e, s') \<Rightarrow> (Ok (), s') | (Panic, s') \<Rightarrow> (Panic, s'))"

fun for_each :: "('a \<Rightarrow> ('m, unit) action) \<Rightarrow> 'a list \<Rightarrow> ('m, unit) action" where
  "for_each f [] = ret ()"
| "for_each f (x # xs) = and_then (f x) (for_each f xs)"

fun fold_action :: "('a \<Rightarrow> 'b \<Rightarrow> ('m, 'b) action) \<Rightarrow> 'a list \<Rightarrow> 'b \<Rightarrow> ('m, 'b) action" where
  "fold_action f [] acc = ret acc"
| "fold_action f (x # xs) acc = bind_action (f x acc) (fold_action f xs)"

definition safe :: "('m \<Rightarrow> bool) \<Rightarrow> ('a \<Rightarrow> 'm \<Rightarrow> bool) \<Rightarrow> 'a outcome \<times> 'm \<Rightarrow> bool" where
  "safe E Q r = (case r of (Ok a, s) \<Rightarrow> Q a s | (Err e, s) \<Rightarrow> E s | (Panic, s) \<Rightarrow> False)"

lemma safe_ret [simp]: "safe E Q (ret a s) = Q a s"
  by (simp add: safe_def ret_def)

lemma safe_fail [simp]: "safe E Q (fail e s) = E s"
  by (simp add: safe_def fail_def)

lemma safe_bind [simp]: "safe E Q (bind_action m f s) = safe E (\<lambda>a s'. safe E Q (f a s')) (m s)"
  by (simp add: safe_def bind_action_def split: prod.split outcome.split)

lemma safe_and_then [simp]: "safe E Q (and_then m n s) = safe E (\<lambda>_ s'. safe E Q (n s')) (m s)"
  by (simp add: and_then_def)

lemma safe_unwrap [simp]: "safe E Q (unwrap x s) = (case x of Some a \<Rightarrow> Q a s | None \<Rightarrow> False)"
  by (simp add: safe_def unwrap_def split: option.split)

lemma safe_attempt [simp]: "safe E Q (attempt x s) = (case x of Inr a \<Rightarrow> Q a s | Inl e \<Rightarrow> E s)"
  by (simp add: safe_def attempt_def split: sum.split)

lemma safe_of_outcome [simp]: "safe E Q (of_outcome r s) = (case r of Ok a \<Rightarrow> Q a s | Err e \<Rightarrow> E s | Panic \<Rightarrow> False)"
  by (simp add: safe_def of_outcome_def)

lemma safe_modify [simp]: "safe E Q (modify f s) = Q () (f s)"
  by (simp add: safe_def modify_def)

lemma safe_with_state [simp]: "safe E Q (with_state f s) = safe E Q (f s s)"
  by (simp add: with_state_def)

lemma safe_ignore [simp]: "safe E Q (ignore m s) = safe (\<lambda>s'. Q () s') (\<lambda>_ s'. Q () s') (m s)"
  by (simp add: safe_def ignore_def split: prod.split outcome.split)

lemma safe_mono: "safe E Q r \<Longrightarrow> (\<And>s. E s \<Longrightarrow> E' s) \<Longrightarrow> (\<And>a s. Q a s \<Longrightarrow> Q' a s) \<Longrightarrow> safe E' Q' r"
  by (auto simp: safe_def split: prod.splits outcome.splits)

lemma safe_for_each:
  assumes "I s" "\<And>x s. x \<in> set xs \<Longrightarrow> I s \<Longrightarrow> safe E (\<lambda>_. I) (f x s)"
  shows "safe E (\<lambda>_. I) (for_each f xs s)"
  using assms
proof (induction xs arbitrary: s)
  case (Cons x xs)
  have "safe E (\<lambda>_. I) (f x s)" using Cons.prems by simp
  then show ?case by (simp, elim safe_mono) (use Cons in auto)
qed simp

lemma safe_fold_action:
  assumes "I s" "\<And>x acc s. x \<in> set xs \<Longrightarrow> I s \<Longrightarrow> safe E (\<lambda>_. I) (f x acc s)"
  shows "safe E (\<lambda>_. I) (fold_action f xs acc s)"
  using assms
proof (induction xs arbitrary: s acc)
  case (Cons x xs)
  have "safe E (\<lambda>_. I) (f x acc s)" using Cons.prems by simp
  then show ?case by (simp, elim safe_mono) (use Cons in auto)
qed simp

end
