(* ===== verification/Htm_Layout.thy ===== *)
theory Htm_Layout
  imports Std_Text
begin

text \<open>
  \<^verbatim>\<open>crates/et-htm/src/layout.rs\<close>: the split tree of a multiplexer window.  Pane ids are natural numbers (the
  32-bit counters of the daemon), rectangles hold 16-bit fields.  The weights of a split are single-precision
  floats; their arithmetic is the parameter \<open>F\<close>, of which only the range of the rounded sizes is ever used.
\<close>

section \<open>Definitions\<close>

record rect =
  r_cols :: nat
  r_rows :: nat
  r_x :: nat
  r_y :: nat

record 'f float_ops =
  fl_point5 :: 'f
  fl_halve :: "'f \<Rightarrow> 'f"
  fl_sum :: "'f list \<Rightarrow> 'f"
  fl_div :: "'f \<Rightarrow> 'f \<Rightarrow> 'f"
  fl_ratio :: "int \<Rightarrow> int \<Rightarrow> 'f"
  fl_scale :: "'f \<Rightarrow> nat \<Rightarrow> nat"

datatype 'f layout = Pane nat | Split bool "'f layout list" "'f list"

fun panes :: "'f layout \<Rightarrow> nat list" where
  "panes (Pane p) = [p]"
| "panes (Split horizontal children sizes) = concat (map panes children)"

fun layout_contains :: "nat \<Rightarrow> 'f layout \<Rightarrow> bool" where
  "layout_contains pane (Pane p) = (p = pane)"
| "layout_contains pane (Split horizontal children sizes) = list_ex (layout_contains pane) children"

definition insert_at :: "nat \<Rightarrow> 'a \<Rightarrow> 'a list \<Rightarrow> 'a list" where
  "insert_at i x xs = take i xs @ x # drop i xs"

definition is_pane :: "nat \<Rightarrow> 'f layout \<Rightarrow> bool" where
  "is_pane pane c = (case c of Pane p \<Rightarrow> p = pane | Split _ _ _ \<Rightarrow> False)"

text \<open>The children with the first one that holds \<open>dest\<close> replaced.\<close>

fun layout_insert :: "'f float_ops \<Rightarrow> nat \<Rightarrow> nat \<Rightarrow> bool \<Rightarrow> bool option \<Rightarrow> 'f layout \<Rightarrow> 'f layout"
  and insert_first :: "'f float_ops \<Rightarrow> nat \<Rightarrow> nat \<Rightarrow> bool \<Rightarrow> bool option \<Rightarrow> 'f layout list \<Rightarrow> 'f layout list" where
  "layout_insert F dest pane horizontal before (Pane p) =
    (if p = dest
     then Split horizontal (if before = Some True then [Pane pane, Pane dest] else [Pane dest, Pane pane]) [fl_point5 F, fl_point5 F]
     else Pane p)"
| "layout_insert F dest pane horizontal before (Split axis children sizes) =
    (case (if axis = horizontal then position (is_pane dest) children else None) of
       Some index \<Rightarrow>
         let at = (case before of None \<Rightarrow> length children | Some b \<Rightarrow> if b then index else index + 1)
         in Split axis (insert_at at (Pane pane) children) (insert_at at (fl_point5 F) (map (fl_halve F) sizes))
     | None \<Rightarrow> Split axis (insert_first F dest pane horizontal before children) sizes)"
| "insert_first F dest pane horizontal before [] = []"
| "insert_first F dest pane horizontal before (c # cs) =
    (if layout_contains dest c then layout_insert F dest pane horizontal before c # cs
     else c # insert_first F dest pane horizontal before cs)"

fun layout_remove :: "'f float_ops \<Rightarrow> nat \<Rightarrow> 'f layout \<Rightarrow> 'f layout option"
  and remove_children :: "'f float_ops \<Rightarrow> nat \<Rightarrow> 'f layout list \<Rightarrow> 'f list \<Rightarrow> ('f layout \<times> 'f) list" where
  "layout_remove F pane (Pane p) = (if p \<noteq> pane then Some (Pane p) else None)"
| "layout_remove F pane (Split horizontal children sizes) =
    (case remove_children F pane children sizes of
       [] \<Rightarrow> None
     | [(c, s)] \<Rightarrow> Some c
     | kept \<Rightarrow> let total = fl_sum F (map snd kept)
         in Some (Split horizontal (map fst kept) (map (\<lambda>(c, s). fl_div F s total) kept)))"
| "remove_children F pane [] sizes = []"
| "remove_children F pane (c # cs) [] = []"
| "remove_children F pane (c # cs) (s # ss) =
    (case layout_remove F pane c of
       None \<Rightarrow> remove_children F pane cs ss
     | Some c' \<Rightarrow> (c', s) # remove_children F pane cs ss)"

fun layout_swap :: "nat \<Rightarrow> nat \<Rightarrow> 'f layout \<Rightarrow> 'f layout" where
  "layout_swap a b (Pane p) = Pane (if p = a then b else if p = b then a else p)"
| "layout_swap a b (Split horizontal children sizes) = Split horizontal (map (layout_swap a b) children) sizes"

subsection \<open>Geometry\<close>

definition u16_wrap :: "nat \<Rightarrow> nat" where "u16_wrap n = n mod 65536"

fun rects_from :: "'f float_ops \<Rightarrow> bool \<Rightarrow> rect \<Rightarrow> nat \<Rightarrow> nat \<Rightarrow> nat \<Rightarrow> nat \<Rightarrow> 'f list \<Rightarrow> rect list" where
  "rects_from F horizontal r available n i used [] = []"
| "rects_from F horizontal r available n i used (s # ss) =
    (let size = (if i + 1 = n then max (available - used) 1 else fl_scale F s available);
         child = (if horizontal then r\<lparr>r_cols := size, r_x := u16_wrap (r_x r + u16_wrap (used + i))\<rparr>
                  else r\<lparr>r_rows := size, r_y := u16_wrap (r_y r + u16_wrap (used + i))\<rparr>)
     in child # rects_from F horizontal r available n (i + 1) (u16_wrap (used + size)) ss)"

definition rects :: "'f float_ops \<Rightarrow> bool \<Rightarrow> 'f list \<Rightarrow> rect \<Rightarrow> rect list" where
  "rects F horizontal sizes r =
    (let total = (if horizontal then r_cols r else r_rows r);
         available = max (total - (length sizes - 1)) (length sizes)
     in rects_from F horizontal r available (length sizes) 0 0 sizes)"

definition join_comma :: "bytes list \<Rightarrow> bytes" where
  "join_comma parts = (case parts of [] \<Rightarrow> [] | p # ps \<Rightarrow> p @ concat (map (\<lambda>x. 44 # x) ps))"

definition brackets :: "bool \<Rightarrow> bytes \<Rightarrow> bytes" where
  "brackets horizontal body = (if horizontal then [123] @ body @ [125] else [91] @ body @ [93])"

definition print_rect :: "rect \<Rightarrow> bytes" where
  "print_rect r = dec_nat (r_cols r) @ [120] @ dec_nat (r_rows r) @ [44] @ dec_nat (r_x r) @ [44] @ dec_nat (r_y r)"

fun geometry :: "'f float_ops \<Rightarrow> rect \<Rightarrow> 'f layout \<Rightarrow> bytes \<times> (nat \<times> rect) list"
  and geometry_children :: "'f float_ops \<Rightarrow> rect list \<Rightarrow> 'f layout list \<Rightarrow> bytes list \<times> (nat \<times> rect) list" where
  "geometry F r (Pane p) = (print_rect r @ [44] @ dec_nat p, [(p, r)])"
| "geometry F r (Split horizontal children sizes) =
    (case geometry_children F (rects F horizontal sizes r) children of
       (bodies, ps) \<Rightarrow> (print_rect r @ brackets horizontal (join_comma bodies), ps))"
| "geometry_children F rs [] = ([], [])"
| "geometry_children F [] (c # cs) = ([], [])"
| "geometry_children F (r # rs) (c # cs) =
    (case geometry F r c of (body, ps) \<Rightarrow> (case geometry_children F rs cs of (bodies, qs) \<Rightarrow> (body # bodies, ps @ qs)))"

text \<open>The span of a subtree between its first and its last pane.\<close>

definition extent :: "bool \<Rightarrow> (nat \<Rightarrow> rect) \<Rightarrow> nat list \<Rightarrow> int" where
  "extent horizontal rc ps =
    (if horizontal then int (r_x (rc (last ps))) + int (r_cols (rc (last ps))) - int (r_x (rc (hd ps)))
     else int (r_y (rc (last ps))) + int (r_rows (rc (last ps))) - int (r_y (rc (hd ps))))"

fun dump :: "(nat \<Rightarrow> rect) \<Rightarrow> 'f layout \<Rightarrow> bytes" where
  "dump rc (Pane p) = print_rect (rc p) @ [44] @ dec_nat p"
| "dump rc (Split horizontal children sizes) =
    (let ps = concat (map panes children); first = rc (hd ps);
         cols = (if horizontal then extent True rc ps else int (r_cols first));
         rows = (if horizontal then int (r_rows first) else extent False rc ps)
     in dec_int cols @ [120] @ dec_int rows @ [44] @ dec_nat (r_x first) @ [44] @ dec_nat (r_y first) @
        brackets horizontal (join_comma (map (dump rc) children)))"

subsection \<open>Resizing\<close>

definition set_sizes :: "'f float_ops \<Rightarrow> int list \<Rightarrow> int \<Rightarrow> 'f list \<Rightarrow> 'f list" where
  "set_sizes F dims whole sizes = map (\<lambda>d. fl_ratio F d whole) (take (length sizes) dims) @ drop (length dims) sizes"

text \<open>Growing child \<open>index\<close> takes from the others, the following ones first.\<close>

fun grow :: "nat \<Rightarrow> int \<Rightarrow> nat list \<Rightarrow> int list \<Rightarrow> int list" where
  "grow index need [] dims = dims"
| "grow index need (j # js) dims =
    (let taken = min need (dims ! j - 1);
         dims1 = dims[j := dims ! j - taken]
     in grow index (need - taken) js (dims1[index := dims1 ! index + taken]))"

definition resize_dims :: "nat \<Rightarrow> int \<Rightarrow> int list \<Rightarrow> int list" where
  "resize_dims index target dims =
    (let delta = target - dims ! index in
     if 0 < delta then grow index delta ([index + 1..<length dims] @ rev [0..<index]) dims
     else
       let neighbor = (if index + 1 < length dims then index + 1 else index - 1);
           dims1 = dims[index := target]
       in dims1[neighbor := dims1 ! neighbor - delta])"

fun absolute :: "'f float_ops \<Rightarrow> nat \<Rightarrow> bool \<Rightarrow> nat \<Rightarrow> (nat \<Rightarrow> rect) \<Rightarrow> 'f layout \<Rightarrow> bool option \<times> 'f layout"
  and absolute_child :: "'f float_ops \<Rightarrow> nat \<Rightarrow> bool \<Rightarrow> nat \<Rightarrow> (nat \<Rightarrow> rect) \<Rightarrow> 'f layout list \<Rightarrow> (nat \<times> bool option \<times> 'f layout list) option" where
  "absolute F pane axis want rc (Pane p) = (None, Pane p)"
| "absolute F pane axis want rc (Split horizontal children sizes) =
    (case absolute_child F pane axis want rc children of
       None \<Rightarrow> (None, Split horizontal children sizes)
     | Some (index, Some changed, children') \<Rightarrow> (Some changed, Split horizontal children' sizes)
     | Some (index, None, children') \<Rightarrow>
         if horizontal \<noteq> axis then (None, Split horizontal children' sizes)
         else
           let dims = map (\<lambda>c. max (extent axis rc (panes c)) 1) children';
               total = sum_list dims;
               target = max 1 (min (int want) (total - int (length dims) + 1))
           in if target = dims ! index then (Some False, Split horizontal children' sizes)
              else (Some True, Split horizontal children' (set_sizes F (resize_dims index target dims) total sizes)))"
| "absolute_child F pane axis want rc [] = None"
| "absolute_child F pane axis want rc (c # cs) =
    (if layout_contains pane c
     then (case absolute F pane axis want rc c of (changed, c') \<Rightarrow> Some (0, changed, c' # cs))
     else map_option (\<lambda>(index, changed, cs'). (index + 1, changed, c # cs')) (absolute_child F pane axis want rc cs))"

datatype direction = DirLeft | DirRight | DirUp | DirDown | DirOther

definition pick_neighbor :: "bool \<Rightarrow> nat \<Rightarrow> nat \<Rightarrow> nat \<times> bool" where
  "pick_neighbor backwards index n =
    (if backwards \<and> 0 < index then (index - 1, True)
     else if \<not> backwards \<and> index + 1 < n then (index + 1, True)
     else if 0 < index then (index - 1, False)
     else (index + 1, False))"

definition move_border :: "'f float_ops \<Rightarrow> bool \<Rightarrow> bool \<Rightarrow> int \<Rightarrow> (nat \<Rightarrow> rect) \<Rightarrow> nat \<Rightarrow> 'f layout list \<Rightarrow> 'f list \<Rightarrow> bool \<times> 'f list" where
  "move_border F horizontal backwards amount rc index children sizes =
    (let (neighbor, growing) = pick_neighbor backwards index (length children);
         dims = map (\<lambda>c. int (if horizontal then r_cols (rc (hd (panes c))) else r_rows (rc (hd (panes c))))) children;
         total = sum_list dims;
         shrinking = (if growing then neighbor else index);
         movement = min (max amount 0) (dims ! shrinking - 1)
     in if movement = 0 then (False, sizes)
        else
          let delta = (if growing then movement else - movement);
              dims1 = dims[index := dims ! index + delta];
              dims2 = dims1[neighbor := dims1 ! neighbor - delta]
          in (True, set_sizes F dims2 total sizes))"

fun directional :: "'f float_ops \<Rightarrow> nat \<Rightarrow> direction \<Rightarrow> int \<Rightarrow> (nat \<Rightarrow> rect) \<Rightarrow> 'f layout \<Rightarrow> bool \<times> 'f layout"
  and directional_child :: "'f float_ops \<Rightarrow> nat \<Rightarrow> direction \<Rightarrow> int \<Rightarrow> (nat \<Rightarrow> rect) \<Rightarrow> 'f layout list \<Rightarrow> (nat \<times> (bool \<times> 'f layout list) option) option" where
  "directional F pane dir amount rc (Pane p) = (False, Pane p)"
| "directional F pane dir amount rc (Split horizontal children sizes) =
    (case directional_child F pane dir amount rc children of
       None \<Rightarrow> (False, Split horizontal children sizes)
     | Some (index, Some (changed, children')) \<Rightarrow> (changed, Split horizontal children' sizes)
     | Some (index, None) \<Rightarrow>
         if horizontal \<noteq> (dir = DirLeft \<or> dir = DirRight) then (False, Split horizontal children sizes)
         else (case move_border F horizontal (dir = DirLeft \<or> dir = DirUp) amount rc index children sizes of
             (changed, sizes') \<Rightarrow> (changed, Split horizontal children sizes')))"
| "directional_child F pane dir amount rc [] = None"
| "directional_child F pane dir amount rc (c # cs) =
    (if layout_contains pane c
     then (case c of
         Pane p \<Rightarrow> Some (0, None)
       | Split _ _ _ \<Rightarrow> (case directional F pane dir amount rc c of (changed, c') \<Rightarrow> Some (0, Some (changed, c' # cs))))
     else map_option (\<lambda>(index, r). (index + 1, map_option (\<lambda>(changed, cs'). (changed, c # cs')) r))
       (directional_child F pane dir amount rc cs))"

definition contains_str :: "bytes \<Rightarrow> bytes \<Rightarrow> bool" where
  "contains_str needle s = list_ex (\<lambda>i. strip_prefix needle (drop i s) \<noteq> None) [0..<length s + 1]"

definition layout_select :: "'f float_ops \<Rightarrow> bytes \<Rightarrow> 'f layout \<Rightarrow> 'f layout" where
  "layout_select F name l =
    (let ids = panes l in
     if length ids < 2 then l
     else
       let horizontal = (name = ascii ''even-horizontal'' \<or> name = ascii ''main-vertical'' \<or>
             (\<not> contains_str (ascii ''vertical'') name \<and> name \<noteq> ascii ''main-horizontal''))
       in Split horizontal (map Pane ids) (replicate (length ids) (fl_ratio F 1 (int (length ids)))))"

section \<open>Well-formed trees\<close>

fun wf_layout :: "'f layout \<Rightarrow> bool" where
  "wf_layout (Pane p) = True"
| "wf_layout (Split horizontal children sizes) =
    (2 \<le> length children \<and> length sizes = length children \<and> list_all wf_layout children)"

lemma contains_panes [simp]: "layout_contains p l \<longleftrightarrow> p \<in> set (panes l)"
  by (induction l) (auto simp: list_ex_iff)

lemma panes_nonempty [simp]: "wf_layout l \<Longrightarrow> panes l \<noteq> []"
proof (induction l)
  case (Split horizontal children sizes)
  then obtain c cs where "children = c # cs" by (cases children) auto
  then show ?case using Split by simp
qed simp

lemma length_insert_at [simp]: "length (insert_at i x xs) = Suc (length xs)"
  by (simp add: insert_at_def)

lemma set_insert_at [simp]: "set (insert_at i x xs) = insert x (set xs)"
  unfolding insert_at_def by (metis append_take_drop_id list.simps(15) set_append Un_insert_right)

lemma list_all_insert_at [simp]: "list_all P (insert_at i x xs) \<longleftrightarrow> P x \<and> list_all P xs"
  by (auto simp: list_all_iff)

lemma mset_panes_insert_at: "mset (concat (map panes (insert_at i x xs))) = mset (panes x) + mset (concat (map panes xs))"
proof -
  have "mset (concat (map panes xs)) = mset (concat (map panes (take i xs))) + mset (concat (map panes (drop i xs)))"
    by (metis append_take_drop_id concat_append map_append mset_append)
  then show ?thesis by (simp add: insert_at_def)
qed

lemma is_pane_iff [simp]: "is_pane p c \<longleftrightarrow> c = Pane p"
  by (cases c) (auto simp: is_pane_def)

text \<open>Inserting beside a pane.\<close>

lemma layout_insert_wf:
  "wf_layout l \<Longrightarrow> wf_layout (layout_insert F dest pane horizontal before l)"
  "list_all wf_layout cs \<Longrightarrow> list_all wf_layout (insert_first F dest pane horizontal before cs) \<and>
    length (insert_first F dest pane horizontal before cs) = length cs"
  by (induction F dest pane horizontal before l and F dest pane horizontal before cs rule: layout_insert_insert_first.induct)
    (auto simp: Let_def split: option.split)

lemma layout_insert_mset:
  "mset (panes (layout_insert F dest pane horizontal before l)) = mset (panes l) + (if dest \<in> set (panes l) then {#pane#} else {#})"
  "mset (concat (map panes (insert_first F dest pane horizontal before cs))) =
    mset (concat (map panes cs)) + (if dest \<in> set (concat (map panes cs)) then {#pane#} else {#})"
proof (induction F dest pane horizontal before l and F dest pane horizontal before cs rule: layout_insert_insert_first.induct)
  case (2 F dest pane horizontal before axis children sizes)
  show ?case
  proof (cases "if axis = horizontal then position (is_pane dest) children else None")
    case None
    then show ?thesis using 2(1) by simp
  next
    case (Some index)
    then have "index < length children" "children ! index = Pane dest" by (auto simp: position_Some split: if_splits)
    then have "Pane dest \<in> set children" by (metis nth_mem)
    then have "dest \<in> set (concat (map panes children))" by force
    then show ?thesis using Some by (simp add: mset_panes_insert_at Let_def)
  qed
qed auto

text \<open>Removing a pane.\<close>

lemma layout_remove_spec:
  "wf_layout l \<Longrightarrow> (case layout_remove F pane l of
      None \<Rightarrow> filter (\<lambda>q. q \<noteq> pane) (panes l) = []
    | Some l' \<Rightarrow> wf_layout l' \<and> panes l' = filter (\<lambda>q. q \<noteq> pane) (panes l))"
  "list_all wf_layout cs \<Longrightarrow> length sizes = length cs \<Longrightarrow>
    list_all (\<lambda>(c, s). wf_layout c) (remove_children F pane cs sizes) \<and>
    concat (map (\<lambda>(c, s). panes c) (remove_children F pane cs sizes)) = filter (\<lambda>q. q \<noteq> pane) (concat (map panes cs))"
proof (induction F pane l and F pane cs sizes rule: layout_remove_remove_children.induct)
  case (2 F pane horizontal children sizes)
  let ?k = "remove_children F pane children sizes"
  have ih: "list_all (\<lambda>(c, s). wf_layout c) ?k" "concat (map (\<lambda>(c, s). panes c) ?k) = filter (\<lambda>q. q \<noteq> pane) (concat (map panes children))"
    using 2 by auto
  show ?case
  proof (cases ?k rule: remdups_adj.cases)
    case 1
    then show ?thesis using ih by simp
  next
    case (2 x)
    then show ?thesis using ih by (cases x) auto
  next
    case (3 x y zs)
    have "map (panes \<circ> fst) ?k = map (\<lambda>(c, s). panes c) ?k" "list_all wf_layout (map fst ?k)"
      using ih(1) by (auto simp: list_all_iff)
    then show ?thesis using ih(2) 3 by (cases x; cases y) (auto simp: Let_def comp_def split_def)
  qed
next
  case (5 F pane c cs s ss)
  then show ?case by (auto split: option.splits)
qed auto

text \<open>Swapping, resizing and selecting keep the tree.\<close>

lemma layout_swap_spec:
  "panes (layout_swap a b l) = map (\<lambda>p. if p = a then b else if p = b then a else p) (panes l)"
  "wf_layout (layout_swap a b l) = wf_layout l"
  by (induction l) (auto simp: map_concat list_all_iff comp_def intro!: arg_cong [of _ _ concat])

lemma length_set_sizes [simp]: "length dims = length sizes \<Longrightarrow> length (set_sizes F dims whole sizes) = length sizes"
  by (simp add: set_sizes_def)

lemma length_grow [simp]: "length (grow index need js dims) = length dims"
  by (induction index need js dims rule: grow.induct) (auto simp: Let_def)

lemma length_resize_dims [simp]: "length (resize_dims index target dims) = length dims"
  by (simp add: resize_dims_def Let_def)

lemma absolute_spec:
  "wf_layout l \<Longrightarrow> wf_layout (snd (absolute F pane axis want rc l)) \<and> panes (snd (absolute F pane axis want rc l)) = panes l"
  "list_all wf_layout cs \<Longrightarrow> absolute_child F pane axis want rc cs = Some (index, changed, cs') \<Longrightarrow>
    list_all wf_layout cs' \<and> map panes cs' = map panes cs"
proof (induction F pane axis want rc l and F pane axis want rc cs arbitrary: and index changed cs' rule: absolute_absolute_child.induct)
  case (2 F pane axis want rc horizontal children sizes)
  show ?case
  proof (cases "absolute_child F pane axis want rc children")
    case None
    then show ?thesis using 2 by simp
  next
    case (Some x)
    obtain index changed cs' where x: "x = (index, changed, cs')" by (cases x)
    have ih: "list_all wf_layout cs'" "map panes cs' = map panes children" using 2 Some x by auto
    then have "length cs' = length children" by (metis length_map)
    then show ?thesis using ih 2(2) Some x by (cases changed) (auto simp: Let_def)
  qed
qed (auto split: if_splits prod.splits)

lemma move_border_length:
  "length sizes = length children \<Longrightarrow> length (snd (move_border F horizontal backwards amount rc index children sizes)) = length sizes"
  by (simp add: move_border_def Let_def split: prod.split)

lemma directional_spec:
  "wf_layout l \<Longrightarrow> wf_layout (snd (directional F pane dir amount rc l)) \<and> panes (snd (directional F pane dir amount rc l)) = panes l"
  "list_all wf_layout cs \<Longrightarrow> directional_child F pane dir amount rc cs = Some (index, Some (changed, cs')) \<Longrightarrow>
    list_all wf_layout cs' \<and> map panes cs' = map panes cs"
proof (induction F pane dir amount rc l and F pane dir amount rc cs arbitrary: and index changed cs' rule: directional_directional_child.induct)
  case (2 F pane dir amount rc horizontal children sizes)
  show ?case
  proof (cases "directional_child F pane dir amount rc children")
    case None
    then show ?thesis using 2 by simp
  next
    case (Some x)
    obtain index r where x: "x = (index, r)" by (cases x)
    show ?thesis
    proof (cases r)
      case None
      obtain ch sizes' where m: "move_border F horizontal (dir = DirLeft \<or> dir = DirUp) amount rc index children sizes = (ch, sizes')" by fastforce
      then have "length sizes' = length sizes"
        using move_border_length [of sizes children F horizontal "dir = DirLeft \<or> dir = DirUp" amount rc index] 2(2) by simp
      moreover have "directional F pane dir amount rc (Split horizontal children sizes) =
          (if horizontal \<noteq> (dir = DirLeft \<or> dir = DirRight) then (False, Split horizontal children sizes) else (ch, Split horizontal children sizes'))"
        unfolding directional.simps Some x None option.case prod.case m by (rule refl)
      ultimately show ?thesis using 2(2) by simp
    next
      case r: (Some y)
      obtain changed cs' where y: "y = (changed, cs')" by (cases y)
      have ih: "list_all wf_layout cs'" "map panes cs' = map panes children" using 2 Some x r y by auto
      then have "length cs' = length children" by (metis length_map)
      then show ?thesis using ih 2(2) Some x r y by auto
    qed
  qed
next
  case (4 F pane dir amount rc c cs)
  show ?case
  proof (cases "layout_contains pane c")
    case True
    then obtain h ch sz where c: "c = Split h ch sz" using 4(4) by (cases c) auto
    show ?thesis using 4(1) [OF True c] 4(3,4) True unfolding c by (cases "directional F pane dir amount rc (Split h ch sz)") auto
  next
    case False
    then show ?thesis using 4(2) [OF False] 4(3,4) by auto
  qed
qed simp_all

lemma layout_select_spec:
  "wf_layout l \<Longrightarrow> wf_layout (layout_select F name l) \<and> panes (layout_select F name l) = panes l"
  by (auto simp: layout_select_def Let_def list_all_iff comp_def)

section \<open>Geometry\<close>

lemma length_rects_from [simp]: "length (rects_from F horizontal r available n i used sizes) = length sizes"
  by (induction F horizontal r available n i used sizes rule: rects_from.induct) (auto simp: Let_def)

lemma geometry_panes:
  "wf_layout l \<Longrightarrow> map fst (snd (geometry F r l)) = panes l"
  "list_all wf_layout cs \<Longrightarrow> length rs = length cs \<Longrightarrow> map fst (snd (geometry_children F rs cs)) = concat (map panes cs)"
  by (induction F r l and F rs cs rule: geometry_geometry_children.induct) (auto simp: rects_def Let_def split: prod.splits)

text \<open>The rounded sizes of the children but the last.\<close>

definition widths :: "'f float_ops \<Rightarrow> 'f list \<Rightarrow> nat \<Rightarrow> nat list" where
  "widths F sizes available = map (\<lambda>s. fl_scale F s available) (butlast sizes)"

text \<open>Rectangles that lie side by side, one column apart, from \<open>x\<close> to \<open>stop\<close>.\<close>

fun tiles :: "nat \<Rightarrow> nat \<Rightarrow> rect list \<Rightarrow> bool" where
  "tiles x stop [] = False"
| "tiles x stop [r] = (r_x r = x \<and> 1 \<le> r_cols r \<and> x + r_cols r = stop)"
| "tiles x stop (r # rs) = (r_x r = x \<and> 1 \<le> r_cols r \<and> tiles (x + r_cols r + 1) stop rs)"

lemma rects_from_tiles:
  assumes "sizes \<noteq> []" "used + sum_list (widths F sizes available) < available" "\<forall>s \<in> set sizes. 1 \<le> fl_scale F s available"
    "n = i + length sizes" "r_x r + available + n \<le> 65536"
  shows "tiles (r_x r + used + i) (r_x r + available + (n - 1)) (rects_from F True r available n i used sizes)"
  using assms
proof (induction sizes arbitrary: i used)
  case (Cons s ss)
  show ?case
  proof (cases ss)
    case Nil
    then show ?thesis using Cons.prems by (simp add: widths_def u16_wrap_def)
  next
    case (Cons s' ss')
    note ss = this
    let ?w = "fl_scale F s available"
    have w: "1 \<le> ?w" and le: "used + ?w + sum_list (widths F ss available) < available" using Cons.prems ss by (simp_all add: widths_def)
    then have wrap: "u16_wrap (used + ?w) = used + ?w" "u16_wrap (r_x r + u16_wrap (used + i)) = r_x r + used + i"
      using Cons.prems(4,5) by (simp_all add: u16_wrap_def)
    have ih: "tiles (r_x r + (used + ?w) + (i + 1)) (r_x r + available + (n - 1)) (rects_from F True r available n (i + 1) (used + ?w) ss)"
      using Cons.IH [of "used + ?w" "i + 1"] Cons.prems(3-5) le ss by simp
    define rs where "rs = rects_from F True r available n (i + 1) (used + ?w) ss"
    have "length rs = length ss" by (simp only: rs_def length_rects_from)
    then have "rs \<noteq> []" using ss by auto
    then obtain q qs where "rs = q # qs" by (cases rs) auto
    moreover have "i + 1 \<noteq> n" using Cons.prems(4) ss by simp
    then have "rects_from F True r available n i used (s # ss) = r\<lparr>r_cols := ?w, r_x := r_x r + used + i\<rparr> # rs"
      unfolding rs_def rects_from.simps(2) Let_def using wrap by (simp del: rects_from.simps)
    ultimately show ?thesis using ih w unfolding rs_def [symmetric] by (simp add: ac_simps del: rects_from.simps)
  qed
qed simp

section \<open>Properties\<close>

text \<open>C38: The operations of a layout keep it well-formed (every split has at least two children and one weight per
  child) and change its panes as they should: inserting adds the new pane when its neighbour is there,
  removing drops exactly the pane and reports when nothing is left, swapping renames, and resizing and
  selecting a named layout keep the panes and their order.\<close>

theorem layout_operations_typed:
  assumes "wf_layout l"
  shows "wf_layout (layout_insert F dest pane horizontal before l) \<and>
    mset (panes (layout_insert F dest pane horizontal before l)) = mset (panes l) + (if dest \<in> set (panes l) then {#pane#} else {#}) \<and>
    (case layout_remove F pane l of
       None \<Rightarrow> set (panes l) = {pane}
     | Some l' \<Rightarrow> wf_layout l' \<and> panes l' = filter (\<lambda>q. q \<noteq> pane) (panes l)) \<and>
    wf_layout (layout_swap a b l) \<and> panes (layout_swap a b l) = map (\<lambda>p. if p = a then b else if p = b then a else p) (panes l) \<and>
    wf_layout (snd (absolute F pane axis want rc l)) \<and> panes (snd (absolute F pane axis want rc l)) = panes l \<and>
    wf_layout (snd (directional F pane dir amount rc l)) \<and> panes (snd (directional F pane dir amount rc l)) = panes l \<and>
    wf_layout (layout_select F name l) \<and> panes (layout_select F name l) = panes l"
proof -
  have only: "set (panes l) = {pane}" if "filter (\<lambda>q. q \<noteq> pane) (panes l) = []"
    using that panes_nonempty [OF assms] unfolding filter_empty_conv by (cases "panes l") auto
  note r = layout_remove_spec(1) [OF assms, where F = F and pane = pane]
  have "case layout_remove F pane l of None \<Rightarrow> set (panes l) = {pane} | Some l' \<Rightarrow> wf_layout l' \<and> panes l' = filter (\<lambda>q. q \<noteq> pane) (panes l)"
  proof (cases "layout_remove F pane l")
    case None
    then show ?thesis using r only by (simp only: option.case)
  next
    case (Some l')
    then show ?thesis using r by (simp only: option.case)
  qed
  moreover have "wf_layout (layout_swap a b l)" using assms by (simp add: layout_swap_spec)
  ultimately show ?thesis
    by (intro conjI layout_insert_wf(1) [OF assms] layout_insert_mset(1) layout_swap_spec(1) absolute_spec(1) [OF assms, THEN conjunct1]
      absolute_spec(1) [OF assms, THEN conjunct2] directional_spec(1) [OF assms, THEN conjunct1] directional_spec(1) [OF assms, THEN conjunct2]
      layout_select_spec [OF assms, THEN conjunct1] layout_select_spec [OF assms, THEN conjunct2])
qed

text \<open>A horizontal split tiles its rectangle: when the rounded widths of all children but the last leave it room, the
  children lie side by side from the left edge to the right edge, one separator column apart, and none is empty.\<close>

theorem horizontal_split_tiles:
  assumes "2 \<le> length sizes" "\<forall>s \<in> set sizes. 1 \<le> fl_scale F s (r_cols r - (length sizes - 1))"
    "sum_list (widths F sizes (r_cols r - (length sizes - 1))) + length sizes \<le> r_cols r" "2 * length sizes \<le> r_cols r + 1"
    "r_x r + r_cols r < 65536"
  shows "tiles (r_x r) (r_x r + r_cols r) (rects F True sizes r) \<and> length (rects F True sizes r) = length sizes"
proof -
  define available where "available = r_cols r - (length sizes - 1)"
  have "length sizes \<le> available" using assms(1,4) unfolding available_def by linarith
  then have a: "max available (length sizes) = available" by (rule max_absorb1)
  have stop: "r_x r + available + (length sizes - 1) = r_x r + r_cols r" using assms(1,4) by (simp add: available_def)
  have "tiles (r_x r + 0 + 0) (r_x r + available + (length sizes - 1)) (rects_from F True r available (length sizes) 0 0 sizes)"
    using assms available_def by (intro rects_from_tiles) auto
  then show ?thesis using a stop by (simp add: rects_def Let_def available_def)
qed

definition sample_floats :: "nat float_ops" where
  "sample_floats = \<lparr>fl_point5 = 50, fl_halve = (\<lambda>s. s div 2), fl_sum = sum_list, fl_div = (\<lambda>a b. 100 * a div b),
     fl_ratio = (\<lambda>a b. nat (100 * a div b)), fl_scale = (\<lambda>s n. max (s * n div 100) 1)\<rparr>"

theorem layout_operations_typed_witness:
  "panes (layout_insert sample_floats 1 2 True None (Split True [Pane 0, Pane 1] [50, 50])) = [0, 1, 2] \<and>
   wf_layout (layout_insert sample_floats 1 2 True None (Split True [Pane 0, Pane 1] [50, 50]))"
  using layout_operations_typed [of "Split True [Pane 0, Pane 1] [50, 50]" sample_floats 1 2 True None]
  by (simp add: is_pane_def insert_at_def)

theorem horizontal_split_tiles_witness:
  "tiles 0 80 (rects sample_floats True [50, 50] \<lparr>r_cols = 80, r_rows = 24, r_x = 0, r_y = 0\<rparr>)"
  using horizontal_split_tiles [of "[50, 50]" sample_floats "\<lparr>r_cols = 80, r_rows = 24, r_x = 0, r_y = 0\<rparr>"]
  by (simp add: sample_floats_def widths_def)

end
