(* ===== verification/Htm_Framing.thy ===== *)
theory Htm_Framing
  imports Std_Text
begin

text \<open>
  \<^verbatim>\<open>crates/et-htm/src/framing.rs\<close>: command lines of the tmux control protocol, their words, and the replies.
  Strings are byte strings in UTF-8; the characters the parser looks for are ASCII, so reading bytes is reading
  characters.
\<close>

section \<open>Definitions\<close>

definition MAX_COMMAND :: nat where "MAX_COMMAND = 64 * 1024"
definition MAX_QUEUE :: nat where "MAX_QUEUE = 256 * 1024"

record lines =
  ln_pending :: bytes
  ln_cr :: bool

definition lines_default :: lines where
  "lines_default = \<lparr>ln_pending = [], ln_cr = False\<rparr>"

fun feed_lines :: "bytes \<Rightarrow> bytes list \<Rightarrow> lines \<Rightarrow> (string + bytes list) \<times> lines" where
  "feed_lines [] out l = (Inr out, l)"
| "feed_lines (b # bs) out l =
    (if b = 10 \<and> ln_cr l then feed_lines bs out (l\<lparr>ln_cr := False\<rparr>)
     else
       let l1 = l\<lparr>ln_cr := (b = 13)\<rparr> in
       if b = 13 \<or> b = 10
       then let l2 = l1\<lparr>ln_pending := []\<rparr> in
         if valid_utf8 (ln_pending l1) then feed_lines bs (out @ [ln_pending l1]) l2
         else (Inl ''command is not UTF-8'', l2)
       else if length (ln_pending l1) = MAX_COMMAND then (Inl ''command too long'', l1)
       else feed_lines bs out (l1\<lparr>ln_pending := ln_pending l1 @ [b]\<rparr>))"

definition lines_feed :: "bytes \<Rightarrow> lines \<Rightarrow> (string + bytes list) \<times> lines" where
  "lines_feed bs l = feed_lines bs [] l"

subsection \<open>Words\<close>

definition trim_ascii_start :: "bytes \<Rightarrow> bytes" where
  "trim_ascii_start s = dropWhile is_ascii_whitespace s"

definition trim_ascii :: "bytes \<Rightarrow> bytes" where
  "trim_ascii s = rev (dropWhile is_ascii_whitespace (rev (dropWhile is_ascii_whitespace s)))"

text \<open>The first pass: the commands of a line, separated by unquoted semicolons.\<close>

record splitter =
  sp_commands :: "bytes list"
  sp_word :: bytes
  sp_quote :: "byte option"
  sp_escaped :: bool
  sp_separated :: bool

definition push_command :: "bytes \<Rightarrow> bytes list \<Rightarrow> bytes list" where
  "push_command word commands = (if trim_ascii word \<noteq> [] then commands @ [trim_ascii word] else commands)"

definition split_char :: "byte \<Rightarrow> splitter \<Rightarrow> splitter" where
  "split_char ch s =
    (if sp_escaped s then s\<lparr>sp_word := sp_word s @ [ch], sp_escaped := False\<rparr>
     else if ch = 92 \<and> sp_quote s \<noteq> Some 39 then s\<lparr>sp_escaped := True\<rparr>
     else if sp_quote s = Some ch then s\<lparr>sp_quote := None, sp_word := sp_word s @ [ch]\<rparr>
     else if sp_quote s \<noteq> None then s\<lparr>sp_word := sp_word s @ [ch]\<rparr>
     else if ch = 39 \<or> ch = 34 then s\<lparr>sp_quote := Some ch, sp_word := sp_word s @ [ch]\<rparr>
     else if ch = 59 then s\<lparr>sp_separated := True, sp_commands := push_command (sp_word s) (sp_commands s), sp_word := []\<rparr>
     else s\<lparr>sp_word := sp_word s @ [ch]\<rparr>)"

definition split_commands :: "bytes \<Rightarrow> bytes list" where
  "split_commands line =
    (let s = fold split_char line \<lparr>sp_commands = [], sp_word = [], sp_quote = None, sp_escaped = False, sp_separated = False\<rparr>;
         commands = (if \<not> sp_separated s then [line] else push_command (sp_word s) (sp_commands s))
     in if commands = [] then [line] else commands)"

text \<open>The second pass: the words of a command.\<close>

record worder =
  wd_words :: "bytes list"
  wd_word :: bytes
  wd_quote :: "byte option"
  wd_escaped :: bool

definition push_word :: "bytes \<Rightarrow> bytes list \<Rightarrow> bytes list" where
  "push_word word words = (if word \<noteq> [] then words @ [word] else words)"

definition word_char :: "byte \<Rightarrow> worder \<Rightarrow> worder" where
  "word_char ch s =
    (if wd_escaped s then s\<lparr>wd_word := wd_word s @ [ch], wd_escaped := False\<rparr>
     else if ch = 92 \<and> wd_quote s \<noteq> Some 39 then s\<lparr>wd_escaped := True\<rparr>
     else if wd_quote s = Some ch then s\<lparr>wd_quote := None\<rparr>
     else if wd_quote s \<noteq> None then s\<lparr>wd_word := wd_word s @ [ch]\<rparr>
     else if ch = 39 \<or> ch = 34 then s\<lparr>wd_quote := Some ch\<rparr>
     else if is_ascii_whitespace ch then s\<lparr>wd_words := push_word (wd_word s) (wd_words s), wd_word := []\<rparr>
     else s\<lparr>wd_word := wd_word s @ [ch]\<rparr>)"

definition command_words :: "bytes \<Rightarrow> bytes list" where
  "command_words command =
    (let s = fold word_char command \<lparr>wd_words = [], wd_word = [], wd_quote = None, wd_escaped = False\<rparr>
     in push_word (wd_word s) (wd_words s))"

definition parse_line :: "bytes \<Rightarrow> string + bytes list list" where
  "parse_line line = Inr (map command_words (split_commands line))"

subsection \<open>Output\<close>

definition escape_byte :: "byte \<Rightarrow> bytes" where
  "escape_byte b = (if b < 32 \<or> b = 92 then [92, 48 + drop_bit 6 b, 48 + (drop_bit 3 b AND 7), 48 + (b AND 7)] else [b])"

definition escape_bytes :: "bytes \<Rightarrow> bytes" where
  "escape_bytes bs = concat (map escape_byte bs)"

definition reply :: "nat \<Rightarrow> nat \<Rightarrow> nat \<Rightarrow> (bytes + bytes) \<Rightarrow> bytes" where
  "reply time sequence flags result =
    (let stamp = dec_nat time @ [32] @ dec_nat sequence @ [32] @ dec_nat flags @ [10];
         (body, ending) = (case result of Inr body \<Rightarrow> (body, ascii ''end'') | Inl e \<Rightarrow> (escape_bytes e, ascii ''error''))
     in ascii ''%begin '' @ stamp @ body @ (if body \<noteq> [] \<and> last body \<noteq> 10 then [10] else []) @ [37] @ ending @ [32] @ stamp)"

section \<open>Lines\<close>

lemma feed_lines_append:
  "feed_lines (a @ b) out l = (case feed_lines a out l of (Inl e, l1) \<Rightarrow> (Inl e, l1) | (Inr out1, l1) \<Rightarrow> feed_lines b out1 l1)"
  by (induction a arbitrary: out l) (simp_all add: Let_def)

lemma feed_lines_out:
  "feed_lines bs (out @ more_out) l = (case feed_lines bs more_out l of (Inl e, l1) \<Rightarrow> (Inl e, l1) | (Inr ls, l1) \<Rightarrow> (Inr (out @ ls), l1))"
  by (induction bs arbitrary: more_out l) (simp_all add: Let_def)

definition command_text :: "bytes \<Rightarrow> bool" where
  "command_text x \<longleftrightarrow> valid_utf8 x \<and> length x \<le> MAX_COMMAND \<and> 10 \<notin> set x \<and> 13 \<notin> set x"

definition lines_inv :: "lines \<Rightarrow> bool" where
  "lines_inv l \<longleftrightarrow> length (ln_pending l) \<le> MAX_COMMAND \<and> 10 \<notin> set (ln_pending l) \<and> 13 \<notin> set (ln_pending l)"

lemma lines_inv_steps:
  "lines_inv l \<Longrightarrow> lines_inv (l\<lparr>ln_cr := c\<rparr>)"
  "lines_inv (l\<lparr>ln_cr := c, ln_pending := []\<rparr>)"
  "lines_inv l \<Longrightarrow> length (ln_pending l) \<noteq> MAX_COMMAND \<Longrightarrow> b \<noteq> 10 \<Longrightarrow> b \<noteq> 13 \<Longrightarrow> lines_inv (l\<lparr>ln_cr := c, ln_pending := ln_pending l @ [b]\<rparr>)"
  "lines_inv l \<Longrightarrow> valid_utf8 (ln_pending l) \<Longrightarrow> command_text (ln_pending l)"
  by (auto simp: lines_inv_def command_text_def)

lemma feed_lines_typed:
  "lines_inv l \<Longrightarrow> list_all command_text out \<Longrightarrow>
    lines_inv (snd (feed_lines bs out l)) \<and> (case fst (feed_lines bs out l) of Inr ls \<Rightarrow> list_all command_text ls | Inl _ \<Rightarrow> True)"
  by (induction bs arbitrary: out l) (simp_all add: Let_def lines_inv_steps)

lemma lines_feed_append:
  "lines_feed (a @ b) l = (case lines_feed a l of (Inl e, l1) \<Rightarrow> (Inl e, l1)
    | (Inr ls, l1) \<Rightarrow> (case lines_feed b l1 of (Inl e, l2) \<Rightarrow> (Inl e, l2) | (Inr ls2, l2) \<Rightarrow> (Inr (ls @ ls2), l2)))"
proof (cases "feed_lines a [] l")
  case (Pair r l1)
  show ?thesis
  proof (cases r)
    case (Inr ls)
    have "feed_lines b ls l1 = (case feed_lines b [] l1 of (Inl e, l2) \<Rightarrow> (Inl e, l2) | (Inr ls2, l2) \<Rightarrow> (Inr (ls @ ls2), l2))"
      using feed_lines_out [of b ls "[]" l1] by (simp only: append_Nil2)
    then show ?thesis by (simp add: lines_feed_def feed_lines_append Pair Inr)
  qed (simp add: lines_feed_def feed_lines_append Pair)
qed

lemma feed_lines_plain:
  "10 \<notin> set x \<and> 13 \<notin> set x \<Longrightarrow> length (ln_pending l) + length x \<le> MAX_COMMAND \<Longrightarrow> \<not> ln_cr l \<Longrightarrow>
    feed_lines x out l = (Inr out, l\<lparr>ln_pending := ln_pending l @ x\<rparr>)"
proof (induction x arbitrary: l)
  case (Cons b x)
  have e: "l\<lparr>ln_cr := False, ln_pending := ln_pending l @ [b]\<rparr> = l\<lparr>ln_pending := ln_pending l @ [b]\<rparr>" using Cons.prems(3) by (cases l) simp
  show ?case using Cons.prems Cons.IH [of "l\<lparr>ln_pending := ln_pending l @ [b]\<rparr>"] by (auto simp: Let_def e)
qed simp

definition ended :: "bytes \<times> bool \<Rightarrow> bytes" where
  "ended x = fst x @ (if snd x then [13, 10] else [10])"

lemma lines_feed_ended:
  assumes "command_text (fst x)"
  shows "lines_feed (ended x) lines_default = (Inr [fst x], lines_default)"
  using assms unfolding lines_feed_def ended_def feed_lines_append
  by (simp add: feed_lines_plain command_text_def lines_default_def)

lemma lines_feed_all_ended:
  "list_all (\<lambda>x. command_text (fst x)) xs \<Longrightarrow> lines_feed (concat (map ended xs)) lines_default = (Inr (map fst xs), lines_default)"
proof (induction xs)
  case Nil
  then show ?case by (simp add: lines_feed_def)
next
  case (Cons x xs)
  then show ?case by (simp add: lines_feed_append lines_feed_ended)
qed

text \<open>A client's bytes as they are read, one read after the other.\<close>

fun feed_reads :: "bytes list \<Rightarrow> lines \<Rightarrow> (string + bytes list) \<times> lines" where
  "feed_reads [] l = (Inr [], l)"
| "feed_reads (c # cs) l = (case lines_feed c l of (Inl e, l1) \<Rightarrow> (Inl e, l1)
    | (Inr ls, l1) \<Rightarrow> (case feed_reads cs l1 of (Inl e, l2) \<Rightarrow> (Inl e, l2) | (Inr ls2, l2) \<Rightarrow> (Inr (ls @ ls2), l2)))"

lemma feed_reads_concat: "feed_reads cs l = lines_feed (concat cs) l"
proof (induction cs arbitrary: l)
  case Nil
  then show ?case by (simp add: lines_feed_def)
next
  case (Cons c cs)
  then show ?case by (simp only: feed_reads.simps concat.simps lines_feed_append)
qed

text \<open>C39: Commands of at most \<^const>\<open>MAX_COMMAND\<close> bytes, each ended by LF or CR LF, are read as they were sent whatever
  pieces the bytes arrive in, with a CR and its LF in different pieces included.\<close>

theorem commands_received:
  assumes "list_all (\<lambda>x. command_text (fst x)) xs" "concat reads = concat (map ended xs)"
  shows "feed_reads reads lines_default = (Inr (map fst xs), lines_default)"
  using assms by (simp add: feed_reads_concat lines_feed_all_ended)

theorem commands_received_witness:
  "list_all (\<lambda>x. command_text (fst x)) [(ascii ''ls'', True), (ascii ''q'', False)] \<and>
    feed_reads [ascii ''l'', ascii ''s'' @ [13], [10], ascii ''q'' @ [10]] lines_default = (Inr [ascii ''ls'', ascii ''q''], lines_default)"
proof -
  have h: "list_all (\<lambda>x. command_text (fst x)) [(ascii ''ls'', True), (ascii ''q'', False)]"
    unfolding command_text_def by (simp add: MAX_COMMAND_def ascii_def valid_utf8_ascii del: valid_utf8.simps)
  show ?thesis using h commands_received [OF h, of "[ascii ''l'', ascii ''s'' @ [13], [10], ascii ''q'' @ [10]]"]
    by (simp add: ended_def ascii_def)
qed

section \<open>Escaping\<close>

text \<open>How a control client reads escaped text: a backslash and three octal digits are one byte.\<close>

fun unescape :: "bytes \<Rightarrow> bytes" where
  "unescape (b # bs) = (if b = 92 then (case bs of x # y # z # r \<Rightarrow> (64 * (x - 48) + 8 * (y - 48) + (z - 48)) # unescape r | _ \<Rightarrow> []) else b # unescape bs)"
| "unescape [] = []"

lemma unat_and_7: "unat (c AND 7) = unat c mod 8" for c :: byte
proof -
  have "c AND 7 = take_bit 3 c" by (simp add: take_bit_eq_mask mask_eq_exp_minus_1)
  then show ?thesis by (simp add: take_bit_eq_mod unat_mod_distrib)
qed

lemma unat_drop_bit: "unat (drop_bit n c) = unat c div 2 ^ n" for c :: byte
  by (simp add: unsigned_drop_bit_eq drop_bit_eq_div [where 'a = nat] take_bit_nat_eq_self del: drop_bit_eq_div)

lemma octal_byte: "64 * drop_bit 6 b + 8 * (drop_bit 3 b AND 7) + (b AND 7) = (b :: byte)"
proof -
  have b: "unat b < 256" by simp
  have m: "64 * (m div 64) + 8 * (m div 8 mod 8) + m mod 8 = m" for m :: nat
  proof -
    have "m div 64 = m div 8 div 8" by (simp flip: div_mult2_eq)
    then show ?thesis using mult_div_mod_eq [of 8 "m div 8"] mult_div_mod_eq [of 8 m] by linarith
  qed
  have "unat (64 * drop_bit 6 b + 8 * (drop_bit 3 b AND 7) + (b AND 7)) = (64 * (unat b div 64) + 8 * (unat b div 8 mod 8) + unat b mod 8) mod 256"
    by (simp add: unat_word_ariths unat_and_7 unat_drop_bit mod_simps)
  then have "unat (64 * drop_bit 6 b + 8 * (drop_bit 3 b AND 7) + (b AND 7)) = unat b" by (simp only: m mod_less [OF b])
  then show ?thesis by (simp only: word_unat_eq_iff)
qed

lemma unescape_escape_byte: "unescape (escape_byte b @ bs) = b # unescape bs"
  using octal_byte [of b] by (simp add: escape_byte_def add.assoc)

lemma escape_byte_printable: "x \<in> set (escape_byte b) \<Longrightarrow> 32 \<le> x"
proof -
  have b: "unat b < 256" by simp
  have "unat (48 + (c AND 7)) = 48 + unat c mod 8" for c :: byte
    by (simp add: unat_word_ariths unat_and_7)
  moreover have "unat (48 + drop_bit 6 b) = 48 + unat b div 64"
    using less_mult_imp_div_less [of "unat b" 4 64] b by (simp add: unat_word_ariths unat_drop_bit)
  ultimately show "x \<in> set (escape_byte b) \<Longrightarrow> 32 \<le> x"
    by (auto simp: escape_byte_def word_le_nat_alt word_less_nat_alt split: if_splits)
qed

text \<open>Escaped output has no control byte, so it never ends a line of the protocol, and a client that reads backslash
  escapes gets the bytes back.\<close>

theorem escape_roundtrip:
  "unescape (escape_bytes bs) = bs \<and> list_all (\<lambda>x. 32 \<le> x) (escape_bytes bs)"
proof
  show "unescape (escape_bytes bs) = bs"
    by (induction bs) (simp_all add: escape_bytes_def unescape_escape_byte)
  show "list_all (\<lambda>x. 32 \<le> x) (escape_bytes bs)"
    by (auto simp: list_all_iff escape_bytes_def escape_byte_printable)
qed

section \<open>Parsing\<close>

text \<open>How a client writes commands: every word in single quotes, words separated by a space and commands by a semicolon.\<close>

definition quoted :: "bytes \<Rightarrow> bytes" where
  "quoted w = 39 # w @ [39]"

fun command_line :: "bytes list \<Rightarrow> bytes" where
  "command_line [] = []"
| "command_line [w] = quoted w"
| "command_line (w # ws) = quoted w @ [32] @ command_line ws"

fun command_list :: "bytes list list \<Rightarrow> bytes" where
  "command_list [] = []"
| "command_list [c] = command_line c"
| "command_list (c # cs) = command_line c @ [59] @ command_list cs"

definition quotable :: "bytes list \<Rightarrow> bool" where
  "quotable c \<longleftrightarrow> c \<noteq> [] \<and> list_all (\<lambda>w. w \<noteq> [] \<and> 39 \<notin> set w) c"

lemma split_inside:
  "39 \<notin> set w \<Longrightarrow> \<not> sp_escaped s \<Longrightarrow> sp_quote s = Some 39 \<Longrightarrow> fold split_char w s = s\<lparr>sp_word := sp_word s @ w\<rparr>"
  by (induction w arbitrary: s) (simp_all add: split_char_def)

lemma split_quoted:
  assumes "39 \<notin> set w" "\<not> sp_escaped s" "sp_quote s = None"
  shows "fold split_char (quoted w) s = s\<lparr>sp_word := sp_word s @ quoted w\<rparr>"
  using assms by (cases s) (simp add: quoted_def split_inside split_char_def)

lemma split_command_line:
  "quotable c \<Longrightarrow> \<not> sp_escaped s \<Longrightarrow> sp_quote s = None \<Longrightarrow> fold split_char (command_line c) s = s\<lparr>sp_word := sp_word s @ command_line c\<rparr>"
  by (induction c arbitrary: s rule: command_line.induct) (simp_all add: quotable_def split_quoted, simp add: split_char_def)

lemma word_inside:
  "39 \<notin> set w \<Longrightarrow> \<not> wd_escaped s \<Longrightarrow> wd_quote s = Some 39 \<Longrightarrow> fold word_char w s = s\<lparr>wd_word := wd_word s @ w\<rparr>"
  by (induction w arbitrary: s) (simp_all add: word_char_def)

lemma word_quoted:
  assumes "39 \<notin> set w" "\<not> wd_escaped s" "wd_quote s = None"
  shows "fold word_char (quoted w) s = s\<lparr>wd_word := wd_word s @ w\<rparr>"
  using assms by (cases s) (simp add: quoted_def word_inside word_char_def)

lemma word_command_line:
  "quotable c \<Longrightarrow> \<not> wd_escaped s \<Longrightarrow> wd_quote s = None \<Longrightarrow> wd_word s = [] \<Longrightarrow>
    fold word_char (command_line c) s = s\<lparr>wd_words := wd_words s @ butlast c, wd_word := last c\<rparr>"
proof (induction c arbitrary: s rule: command_line.induct)
  case (3 w v ws)
  have "word_char 32 (s\<lparr>wd_word := w\<rparr>) = s\<lparr>wd_words := wd_words s @ [w], wd_word := []\<rparr>"
    using "3.prems" by (cases s) (simp add: quotable_def word_char_def push_word_def is_ascii_whitespace_def)
  then show ?case using "3.prems" "3.IH" [of "s\<lparr>wd_words := wd_words s @ [w], wd_word := []\<rparr>"]
    by (simp add: quotable_def word_quoted)
qed (simp_all add: quotable_def word_quoted)

lemma command_words_line: "quotable c \<Longrightarrow> command_words (command_line c) = c"
  unfolding command_words_def
  by (subst word_command_line) (auto simp: push_word_def quotable_def list_all_iff)

lemma command_line_ends:
  "quotable c \<Longrightarrow> command_line c \<noteq> [] \<and> hd (command_line c) = 39 \<and> last (command_line c) = 39"
  by (induction c rule: command_line.induct) (auto simp: quotable_def quoted_def)

lemma trim_command_line: assumes "quotable c" shows "trim_ascii (command_line c) = command_line c"
proof -
  obtain r q where e: "command_line c = 39 # r" "command_line c = q @ [39]" 
    using command_line_ends [OF assms] by (metis append_butlast_last_id list.collapse)
  have "dropWhile is_ascii_whitespace (command_line c) = command_line c" unfolding e(1) by (simp add: is_ascii_whitespace_def)
  moreover have "rev (dropWhile is_ascii_whitespace (rev (command_line c))) = command_line c" unfolding e(2) by (simp add: is_ascii_whitespace_def)
  ultimately show ?thesis unfolding trim_ascii_def by simp
qed

lemma push_command_line: "quotable c \<Longrightarrow> push_command (command_line c) cs = cs @ [command_line c]"
  using command_line_ends [of c] by (auto simp: push_command_def trim_command_line)

lemma split_command_list:
  "cs \<noteq> [] \<Longrightarrow> list_all quotable cs \<Longrightarrow> \<not> sp_escaped s \<Longrightarrow> sp_quote s = None \<Longrightarrow> sp_word s = [] \<Longrightarrow>
    fold split_char (command_list cs) s = s\<lparr>sp_commands := sp_commands s @ map command_line (butlast cs), sp_word := command_line (last cs),
      sp_separated := (sp_separated s \<or> 1 < length cs)\<rparr>"
proof (induction cs arbitrary: s rule: command_list.induct)
  case (3 c d cs)
  have "split_char 59 (s\<lparr>sp_word := command_line c\<rparr>) = s\<lparr>sp_separated := True, sp_commands := sp_commands s @ [command_line c], sp_word := []\<rparr>"
    using "3.prems" by (cases s) (simp add: split_char_def push_command_line)
  then show ?case using "3.prems" "3.IH" [of "s\<lparr>sp_separated := True, sp_commands := sp_commands s @ [command_line c], sp_word := []\<rparr>"]
    by (simp add: split_command_line)
next
  case (2 c)
  then show ?case by (cases s) (simp add: split_command_line)
qed simp

lemma split_commands_list:
  assumes "cs \<noteq> []" "list_all quotable cs"
  shows "split_commands (command_list cs) = map command_line cs"
proof -
  have l: "map command_line (butlast cs) @ [command_line (last cs)] = map command_line cs"
    using assms(1) by (metis append_butlast_last_id list.simps(8) list.simps(9) map_append)
  have q: "quotable (last cs)" using assms by (simp add: list_all_iff)
  show ?thesis
  proof (cases "1 < length cs")
    case True
    show ?thesis using l q assms True unfolding split_commands_def by (simp add: split_command_list push_command_line Let_def)
  next
    case False
    then obtain c where "cs = [c]" using assms(1) by (cases cs) auto
    then show ?thesis using assms unfolding split_commands_def by (simp add: split_command_line Let_def)
  qed
qed

text \<open>C40: Commands written with their words in single quotes are parsed into exactly these commands and words, whatever
  bytes the words have apart from the quote itself: spaces, semicolons, backslashes and double quotes included.\<close>

theorem parse_quoted_commands:
  assumes "cs \<noteq> []" "list_all quotable cs"
  shows "parse_line (command_list cs) = Inr cs"
  using split_commands_list [OF assms] assms(2)
  by (simp add: parse_line_def command_words_line list_all_iff map_idI)

theorem parse_quoted_commands_witness:
  "list_all quotable [[ascii ''send'', ascii ''a;b c''], [ascii ''ls'']] \<and>
    parse_line (quoted (ascii ''send'') @ [32] @ quoted (ascii ''a;b c'') @ [59] @ quoted (ascii ''ls'')) =
      Inr [[ascii ''send'', ascii ''a;b c''], [ascii ''ls'']]"
proof -
  have h: "list_all quotable [[ascii ''send'', ascii ''a;b c''], [ascii ''ls'']]" by (simp add: quotable_def ascii_def)
  show ?thesis using h parse_quoted_commands [OF _ h] by simp
qed

end
