(* ===== verification/Htm_State.thy ===== *)
theory Htm_State
  imports Outcome Ordered_Map Keys Htm_Layout Htm_Framing
begin

text \<open>
  \<^verbatim>\<open>crates/et-htm/src/state.rs\<close>: the daemon's panes, windows and sessions, and the operations on them. What a pane's
  terminal (a child process on a pty) and its screen (a WebAssembly guest) answer is the argument \<open>E\<close>; \<^verbatim>\<open>f32\<close>
  arithmetic is the argument \<open>F\<close>. Strings and paths are byte strings. Lookups the source unwraps or indexes are panics
  when the key is missing. The 32-bit identifier counters are natural numbers.
\<close>

section \<open>State\<close>

record capture =
  cp_styled :: bool
  cp_alternate :: bool
  cp_start :: int
  cp_end :: int
  cp_join :: bool
  cp_trailing :: bool

record ('t, 's) pane_env =
  pe_screen :: "nat \<Rightarrow> nat \<Rightarrow> bytes + 's"
  pe_start :: "bytes option \<Rightarrow> nat \<Rightarrow> nat \<Rightarrow> bytes + 't"
  pe_cwd :: "'t \<Rightarrow> bytes"
  pe_update_size :: "nat \<Rightarrow> nat \<Rightarrow> 't \<Rightarrow> 't"
  pe_poll :: "'t \<Rightarrow> bytes \<times> 't"
  pe_running :: "'t \<Rightarrow> bool"
  pe_command :: "'t \<Rightarrow> bytes"
  pe_pid :: "'t \<Rightarrow> nat option"
  pe_append :: "bytes \<Rightarrow> 't \<Rightarrow> (bytes + unit) \<times> 't"
  pe_resize :: "nat \<Rightarrow> nat \<Rightarrow> 's \<Rightarrow> (bytes + unit) \<times> 's"
  pe_process :: "bytes \<Rightarrow> 's \<Rightarrow> (bytes + unit) \<times> 's"
  pe_poisoned :: "'s \<Rightarrow> bool"
  pe_cursor :: "'s \<Rightarrow> nat \<times> nat"
  pe_hide_cursor :: "'s \<Rightarrow> bool"
  pe_alternate :: "'s \<Rightarrow> bool"
  pe_capture :: "capture \<Rightarrow> 's \<Rightarrow> (bytes + bytes) \<times> 's"

record ('t, 's) htm_pane =
  pn_terminal :: 't
  pn_screen :: 's
  pn_rect :: rect
  pn_title :: bytes

record 'f htm_window =
  wn_session :: nat
  wn_name :: bytes
  wn_order :: nat
  wn_automatic_rename :: bool
  wn_layout :: "'f layout"
  wn_rect :: rect
  wn_active :: nat
  wn_zoom :: "nat option"

record htm_session =
  sn_name :: bytes
  sn_active :: nat
  sn_windows :: "nat list"

record ('t, 's, 'f) mux =
  mx_panes :: "(nat \<times> ('t, 's) htm_pane) list"
  mx_windows :: "(nat \<times> 'f htm_window) list"
  mx_sessions :: "(nat \<times> htm_session) list"
  mx_active :: nat
  mx_client_size :: "nat \<times> nat"
  mx_options :: "((byte \<times> nat \<times> bytes) \<times> bytes) list"
  mx_buffers :: "(bytes \<times> bytes) list"
  mx_notifications :: bytes
  mx_pane_gates :: "(nat \<times> bool) list"
  mx_next_pane :: nat
  mx_next_window :: nat
  mx_next_session :: nat
  mx_initial_attach_sent :: bool

type_synonym ('t, 's, 'f, 'a) mux_action = "(('t, 's, 'f) mux, 'a) action"

section \<open>Targets\<close>

definition hex4 :: "nat \<Rightarrow> bytes" where
  "hex4 n = (let digits = print_hex n in replicate (4 - length digits) 48 @ digits)"

definition checksum :: "bytes \<Rightarrow> bytes" where
  "checksum body =
    (let sum = fold (\<lambda>b s. (s div 2 + 32768 * (s mod 2) + unat b) mod 65536) body 0 in hex4 sum @ [44] @ body)"

definition numeric_id :: "bytes \<Rightarrow> bytes + nat" where
  "numeric_id text =
    (let text = trim_ascii_start text;
         negative = (strip_prefix [45] text \<noteq> None);
         text = (case text of b # r \<Rightarrow> if b = 45 \<or> b = 43 then r else text | [] \<Rightarrow> text)
     in case parse_unsigned u64_max (takeWhile is_ascii_digit text) of
          None \<Rightarrow> Inl (ascii ''invalid target id'')
        | Some value \<Rightarrow> Inr ((if negative then (2 ^ 64 - value) mod 2 ^ 64 else value) mod 2 ^ 32))"

definition active_window :: "('t, 's, 'f) mux \<Rightarrow> nat" where
  "active_window s = (case map_of (mx_sessions s) (mx_active s) of None \<Rightarrow> 0 | Some ss \<Rightarrow> sn_active ss)"

definition active_pane :: "('t, 's, 'f) mux \<Rightarrow> nat" where
  "active_pane s = (case map_of (mx_windows s) (active_window s) of None \<Rightarrow> 0 | Some w \<Rightarrow> wn_active w)"

definition or_empty :: "bytes option \<Rightarrow> bytes" where
  "or_empty t = (case t of None \<Rightarrow> [] | Some x \<Rightarrow> x)"

definition parse_session_target :: "bytes option \<Rightarrow> ('t, 's, 'f) mux \<Rightarrow> bytes + nat" where
  "parse_session_target target s =
    (case strip_prefix [36] (or_empty target) of
       Some n \<Rightarrow> numeric_id n
     | None \<Rightarrow> Inr (case find (\<lambda>e. sn_name (snd e) = or_empty target) (mx_sessions s) of
           None \<Rightarrow> mx_active s | Some e \<Rightarrow> fst e))"

definition session_target :: "bytes option \<Rightarrow> ('t, 's, 'f) mux \<Rightarrow> bytes + nat" where
  "session_target target s =
    (case parse_session_target target s of
       Inl e \<Rightarrow> Inl e
     | Inr i \<Rightarrow> if bt_has i (mx_sessions s) then Inr i else Inl (ascii ''can't find session: $'' @ dec_nat i))"

definition window_of :: "nat \<Rightarrow> ('t, 's, 'f) mux \<Rightarrow> bytes + nat" where
  "window_of pane s =
    (case find (\<lambda>e. layout_contains pane (wn_layout (snd e))) (mx_windows s) of
       None \<Rightarrow> Inl (ascii ''can't find pane: %'' @ dec_nat pane)
     | Some e \<Rightarrow> Inr (fst e))"

definition parse_pane_target :: "bytes option \<Rightarrow> ('t, 's, 'f) mux \<Rightarrow> bytes + nat" where
  "parse_pane_target target s =
    (let t = or_empty target in
     if t = [] then Inr (active_pane s)
     else case strip_prefix [37] t of
       Some n \<Rightarrow> numeric_id n
     | None \<Rightarrow> (case strip_prefix [64] t of
         Some n \<Rightarrow> (case numeric_id n of
             Inl e \<Rightarrow> Inl e
           | Inr i \<Rightarrow> (case map_of (mx_windows s) i of None \<Rightarrow> Inl (ascii ''can't find window'') | Some w \<Rightarrow> Inr (wn_active w)))
       | None \<Rightarrow> (case numeric_id t of
             Inl e \<Rightarrow> Inl e
           | Inr i \<Rightarrow> Inr (if bt_has i (mx_panes s) then i else active_pane s))))"

definition pane_target :: "bytes option \<Rightarrow> ('t, 's, 'f) mux \<Rightarrow> bytes + nat" where
  "pane_target target s =
    (case parse_pane_target target s of
       Inl e \<Rightarrow> Inl e
     | Inr i \<Rightarrow> if bt_has i (mx_panes s) then Inr i else Inl (ascii ''can't find pane: %'' @ dec_nat i))"

definition parse_window_target :: "bytes option \<Rightarrow> ('t, 's, 'f) mux \<Rightarrow> bytes + nat" where
  "parse_window_target target s =
    (let t = or_empty target in
     case (case split_once 64 t of Some (_, n) \<Rightarrow> if n \<noteq> [] then Some n else None | None \<Rightarrow> None) of
       Some n \<Rightarrow> numeric_id n
     | None \<Rightarrow>
         if strip_prefix [37] t \<noteq> None
         then (case pane_target (Some t) s of Inl e \<Rightarrow> Inl e | Inr p \<Rightarrow> window_of p s)
         else Inr (active_window s))"

definition window_target :: "bytes option \<Rightarrow> ('t, 's, 'f) mux \<Rightarrow> bytes + nat" where
  "window_target target s =
    (case parse_window_target target s of
       Inl e \<Rightarrow> Inl e
     | Inr i \<Rightarrow> if bt_has i (mx_windows s) then Inr i else Inl (ascii ''can't find window: @'' @ dec_nat i))"

section \<open>Geometry and notifications\<close>

definition notify :: "bytes \<Rightarrow> ('t, 's, 'f) mux \<Rightarrow> ('t, 's, 'f) mux" where
  "notify text s = s\<lparr>mx_notifications := mx_notifications s @ text\<rparr>"

text \<open>The rectangle of a pane; a layout that is given it must have only panes that exist.\<close>

definition pane_rect :: "('t, 's, 'f) mux \<Rightarrow> nat \<Rightarrow> rect" where
  "pane_rect s i = (case map_of (mx_panes s) i of Some p \<Rightarrow> pn_rect p | None \<Rightarrow> \<lparr>r_cols = 0, r_rows = 0, r_x = 0, r_y = 0\<rparr>)"

definition layout_known :: "('t, 's, 'f) mux \<Rightarrow> 'f layout \<Rightarrow> bool" where
  "layout_known s l = list_all (\<lambda>p. bt_has p (mx_panes s)) (panes l)"

definition resize_one :: "('t, 's) pane_env \<Rightarrow> rect \<Rightarrow> ('t, 's) htm_pane \<Rightarrow> ('t, 's) htm_pane" where
  "resize_one E r p =
    (let p = p\<lparr>pn_rect := r\<rparr> in
     case pe_resize E (r_cols r) (r_rows r) (pn_screen p) of
       (Inl e, screen) \<Rightarrow> p\<lparr>pn_screen := screen\<rparr>
     | (Inr u, screen) \<Rightarrow> p\<lparr>pn_screen := screen, pn_terminal := pe_update_size E (r_cols r) (r_rows r) (pn_terminal p)\<rparr>)"

definition resize_entry :: "('t, 's) pane_env \<Rightarrow> nat \<times> rect \<Rightarrow> ('t, 's, 'f, unit) mux_action" where
  "resize_entry E = (\<lambda>(i, r). with_state (\<lambda>s. and_then (bind_action (unwrap (map_of (mx_panes s) i)) (\<lambda>_. ret ()))
     (modify (\<lambda>s. s\<lparr>mx_panes := bt_update i (resize_one E r) (mx_panes s)\<rparr>))))"

definition mux_resize :: "('t, 's) pane_env \<Rightarrow> 'f float_ops \<Rightarrow> nat \<Rightarrow> ('t, 's, 'f, unit) mux_action" where
  "mux_resize E F i = with_state (\<lambda>s. bind_action (unwrap (map_of (mx_windows s) i)) (\<lambda>w.
     for_each (resize_entry E)
       (case wn_zoom w of Some p \<Rightarrow> [(p, wn_rect w)] | None \<Rightarrow> snd (geometry F (wn_rect w) (wn_layout w)))))"

definition mux_layout :: "nat \<Rightarrow> bool \<Rightarrow> ('t, 's, 'f) mux \<Rightarrow> bytes option" where
  "mux_layout i visible s =
    (case map_of (mx_windows s) i of
       None \<Rightarrow> None
     | Some w \<Rightarrow>
         (case (if visible then wn_zoom w else None) of
            Some p \<Rightarrow> Some (checksum (dec_nat (r_cols (wn_rect w)) @ [120] @ dec_nat (r_rows (wn_rect w)) @ ascii '',0,0,'' @ dec_nat p))
          | None \<Rightarrow> if layout_known s (wn_layout w) then Some (checksum (dump (pane_rect s) (wn_layout w))) else None))"

definition window_flags :: "htm_session \<Rightarrow> nat \<Rightarrow> 'f htm_window \<Rightarrow> bytes" where
  "window_flags ss i w = (if sn_active ss = i then [42] else []) @ (if wn_zoom w \<noteq> None then [90] else [])"

definition layout_changed :: "nat \<Rightarrow> ('t, 's, 'f, unit) mux_action" where
  "layout_changed i = with_state (\<lambda>s.
     bind_action (unwrap (map_of (mx_windows s) i)) (\<lambda>w.
     bind_action (unwrap (map_of (mx_sessions s) (wn_session w))) (\<lambda>ss.
     bind_action (unwrap (mux_layout i False s)) (\<lambda>whole.
     bind_action (unwrap (mux_layout i True s)) (\<lambda>visible.
       modify (notify (ascii ''%layout-change @'' @ dec_nat i @ [32] @ whole @ [32] @ visible @ [32] @ window_flags ss i w @ [10])))))))"

definition safe_text :: "bytes \<Rightarrow> bytes" where
  "safe_text s = from_utf8_lossy (escape_bytes s)"

definition session_changed :: "('t, 's, 'f, unit) mux_action" where
  "session_changed = with_state (\<lambda>s.
     bind_action (unwrap (map_of (mx_sessions s) (mx_active s))) (\<lambda>ss.
       modify (notify (ascii ''%session-changed $'' @ dec_nat (mx_active s) @ [32] @ safe_text (sn_name ss) @ [10]))))"

section \<open>Operations\<close>

definition nonempty :: "bytes option \<Rightarrow> bytes option" where
  "nonempty x = (case x of Some (b # bs) \<Rightarrow> x | _ \<Rightarrow> None)"

definition spawn :: "('t, 's) pane_env \<Rightarrow> bytes option \<Rightarrow> ('t, 's, 'f, nat) mux_action" where
  "spawn E cwd = with_state (\<lambda>s.
     if 64 \<le> length (mx_panes s) then fail (ascii ''pane limit reached'')
     else
       let (cols, rows) = mx_client_size s; i = mx_next_pane s in
       bind_action (attempt (pe_screen E cols rows)) (\<lambda>screen.
       bind_action (attempt (pe_start E cwd cols rows)) (\<lambda>terminal.
       and_then (modify (\<lambda>s. s\<lparr>mx_next_pane := i + 1,
           mx_panes := bt_insert i \<lparr>pn_terminal = terminal, pn_screen = screen,
             pn_rect = \<lparr>r_cols = cols, r_rows = rows, r_x = 0, r_y = 0\<rparr>, pn_title = []\<rparr> (mx_panes s)\<rparr>))
         (ret i))))"

definition window_from_pane ::
    "('t, 's) pane_env \<Rightarrow> 'f float_ops \<Rightarrow> nat \<Rightarrow> nat \<Rightarrow> bytes option \<Rightarrow> ('t, 's, 'f, nat) mux_action" where
  "window_from_pane E F pane session name = with_state (\<lambda>s.
     let i = mx_next_window s in
     and_then (modify (\<lambda>s. s\<lparr>mx_next_window := i + 1\<rparr>))
     (bind_action (unwrap (map_of (mx_sessions s) session)) (\<lambda>ss.
       let order = length (sn_windows ss);
           w = \<lparr>wn_session = session, wn_name = (case nonempty name of Some n \<Rightarrow> n | None \<Rightarrow> dec_nat order), wn_order = order,
                wn_automatic_rename = True, wn_layout = Pane pane,
                wn_rect = \<lparr>r_cols = fst (mx_client_size s), r_rows = snd (mx_client_size s), r_x = 0, r_y = 0\<rparr>,
                wn_active = pane, wn_zoom = None\<rparr>
       in and_then (modify (\<lambda>s. s\<lparr>mx_windows := bt_insert i w (mx_windows s),
              mx_sessions := bt_update session (\<lambda>ss. ss\<lparr>sn_windows := sn_windows ss @ [i], sn_active := i\<rparr>) (mx_sessions s)\<rparr>))
          (and_then (mux_resize E F i)
          (and_then (modify (\<lambda>s. if 0 < order then notify (ascii ''%session-window-changed $'' @ dec_nat session @ ascii '' @'' @ dec_nat i @ [10]) s else s))
          (and_then (modify (notify (ascii ''%window-add @'' @ dec_nat i @ [10])))
          (ret i)))))))"

definition new_window ::
    "('t, 's) pane_env \<Rightarrow> 'f float_ops \<Rightarrow> bytes option \<Rightarrow> bytes option \<Rightarrow> ('t, 's, 'f, nat) mux_action" where
  "new_window E F name cwd = with_state (\<lambda>s.
     bind_action
       (case nonempty cwd of
          Some c \<Rightarrow> ret (Some c)
        | None \<Rightarrow> bind_action (unwrap (map_of (mx_sessions s) (mx_active s))) (\<lambda>ss.
            if sn_windows ss = [] then ret None
            else ret (map_option (\<lambda>p. pe_cwd E (pn_terminal p)) (map_of (mx_panes s) (active_pane s)))))
     (\<lambda>cwd. bind_action (spawn E cwd) (\<lambda>p. window_from_pane E F p (mx_active s) name)))"

definition new_session :: "('t, 's) pane_env \<Rightarrow> 'f float_ops \<Rightarrow> bytes \<Rightarrow> ('t, 's, 'f, nat) mux_action" where
  "new_session E F name s =
    (if 32 \<le> length (mx_sessions s) then (Err (ascii ''session limit reached''), s)
     else
       let i = mx_next_session s;
           ss = \<lparr>sn_name = (if name = [] then dec_nat i else name), sn_active = 0, sn_windows = []\<rparr>;
           previous = mx_active s;
           restore = (\<lambda>s. s\<lparr>mx_active := (if previous = 0 then i else previous)\<rparr>)
       in case new_window E F None None (s\<lparr>mx_next_session := i + 1, mx_sessions := bt_insert i ss (mx_sessions s), mx_active := i\<rparr>) of
            (Panic, s') \<Rightarrow> (Panic, s')
          | (Err e, s') \<Rightarrow> (Err e, (restore s')\<lparr>mx_sessions := bt_remove i (mx_sessions s')\<rparr>)
          | (Ok w, s') \<Rightarrow> (Ok i, notify (ascii ''%sessions-changed'' @ [10]) (restore s')))"

definition mux_empty :: "('t, 's, 'f) mux" where
  "mux_empty = \<lparr>mx_panes = [], mx_windows = [], mx_sessions = [], mx_active = 0, mx_client_size = (80, 24), mx_options = [],
     mx_buffers = [], mx_notifications = [], mx_pane_gates = [], mx_next_pane = 0, mx_next_window = 0, mx_next_session = 1,
     mx_initial_attach_sent = False\<rparr>"

definition mux_new :: "('t, 's) pane_env \<Rightarrow> 'f float_ops \<Rightarrow> unit outcome \<times> ('t, 's, 'f) mux" where
  "mux_new E F = and_then (bind_action (new_session E F (ascii ''htm'')) (\<lambda>_. ret ()))
     (modify (\<lambda>s. s\<lparr>mx_notifications := []\<rparr>)) mux_empty"

definition set_window :: "nat \<Rightarrow> 'f htm_window \<Rightarrow> ('t, 's, 'f) mux \<Rightarrow> ('t, 's, 'f) mux" where
  "set_window i w s = s\<lparr>mx_windows := bt_update i (\<lambda>_. w) (mx_windows s)\<rparr>"

definition split_window :: "('t, 's) pane_env \<Rightarrow> 'f float_ops \<Rightarrow> nat \<Rightarrow> nat \<Rightarrow> bool \<Rightarrow> nat \<Rightarrow> ('t, 's, 'f, nat) mux_action" where
  "split_window E F w source horizontal p = with_state (\<lambda>s.
     bind_action (unwrap (map_of (mx_windows s) w)) (\<lambda>window.
     and_then (modify (set_window w
         (window\<lparr>wn_layout := layout_insert F source p horizontal None (wn_layout window), wn_active := p\<rparr>)))
     (and_then (mux_resize E F w)
     (and_then (modify (notify (ascii ''%window-pane-changed @'' @ dec_nat w @ ascii '' %'' @ dec_nat p @ [10])))
     (and_then (layout_changed w) (ret p))))))"

definition mux_split ::
    "('t, 's) pane_env \<Rightarrow> 'f float_ops \<Rightarrow> nat \<Rightarrow> bool \<Rightarrow> bytes option \<Rightarrow> ('t, 's, 'f, nat) mux_action" where
  "mux_split E F source horizontal cwd = with_state (\<lambda>s.
     bind_action (attempt (window_of source s)) (\<lambda>w.
     bind_action (case nonempty cwd of
         Some c \<Rightarrow> ret c
       | None \<Rightarrow> bind_action (unwrap (map_of (mx_panes s) source)) (\<lambda>p. ret (pe_cwd E (pn_terminal p)))) (\<lambda>cwd.
     bind_action (spawn E (Some cwd)) (split_window E F w source horizontal))))"

definition resize_axis :: "'f float_ops \<Rightarrow> (nat \<Rightarrow> rect) \<Rightarrow> nat \<Rightarrow> bool \<Rightarrow> nat option \<Rightarrow> bool \<times> 'f htm_window \<Rightarrow> bool \<times> 'f htm_window" where
  "resize_axis F rc pane axis desired = (\<lambda>(changed, w).
     case desired of
       None \<Rightarrow> (changed, w)
     | Some want \<Rightarrow>
         (case absolute F pane axis want rc (wn_layout w) of
            (Some did_change, l) \<Rightarrow> (changed \<or> did_change, w\<lparr>wn_layout := l\<rparr>)
          | (None, l) \<Rightarrow>
              let w = w\<lparr>wn_layout := l\<rparr>; r = wn_rect w in
              if axis then (changed \<or> r_cols r \<noteq> want, w\<lparr>wn_rect := r\<lparr>r_cols := want\<rparr>\<rparr>)
              else (changed \<or> r_rows r \<noteq> want, w\<lparr>wn_rect := r\<lparr>r_rows := want\<rparr>\<rparr>)))"

definition resize_pane ::
    "('t, 's) pane_env \<Rightarrow> 'f float_ops \<Rightarrow> nat \<Rightarrow> nat option \<Rightarrow> nat option \<Rightarrow> ('t, 's, 'f, unit) mux_action" where
  "resize_pane E F pane cols rows = with_state (\<lambda>s.
     bind_action (attempt (window_of pane s)) (\<lambda>i.
     bind_action (unwrap (map_of (mx_windows s) i)) (\<lambda>w.
     and_then (bind_action (unwrap (if layout_known s (wn_layout w) then Some () else None)) ret)
     (let (changed, w') = resize_axis F (pane_rect s) pane False rows
            (resize_axis F (pane_rect s) pane True cols ((case wn_layout w of Pane _ \<Rightarrow> True | Split _ _ _ \<Rightarrow> False), w))
      in and_then (modify (set_window i w'))
         (if changed then and_then (mux_resize E F i) (layout_changed i) else ret ())))))"

definition resize_direction ::
    "('t, 's) pane_env \<Rightarrow> 'f float_ops \<Rightarrow> nat \<Rightarrow> direction \<Rightarrow> int \<Rightarrow> ('t, 's, 'f, unit) mux_action" where
  "resize_direction E F pane dir amount = with_state (\<lambda>s.
     bind_action (attempt (window_of pane s)) (\<lambda>i.
     bind_action (unwrap (map_of (mx_windows s) i)) (\<lambda>w.
     and_then (bind_action (unwrap (if layout_known s (wn_layout w) then Some () else None)) ret)
     (let (changed, l) = directional F pane dir amount (pane_rect s) (wn_layout w)
      in and_then (modify (set_window i (w\<lparr>wn_layout := l\<rparr>)))
         (if changed then and_then (mux_resize E F i) (layout_changed i) else ret ())))))"

subsection \<open>Closing and moving\<close>

definition unlink_window :: "'f float_ops \<Rightarrow> nat \<Rightarrow> 'f layout \<Rightarrow> 'f htm_window \<Rightarrow> 'f htm_window" where
  "unlink_window F pane tree w =
    (let w1 = w\<lparr>wn_layout := tree\<rparr>;
         w2 = (if wn_active w1 = pane \<or> wn_zoom w1 = Some pane then w1\<lparr>wn_active := hd (panes tree)\<rparr> else w1)
     in if wn_zoom w2 = Some pane then w2\<lparr>wn_zoom := None\<rparr> else w2)"

definition unlink :: "'f float_ops \<Rightarrow> nat \<Rightarrow> ('t, 's, 'f, nat \<times> bool) mux_action" where
  "unlink F pane = with_state (\<lambda>s.
     bind_action (attempt (window_of pane s)) (\<lambda>i.
     bind_action (unwrap (map_of (mx_windows s) i)) (\<lambda>w.
     case layout_remove F pane (wn_layout w) of
       Some tree \<Rightarrow> and_then (modify (set_window i (unlink_window F pane tree w))) (ret (i, False))
     | None \<Rightarrow> ret (i, True))))"

definition drop_options :: "byte \<Rightarrow> nat \<Rightarrow> ((byte \<times> nat \<times> bytes) \<times> bytes) list \<Rightarrow> ((byte \<times> nat \<times> bytes) \<times> bytes) list" where
  "drop_options scope target opts = filter (\<lambda>e. fst (fst e) \<noteq> scope \<or> fst (snd (fst e)) \<noteq> target) opts"

definition forget_pane :: "nat \<Rightarrow> ('t, 's, 'f) mux \<Rightarrow> ('t, 's, 'f) mux" where
  "forget_pane pane s = s\<lparr>mx_panes := bt_remove pane (mx_panes s), mx_pane_gates := bt_remove pane (mx_pane_gates s),
     mx_options := drop_options 112 pane (mx_options s)\<rparr>"

definition leave_window :: "nat \<Rightarrow> htm_session \<Rightarrow> htm_session" where
  "leave_window i ss = ss\<lparr>sn_windows := filter (\<lambda>w. w \<noteq> i) (sn_windows ss)\<rparr>"

definition remove_window :: "nat \<Rightarrow> ('t, 's, 'f, unit) mux_action" where
  "remove_window i = with_state (\<lambda>s.
     case map_of (mx_windows s) i of
       None \<Rightarrow> ret ()
     | Some w \<Rightarrow>
         and_then (modify (\<lambda>s. s\<lparr>mx_windows := bt_remove i (mx_windows s), mx_options := drop_options 119 i (mx_options s)\<rparr>))
         (bind_action (unwrap (map_of (mx_sessions s) (wn_session w))) (\<lambda>ss.
          and_then (modify (\<lambda>s. s\<lparr>mx_sessions := bt_update (wn_session w) (leave_window i) (mx_sessions s)\<rparr>))
          (if sn_windows (leave_window i ss) = [] then
             and_then (modify (notify (ascii ''%unlinked-window-close @'' @ dec_nat i @ [10])))
             (and_then (modify (\<lambda>s. s\<lparr>mx_sessions := bt_remove (wn_session w) (mx_sessions s),
                 mx_options := drop_options 32 (wn_session w) (mx_options s)\<rparr>))
             (and_then (modify (notify (ascii ''%sessions-changed'' @ [10])))
             (if mx_active s = wn_session w then
                and_then (modify (\<lambda>s. s\<lparr>mx_active := (case mx_sessions s of [] \<Rightarrow> 0 | e # _ \<Rightarrow> fst e)\<rparr>))
                (with_state (\<lambda>s. if mx_active s \<noteq> 0 then session_changed else ret ()))
              else ret ())))
           else
             and_then
               (if sn_active ss = i then
                  let active = last (sn_windows (leave_window i ss)) in
                  and_then (modify (\<lambda>s. s\<lparr>mx_sessions := bt_update (wn_session w) (\<lambda>ss. ss\<lparr>sn_active := active\<rparr>) (mx_sessions s)\<rparr>))
                  (modify (notify (ascii ''%session-window-changed $'' @ dec_nat (wn_session w) @ ascii '' @'' @ dec_nat active @ [10])))
                else ret ())
               (modify (notify (ascii ''%unlinked-window-close @'' @ dec_nat i @ [10])))))))"

definition pane_changed :: "nat \<Rightarrow> ('t, 's, 'f, unit) mux_action" where
  "pane_changed i = with_state (\<lambda>s. bind_action (unwrap (map_of (mx_windows s) i)) (\<lambda>w.
     modify (notify (ascii ''%window-pane-changed @'' @ dec_nat i @ ascii '' %'' @ dec_nat (wn_active w) @ [10]))))"

definition mux_close :: "('t, 's) pane_env \<Rightarrow> 'f float_ops \<Rightarrow> nat \<Rightarrow> ('t, 's, 'f, unit) mux_action" where
  "mux_close E F pane = with_state (\<lambda>s.
     if \<not> bt_has pane (mx_panes s) then ret ()
     else bind_action (unlink F pane) (\<lambda>(i, gone).
       and_then (modify (forget_pane pane))
       (if gone then remove_window i
        else and_then (mux_resize E F i) (and_then (layout_changed i) (pane_changed i)))))"

definition close_window :: "nat \<Rightarrow> ('t, 's, 'f, unit) mux_action" where
  "close_window i = with_state (\<lambda>s.
     case map_of (mx_windows s) i of
       None \<Rightarrow> ret ()
     | Some w \<Rightarrow> and_then (for_each (\<lambda>p. modify (forget_pane p)) (panes (wn_layout w))) (remove_window i))"

definition swap_window :: "nat \<Rightarrow> nat \<Rightarrow> nat \<Rightarrow> nat \<Rightarrow> 'f htm_window \<Rightarrow> 'f htm_window" where
  "swap_window a b wa i w =
    (let l = layout_swap a b (wn_layout w); w = w\<lparr>wn_layout := l\<rparr>;
         w = (if \<not> layout_contains (wn_active w) l then w\<lparr>wn_active := (if i = wa then b else a)\<rparr> else w)
     in case wn_zoom w of Some p \<Rightarrow> if \<not> layout_contains p l then w\<lparr>wn_zoom := None\<rparr> else w | None \<Rightarrow> w)"

definition swap_in :: "('t, 's) pane_env \<Rightarrow> 'f float_ops \<Rightarrow> nat \<Rightarrow> nat \<Rightarrow> nat \<Rightarrow> nat \<Rightarrow> ('t, 's, 'f, unit) mux_action" where
  "swap_in E F a b wa i = with_state (\<lambda>s. bind_action (unwrap (map_of (mx_windows s) i)) (\<lambda>w.
     and_then (modify (set_window i (swap_window a b wa i w))) (and_then (mux_resize E F i) (layout_changed i))))"

definition mux_swap :: "('t, 's) pane_env \<Rightarrow> 'f float_ops \<Rightarrow> nat \<Rightarrow> nat \<Rightarrow> ('t, 's, 'f, unit) mux_action" where
  "mux_swap E F a b = with_state (\<lambda>s.
     if a = b \<or> \<not> bt_has a (mx_panes s) \<or> \<not> bt_has b (mx_panes s) then ret ()
     else
       bind_action (attempt (window_of a s)) (\<lambda>wa.
       bind_action (attempt (window_of b s)) (\<lambda>wb.
       for_each (swap_in E F a b wa) (if wa = wb then [wa] else [wa, wb]))))"

definition move_into ::
    "('t, 's) pane_env \<Rightarrow> 'f float_ops \<Rightarrow> nat \<Rightarrow> nat \<Rightarrow> nat \<Rightarrow> bool \<Rightarrow> bool \<Rightarrow> ('t, 's, 'f, unit) mux_action" where
  "move_into E F destination src dest horizontal before = with_state (\<lambda>s.
     bind_action (unwrap (map_of (mx_windows s) destination)) (\<lambda>w.
     and_then (modify (set_window destination
       (w\<lparr>wn_layout := layout_insert F dest src horizontal (Some before) (wn_layout w), wn_active := src\<rparr>)))
     (and_then (mux_resize E F destination)
     (and_then (layout_changed destination)
     (modify (notify (ascii ''%window-pane-changed @'' @ dec_nat destination @ ascii '' %'' @ dec_nat src @ [10])))))))"

definition move_pane ::
    "('t, 's) pane_env \<Rightarrow> 'f float_ops \<Rightarrow> nat \<Rightarrow> nat \<Rightarrow> bool \<Rightarrow> bool \<Rightarrow> ('t, 's, 'f, unit) mux_action" where
  "move_pane E F src dest horizontal before = with_state (\<lambda>s.
     if src = dest \<or> \<not> bt_has src (mx_panes s) \<or> \<not> bt_has dest (mx_panes s) then ret ()
     else
       bind_action (attempt (window_of dest s)) (\<lambda>destination.
       bind_action (unlink F src) (\<lambda>(source, gone).
       and_then
         (if \<not> gone \<and> source \<noteq> destination
          then and_then (mux_resize E F source) (and_then (layout_changed source) (pane_changed source))
          else ret ())
       (and_then (move_into E F destination src dest horizontal before)
       (if gone \<and> source \<noteq> destination then remove_window source else ret ())))))"

definition break_pane :: "('t, 's) pane_env \<Rightarrow> 'f float_ops \<Rightarrow> nat \<Rightarrow> ('t, 's, 'f, nat) mux_action" where
  "break_pane E F pane = with_state (\<lambda>s.
     if \<not> bt_has pane (mx_panes s) then ret 0
     else
       bind_action (attempt (window_of pane s)) (\<lambda>source.
       bind_action (unwrap (map_of (mx_windows s) source)) (\<lambda>w.
       if length (panes (wn_layout w)) = 1 then ret source
       else
         bind_action (unlink F pane) (\<lambda>_.
         and_then (mux_resize E F source)
         (and_then (layout_changed source)
         (bind_action (window_from_pane E F pane (wn_session w) None) (\<lambda>i.
          and_then (layout_changed i) (ret i))))))))"

text \<open>A window moves to another session: it leaves its own, enters the other as its active window, and the session it left
  is dropped if it was the last one there.\<close>

definition leave_session :: "nat \<Rightarrow> nat \<Rightarrow> htm_session \<Rightarrow> ('t, 's, 'f, unit) mux_action" where
  "leave_session i old ss =
    (let left = sn_windows (leave_window i ss); active = (if left = [] then 0 else last left) in
     and_then (modify (\<lambda>s. s\<lparr>mx_sessions := bt_update old (leave_window i) (mx_sessions s)\<rparr>))
     (if sn_active ss = i then
        and_then (modify (\<lambda>s. s\<lparr>mx_sessions := bt_update old (\<lambda>ss. ss\<lparr>sn_active := active\<rparr>) (mx_sessions s)\<rparr>))
        (if left \<noteq> [] then modify (notify (ascii ''%session-window-changed $'' @ dec_nat old @ ascii '' @'' @ dec_nat active @ [10])) else ret ())
      else ret ()))"

definition enter_session :: "nat \<Rightarrow> nat \<Rightarrow> ('t, 's, 'f, unit) mux_action" where
  "enter_session i session = with_state (\<lambda>s.
     bind_action (unwrap (map_of (mx_windows s) i)) (\<lambda>w.
     bind_action (unwrap (map_of (mx_sessions s) session)) (\<lambda>target.
     and_then (modify (set_window i (w\<lparr>wn_session := session, wn_order := length (sn_windows target)\<rparr>)))
     (and_then (modify (\<lambda>s. s\<lparr>mx_sessions := bt_update session (\<lambda>ss. ss\<lparr>sn_windows := sn_windows ss @ [i], sn_active := i\<rparr>) (mx_sessions s)\<rparr>))
     (modify (notify (ascii ''%session-window-changed $'' @ dec_nat session @ ascii '' @'' @ dec_nat i @ [10])))))))"

definition drop_session :: "nat \<Rightarrow> nat \<Rightarrow> ('t, 's, 'f, unit) mux_action" where
  "drop_session old session = with_state (\<lambda>s.
     if old = session then ret ()
     else bind_action (unwrap (map_of (mx_sessions s) old)) (\<lambda>rest.
       if sn_windows rest \<noteq> [] then ret ()
       else
         and_then (modify (\<lambda>s. s\<lparr>mx_sessions := bt_remove old (mx_sessions s), mx_options := drop_options 32 old (mx_options s)\<rparr>))
         (and_then (modify (notify (ascii ''%sessions-changed'' @ [10])))
         (if mx_active s = old then and_then (modify (\<lambda>s. s\<lparr>mx_active := session\<rparr>)) session_changed else ret ()))))"

definition move_window :: "nat \<Rightarrow> nat \<Rightarrow> ('t, 's, 'f, unit) mux_action" where
  "move_window i session = with_state (\<lambda>s.
     case map_of (mx_windows s) i of
       None \<Rightarrow> ret ()
     | Some w \<Rightarrow>
       if \<not> bt_has session (mx_sessions s) then ret ()
       else
         bind_action (unwrap (map_of (mx_sessions s) (wn_session w))) (\<lambda>ss.
         and_then (leave_session i (wn_session w) ss)
         (and_then (enter_session i session) (drop_session (wn_session w) session))))"

subsection \<open>Polling\<close>

fun screen_chunks :: "bytes \<Rightarrow> bytes list" where
  "screen_chunks bs = (if bs = [] then [] else take 65536 bs # screen_chunks (drop 65536 bs))"

declare screen_chunks.simps [simp del]

fun process_chunks :: "('t, 's) pane_env \<Rightarrow> bytes list \<Rightarrow> 's \<Rightarrow> bool \<times> 's" where
  "process_chunks E [] screen = (True, screen)"
| "process_chunks E (c # cs) screen =
    (case pe_process E c screen of (Inl e, screen') \<Rightarrow> (False, screen') | (Inr u, screen') \<Rightarrow> process_chunks E cs screen')"

definition rename_window :: "('t, 's) pane_env \<Rightarrow> nat \<Rightarrow> 't \<Rightarrow> ('t, 's, 'f) mux \<Rightarrow> ('t, 's, 'f) mux" where
  "rename_window E i terminal s =
    (case find (\<lambda>e. wn_active (snd e) = i \<and> wn_automatic_rename (snd e)) (mx_windows s) of
       None \<Rightarrow> s
     | Some (wid, window) \<Rightarrow>
         let command = pe_command E terminal in
         if command \<noteq> [] \<and> command \<noteq> wn_name window
         then notify (ascii ''%window-renamed @'' @ dec_nat wid @ [32] @ escape_bytes command @ [10])
           (set_window wid (window\<lparr>wn_name := command\<rparr>) s)
         else s)"

definition set_pane :: "nat \<Rightarrow> ('t, 's) htm_pane \<Rightarrow> ('t, 's, 'f) mux \<Rightarrow> ('t, 's, 'f) mux" where
  "set_pane i p s = s\<lparr>mx_panes := bt_update i (\<lambda>_. p) (mx_panes s)\<rparr>"

definition gated :: "nat \<Rightarrow> ('t, 's, 'f) mux \<Rightarrow> bool" where
  "gated i s = (map_of (mx_pane_gates s) i = Some True)"

definition output_record :: "bool \<Rightarrow> nat \<Rightarrow> bytes \<Rightarrow> bytes" where
  "output_record extended i bs =
    (if extended then ascii ''%extended-output %'' @ dec_nat i @ ascii '' 0 : '' else ascii ''%output %'' @ dec_nat i @ [32]) @
    escape_bytes bs @ [10]"

text \<open>One pane of the loop: the output and the exited panes so far, and the state.\<close>

definition poll_pane ::
    "('t, 's) pane_env \<Rightarrow> bool \<Rightarrow> bool \<Rightarrow> bool \<Rightarrow> nat \<Rightarrow> bytes \<times> nat list \<times> ('t, 's, 'f) mux \<Rightarrow> bytes \<times> nat list \<times> ('t, 's, 'f) mux" where
  "poll_pane E no_output extended pause i = (\<lambda>(output, exited, s).
     case map_of (mx_panes s) i of
       None \<Rightarrow> (output, exited, s)
     | Some p \<Rightarrow>
       if pe_poisoned E (pn_screen p) then (output, exited @ [i], s)
       else case pe_poll E (pn_terminal p) of (bs, terminal) \<Rightarrow>
         let p1 = p\<lparr>pn_terminal := terminal\<rparr> in
         if bs \<noteq> [] then
           (case process_chunks E (screen_chunks bs) (pn_screen p) of (fine, screen) \<Rightarrow>
             let s1 = set_pane i (p1\<lparr>pn_screen := screen\<rparr>) s in
             if \<not> fine then (output, exited @ [i], s1)
             else if no_output \<or> gated i s1 then (output, exited, rename_window E i terminal s1)
             else if pause then (output @ output_record extended i bs @ ascii ''%pause %'' @ dec_nat i @ [10], exited,
                 rename_window E i terminal (s1\<lparr>mx_pane_gates := bt_insert i True (mx_pane_gates s1)\<rparr>))
             else (output @ output_record extended i bs, exited, rename_window E i terminal s1))
         else (output, exited @ (if pe_running E terminal then [] else [i]), rename_window E i terminal (set_pane i p1 s)))"

definition mux_poll :: "('t, 's) pane_env \<Rightarrow> 'f float_ops \<Rightarrow> bool \<Rightarrow> bool \<Rightarrow> bool \<Rightarrow> ('t, 's, 'f, bytes) mux_action" where
  "mux_poll E F no_output extended pause s =
    (case fold (poll_pane E no_output extended pause) (bt_keys (mx_panes s)) ([], [], s) of
       (output, exited, s1) \<Rightarrow>
         bind_action (for_each (\<lambda>i. ignore (mux_close E F i)) exited) (\<lambda>_. ret output) s1)"

definition stop_all :: "('t, 's, 'f) mux \<Rightarrow> ('t, 's, 'f) mux" where
  "stop_all s = s\<lparr>mx_panes := []\<rparr>"

definition attach_notifications :: "('t, 's, 'f, unit) mux_action" where
  "attach_notifications = with_state (\<lambda>s.
     case map_of (mx_sessions s) (mx_active s) of
       None \<Rightarrow> ret ()
     | Some ss \<Rightarrow>
         and_then
           (if mx_initial_attach_sent s then ret ()
            else modify (\<lambda>s. (notify (concat (map (\<lambda>i. ascii ''%window-add @'' @ dec_nat i @ [10]) (sn_windows ss)) @
                ascii ''%sessions-changed'' @ [10]) s)\<lparr>mx_initial_attach_sent := True\<rparr>))
           session_changed)"

definition detach :: "('t, 's, 'f) mux \<Rightarrow> ('t, 's, 'f) mux" where
  "detach s =
    (case nonempty (map_of (mx_options s) (32, mx_active s, ascii ''@affinities'')) of
       None \<Rightarrow> s
     | Some v \<Rightarrow> s\<lparr>mx_options := bt_insert (103, 0, ascii ''@affinities'') v (mx_options s)\<rparr>)"

subsection \<open>The pane dump\<close>

fun hex_pairs :: "bytes \<Rightarrow> bytes option" where
  "hex_pairs (a # b # r) =
    (case (hex_digit a, hex_digit b) of
       (Some hi, Some lo) \<Rightarrow> map_option (\<lambda>bs. word_of_nat (hi * 16 + lo) # bs) (hex_pairs r)
     | _ \<Rightarrow> None)"
| "hex_pairs [] = Some []"
| "hex_pairs [a] = None"

definition affinities :: "('t, 's, 'f) mux \<Rightarrow> bytes" where
  "affinities s =
    (let raw = (case nonempty (map_of (mx_options s) (32, mx_active s, ascii ''@affinities'')) of
           Some v \<Rightarrow> v
         | None \<Rightarrow> or_empty (map_of (mx_options s) (103, 0, ascii ''@affinities'')))
     in case strip_prefix (ascii ''a_'') raw of
          Some hex \<Rightarrow> (case hex_pairs hex of Some bs \<Rightarrow> bs | None \<Rightarrow> raw)
        | None \<Rightarrow> raw)"

definition affinity_id :: "bytes \<Rightarrow> nat option" where
  "affinity_id value =
    (if value = [] \<or> \<not> list_all is_ascii_digit value then None
     else map_option (\<lambda>v. v mod 2 ^ 32) (parse_unsigned u64_max value))"

definition affinity_group :: "bytes \<Rightarrow> nat list option" where
  "affinity_group part =
    (let ids = sort (List.map_filter affinity_id (split_on (\<lambda>c. c = 44) (hd (split_on (\<lambda>c. c = 59) part))))
     in if ids \<noteq> [] then Some ids else None)"

definition affinity_groups :: "bytes \<Rightarrow> nat list list" where
  "affinity_groups decoded = sort_key hd (List.map_filter affinity_group (split_on (\<lambda>c. c = 32) decoded))"

definition dump_header :: "nat list list \<Rightarrow> bytes" where
  "dump_header groups = ascii ''# affinities: ['' @
     join_comma (map (\<lambda>g. [91] @ join_comma (map dec_nat g) @ [93]) groups) @ [93, 10]"

definition dump_pane ::
    "('t, 's) pane_env \<Rightarrow> htm_session \<Rightarrow> nat \<Rightarrow> 'f htm_window \<Rightarrow> nat \<Rightarrow> bytes \<Rightarrow> ('t, 's, 'f, bytes) mux_action" where
  "dump_pane E ss wid window pid out = with_state (\<lambda>s.
     bind_action (unwrap (map_of (mx_panes s) pid)) (\<lambda>p.
     let (y, x) = pe_cursor E (pn_screen p);
         out = out @ ascii ''--- window @'' @ dec_nat wid @ ascii '' name='' @ wn_name window @ ascii '' pane %'' @ dec_nat pid @
           ascii '' active='' @ dec_nat (if wn_active window = pid then 1 else 0) @ [32] @ dec_nat (r_cols (pn_rect p)) @ [120] @
           dec_nat (r_rows (pn_rect p)) @ ascii '' cursor='' @ dec_nat x @ [44] @ dec_nat y @ ascii '' shell_pid='' @
           dec_nat (case pe_pid E (pn_terminal p) of Some n \<Rightarrow> n | None \<Rightarrow> 0) @ ascii '' current='' @
           dec_nat (if sn_active ss = wid \<and> wn_active window = pid then 1 else 0) @ [10]
     in case pe_capture E \<lparr>cp_styled = False, cp_alternate = False, cp_start = - 1000, cp_end = - 1, cp_join = True, cp_trailing = True\<rparr> (pn_screen p) of
          (r, screen) \<Rightarrow>
            and_then (modify (set_pane pid (p\<lparr>pn_screen := screen\<rparr>)))
            (bind_action (attempt r) (\<lambda>text.
             let out = out @ from_utf8_lossy text @ (if text = [] \<or> last text \<noteq> 10 then [10] else []) in
             if MAX_QUEUE div 2 < length out then fail (ascii ''pane dump exceeds reply limit'') else ret out))))"

definition dump_window :: "('t, 's) pane_env \<Rightarrow> htm_session \<Rightarrow> nat \<Rightarrow> bytes \<Rightarrow> ('t, 's, 'f, bytes) mux_action" where
  "dump_window E ss wid out = with_state (\<lambda>s. bind_action (unwrap (map_of (mx_windows s) wid)) (\<lambda>window.
     fold_action (dump_pane E ss wid window) (panes (wn_layout window)) out))"

definition dump_panes :: "('t, 's) pane_env \<Rightarrow> ('t, 's, 'f, bytes) mux_action" where
  "dump_panes E = with_state (\<lambda>s.
     fold_action (\<lambda>ss. fold_action (dump_window E ss) (sn_windows ss)) (map snd (mx_sessions s))
       (dump_header (affinity_groups (affinities s))))"

end
