(* ===== verification/Htm_Invariant.thy ===== *)
theory Htm_Invariant
  imports Htm_State
begin

text \<open>
  The invariant of the daemon's state: every pane is in the layout of exactly one window, every window in the list of
  exactly one session, what is active exists. Every operation of \<^verbatim>\<open>state.rs\<close> keeps it and does not panic.
\<close>

section \<open>The invariant\<close>

definition window_panes :: "'f htm_window \<Rightarrow> nat set" where
  "window_panes w = set (panes (wn_layout w))"

definition window_fine :: "'f htm_window \<Rightarrow> bool" where
  "window_fine w \<longleftrightarrow> wf_layout (wn_layout w) \<and> distinct (panes (wn_layout w)) \<and> wn_active w \<in> window_panes w \<and>
    set_option (wn_zoom w) \<subseteq> window_panes w"

definition windows_ok :: "nat set \<Rightarrow> (nat \<rightharpoonup> 'f htm_window) \<Rightarrow> bool" where
  "windows_ok P W \<longleftrightarrow> (\<forall>i w. W i = Some w \<longrightarrow> window_fine w) \<and>
    (\<forall>i j w v. W i = Some w \<longrightarrow> W j = Some v \<longrightarrow> i \<noteq> j \<longrightarrow> window_panes w \<inter> window_panes v = {}) \<and>
    P = (\<Union>w \<in> ran W. window_panes w)"

definition members :: "(nat \<rightharpoonup> 'f htm_window) \<Rightarrow> nat \<Rightarrow> nat set" where
  "members W k = {i. \<exists>w. W i = Some w \<and> wn_session w = k}"

definition lists_members :: "(nat \<rightharpoonup> 'f htm_window) \<Rightarrow> nat \<Rightarrow> htm_session \<Rightarrow> bool" where
  "lists_members W k ss \<longleftrightarrow> distinct (sn_windows ss) \<and> set (sn_windows ss) = members W k"

definition sessions_ok_but :: "nat set \<Rightarrow> (nat \<rightharpoonup> 'f htm_window) \<Rightarrow> (nat \<rightharpoonup> htm_session) \<Rightarrow> bool" where
  "sessions_ok_but K W S \<longleftrightarrow> (\<forall>i w. W i = Some w \<longrightarrow> wn_session w \<in> dom S) \<and>
    (\<forall>k ss. S k = Some ss \<longrightarrow> lists_members W k ss \<and> (k \<notin> K \<longrightarrow> sn_active ss \<in> set (sn_windows ss)))"

abbreviation sessions_ok :: "(nat \<rightharpoonup> 'f htm_window) \<Rightarrow> (nat \<rightharpoonup> htm_session) \<Rightarrow> bool" where
  "sessions_ok \<equiv> sessions_ok_but {}"

definition ids_ok :: "('t, 's, 'f) mux \<Rightarrow> bool" where
  "ids_ok s \<longleftrightarrow> bt_ok (mx_panes s) \<and> bt_ok (mx_windows s) \<and> bt_ok (mx_sessions s) \<and>
    dom (map_of (mx_panes s)) \<subseteq> {..<mx_next_pane s} \<and> dom (map_of (mx_windows s)) \<subseteq> {..<mx_next_window s} \<and>
    dom (map_of (mx_sessions s)) \<subseteq> {0<..<mx_next_session s} \<and> 0 < mx_next_session s"

definition active_ok :: "('t, 's, 'f) mux \<Rightarrow> bool" where
  "active_ok s \<longleftrightarrow> (if mx_sessions s = [] then mx_active s = 0 else mx_active s \<in> dom (map_of (mx_sessions s)))"

lemma active_okI: "mx_active s \<in> dom (map_of (mx_sessions s)) \<Longrightarrow> active_ok s"
  by (auto simp: active_ok_def)

text \<open>The invariant with panes \<open>X\<close> not yet in a window, and sessions \<open>K\<close> without an active window.\<close>

definition mux_inv_but :: "nat set \<Rightarrow> nat set \<Rightarrow> ('t, 's, 'f) mux \<Rightarrow> bool" where
  "mux_inv_but X K s \<longleftrightarrow> ids_ok s \<and> X \<subseteq> dom (map_of (mx_panes s)) \<and> windows_ok (dom (map_of (mx_panes s)) - X) (map_of (mx_windows s)) \<and>
    sessions_ok_but K (map_of (mx_windows s)) (map_of (mx_sessions s)) \<and> active_ok s"

definition mux_inv :: "('t, 's, 'f) mux \<Rightarrow> bool" where
  "mux_inv s = mux_inv_but {} {} s"

section \<open>Windows and sessions as maps\<close>

lemma windows_okD:
  assumes "windows_ok P W" "W i = Some w"
  shows "window_fine w" "window_panes w \<subseteq> P" "wf_layout (wn_layout w)" "distinct (panes (wn_layout w))"
    "wn_active w \<in> P" "set_option (wn_zoom w) \<subseteq> P"
  using assms by (auto simp: windows_ok_def window_fine_def ran_def subset_iff)

lemma windows_ok_owner: "windows_ok P W \<Longrightarrow> p \<in> P \<Longrightarrow> \<exists>i w. W i = Some w \<and> p \<in> window_panes w"
  by (auto simp: windows_ok_def ran_def)

lemma windows_ok_unique: "windows_ok P W \<Longrightarrow> W i = Some w \<Longrightarrow> W j = Some v \<Longrightarrow> p \<in> window_panes w \<Longrightarrow> p \<in> window_panes v \<Longrightarrow> i = j"
  unfolding windows_ok_def by blast

lemma windows_ok_disjoint:
  "windows_ok P W \<Longrightarrow> W i = Some w \<Longrightarrow> W j = Some v \<Longrightarrow> i \<noteq> j \<Longrightarrow> window_panes w \<inter> window_panes v = {}"
  unfolding windows_ok_def by blast

lemma windows_okI:
  assumes "\<And>i w. W i = Some w \<Longrightarrow> window_fine w"
    "\<And>i j w v. W i = Some w \<Longrightarrow> W j = Some v \<Longrightarrow> i \<noteq> j \<Longrightarrow> window_panes w \<inter> window_panes v = {}"
    "\<And>p. p \<in> P \<Longrightarrow> \<exists>i w. W i = Some w \<and> p \<in> window_panes w" "\<And>i w. W i = Some w \<Longrightarrow> window_panes w \<subseteq> P"
  shows "windows_ok P W"
  unfolding windows_ok_def
proof (intro conjI allI impI)
  show "P = (\<Union>w \<in> ran W. window_panes w)"
  proof
    show "P \<subseteq> (\<Union>w \<in> ran W. window_panes w)" using assms(3) ranI by fastforce
    show "(\<Union>w \<in> ran W. window_panes w) \<subseteq> P" using assms(4) by (force simp: ran_def)
  qed
qed (use assms(1,2) in blast)+

lemma windows_ok_del:
  assumes "windows_ok P W" "W i = Some w"
  shows "windows_ok (P - window_panes w) (W(i := None))"
proof (rule windows_okI)
  fix p assume "p \<in> P - window_panes w"
  then obtain j v where "W j = Some v" "p \<in> window_panes v" "p \<notin> window_panes w" using windows_ok_owner [OF assms(1)] by blast
  then show "\<exists>j v. (W(i := None)) j = Some v \<and> p \<in> window_panes v" using assms(2) by (intro exI [of _ j]) auto
next
  fix j v assume "(W(i := None)) j = Some v"
  then have v: "W j = Some v" "j \<noteq> i" by (auto split: if_splits)
  show "window_panes v \<subseteq> P - window_panes w" using windows_okD(2) [OF assms(1) v(1)] windows_ok_disjoint [OF assms(1) v(1) assms(2) v(2)] by blast
  show "window_fine v" by (rule windows_okD(1) [OF assms(1) v(1)])
next
  fix j k v u assume "(W(i := None)) j = Some v" "(W(i := None)) k = Some u" "j \<noteq> k"
  then show "window_panes v \<inter> window_panes u = {}" using windows_ok_disjoint [OF assms(1)] by (metis fun_upd_apply option.distinct(1))
qed

lemma windows_ok_add:
  assumes "windows_ok P W" "W i = None" "window_fine w" "window_panes w \<inter> P = {}"
  shows "windows_ok (P \<union> window_panes w) (W(i \<mapsto> w))"
proof (rule windows_okI)
  fix p assume p: "p \<in> P \<union> window_panes w"
  show "\<exists>j v. (W(i \<mapsto> w)) j = Some v \<and> p \<in> window_panes v"
  proof (cases "p \<in> window_panes w")
    case False
    then obtain j v where "W j = Some v" "p \<in> window_panes v" using p windows_ok_owner [OF assms(1)] by blast
    then show ?thesis using assms(2) by (intro exI [of _ j]) auto
  qed (auto intro!: exI [of _ i])
next
  fix j v assume v: "(W(i \<mapsto> w)) j = Some v"
  then show "window_panes v \<subseteq> P \<union> window_panes w" using windows_okD(2) [OF assms(1), of j v] by (cases "j = i") auto
  show "window_fine v" using v windows_okD(1) [OF assms(1), of j v] assms(3) by (cases "j = i") auto
next
  fix j k v u assume "(W(i \<mapsto> w)) j = Some v" "(W(i \<mapsto> w)) k = Some u" "j \<noteq> k"
  then show "window_panes v \<inter> window_panes u = {}"
    using windows_ok_disjoint [OF assms(1), of j v k u] windows_okD(2) [OF assms(1)] assms(4)
    by (cases "j = i"; cases "k = i") (simp, fastforce+)
qed

text \<open>A window replaced by one with other panes, none of them in another window.\<close>

lemma windows_ok_upd:
  assumes "windows_ok P W" "W i = Some w" "window_fine w'" "window_panes w' \<inter> (P - window_panes w) = {}" "P' = P - window_panes w \<union> window_panes w'"
  shows "windows_ok P' (W(i \<mapsto> w'))"
  using windows_ok_add [OF windows_ok_del [OF assms(1,2)], of i w'] assms(3,4,5) by simp

text \<open>The sessions only see which session a window belongs to.\<close>

lemma members_upd: "members (W(i \<mapsto> w)) k = (if wn_session w = k then insert i (members W k) else members W k - {i})"
  by (auto simp: members_def)

lemma members_del: "members (W(i := None)) k = members W k - {i}"
  by (auto simp: members_def)

lemma members_self: "W i = Some w \<Longrightarrow> i \<in> members W k \<longleftrightarrow> wn_session w = k"
  by (auto simp: members_def)

lemma members_None: "W i = None \<Longrightarrow> i \<notin> members W k"
  by (auto simp: members_def)

lemma sessions_ok_upd:
  assumes "sessions_ok_but K W S" "W i = Some w" "wn_session w' = wn_session w"
  shows "sessions_ok_but K (W(i \<mapsto> w')) S"
proof -
  have "members (W(i \<mapsto> w')) = members W" using assms(2,3) by (auto simp: members_upd members_self fun_eq_iff)
  then show ?thesis using assms unfolding sessions_ok_but_def lists_members_def by (simp, metis)
qed

lemma sessions_okD:
  assumes "sessions_ok_but K W S"
  shows "W i = Some w \<Longrightarrow> \<exists>ss. S (wn_session w) = Some ss \<and> i \<in> set (sn_windows ss)"
    "S k = Some ss \<Longrightarrow> i \<in> set (sn_windows ss) \<Longrightarrow> \<exists>w. W i = Some w \<and> wn_session w = k"
    "S k = Some ss \<Longrightarrow> lists_members W k ss"
    "S k = Some ss \<Longrightarrow> k \<notin> K \<Longrightarrow> sn_active ss \<in> set (sn_windows ss)"
proof -
  show "S k = Some ss \<Longrightarrow> lists_members W k ss" for k ss using assms by (auto simp: sessions_ok_but_def)
  then show "W i = Some w \<Longrightarrow> \<exists>ss. S (wn_session w) = Some ss \<and> i \<in> set (sn_windows ss)"
    "S k = Some ss \<Longrightarrow> i \<in> set (sn_windows ss) \<Longrightarrow> \<exists>w. W i = Some w \<and> wn_session w = k"
    using assms by (fastforce simp: sessions_ok_but_def lists_members_def members_def)+
  show "S k = Some ss \<Longrightarrow> k \<notin> K \<Longrightarrow> sn_active ss \<in> set (sn_windows ss)" using assms by (auto simp: sessions_ok_but_def)
qed

lemma sessions_ok_fresh:
  assumes "sessions_ok W S" "S k = None" "sn_windows ss = []"
  shows "sessions_ok_but {k} W (S(k \<mapsto> ss))"
proof -
  have "members W k = {}" using assms(1,2) by (auto simp: sessions_ok_but_def members_def)
  then have "lists_members W k ss" using assms(3) by (simp add: lists_members_def)
  then show ?thesis using assms unfolding sessions_ok_but_def by (auto split: if_splits)
qed

text \<open>A new window at the end of a session's list, its active one.\<close>

lemma sessions_ok_add:
  assumes "sessions_ok_but (insert k K) W S" "S k = Some ss" "W i = None" "wn_session w = k" "sn_windows ss' = sn_windows ss @ [i]" "sn_active ss' = i"
  shows "sessions_ok_but (K - {k}) (W(i \<mapsto> w)) (S(k \<mapsto> ss'))"
proof -
  have "lists_members W k ss" by (rule sessions_okD(3) [OF assms(1,2)])
  then have "lists_members (W(i \<mapsto> w)) k ss'" using assms(4,5) members_None [of W i, OF assms(3)] by (auto simp: lists_members_def members_upd)
  moreover have "lists_members (W(i \<mapsto> w)) j t" if "S j = Some t" "j \<noteq> k" for j t
    using sessions_okD(3) [OF assms(1) that(1)] that(2) assms(4) members_None [of W i, OF assms(3)] by (simp add: lists_members_def members_upd)
  ultimately show ?thesis using assms unfolding sessions_ok_but_def by (auto split: if_splits)
qed

text \<open>A window that leaves: its session keeps the rest, or is gone with its last window.\<close>

lemma sessions_ok_leave:
  assumes "sessions_ok W S" "W i = Some w" "S (wn_session w) = Some ss" "sn_windows ss' = filter (\<lambda>x. x \<noteq> i) (sn_windows ss)"
    "sn_windows ss' \<noteq> [] \<Longrightarrow> sn_active ss' = (if sn_active ss = i then last (sn_windows ss') else sn_active ss)"
  shows "sessions_ok_but (if sn_windows ss' = [] then {wn_session w} else {}) (W(i := None)) (S(wn_session w \<mapsto> ss'))"
proof -
  have "lists_members (W(i := None)) (wn_session w) ss'" using sessions_okD(3) [OF assms(1,3)] assms(4) by (auto simp: lists_members_def members_del)
  moreover have "lists_members (W(i := None)) j t" if "S j = Some t" "j \<noteq> wn_session w" for j t
    using sessions_okD(3) [OF assms(1) that(1)] that(2) assms(2) members_self [of W i w j] by (simp add: lists_members_def members_del)
  moreover have "sn_active ss' \<in> set (sn_windows ss')" if ne: "sn_windows ss' \<noteq> []"
  proof (cases "sn_active ss = i")
    case True
    then show ?thesis using assms(5) ne last_in_set [of "sn_windows ss'"] by simp
  next
    case False
    then show ?thesis using assms(4,5) ne sessions_okD(4) [OF assms(1,3)] by simp
  qed
  ultimately show ?thesis using assms(1) unfolding sessions_ok_but_def by (auto split: if_splits)
qed

lemma sessions_ok_drop:
  assumes "sessions_ok_but {k} W S" "S k = Some ss" "sn_windows ss = []"
  shows "sessions_ok W (S(k := None))"
proof -
  have "members W k = {}" using sessions_okD(3) [OF assms(1,2)] assms(3) by (simp add: lists_members_def)
  then show ?thesis using assms(1) unfolding sessions_ok_but_def members_def by (auto split: if_splits)
qed

lemma sessions_ok_last:
  assumes "sessions_ok W S" "W i = Some w" "S (wn_session w) = Some ss" "filter (\<lambda>x. x \<noteq> i) (sn_windows ss) = []"
  shows "sessions_ok (W(i := None)) (S(wn_session w := None))"
  using sessions_ok_drop [OF sessions_ok_leave [OF assms(1-3), of "ss\<lparr>sn_windows := []\<rparr>", simplified]] assms(4) by simp

section \<open>Changes that leave the structure alone\<close>

definition settled :: "('t, 's, 'f) mux \<Rightarrow> ('t, 's, 'f) mux \<Rightarrow> bool" where
  "settled s s' \<longleftrightarrow> bt_keys (mx_panes s') = bt_keys (mx_panes s) \<and> s' = s\<lparr>mx_panes := mx_panes s', mx_notifications := mx_notifications s'\<rparr>"

lemma settled_refl [simp]: "settled s s"
  by (simp add: settled_def)

lemma settled_notify [simp]: "settled s (notify text s') \<longleftrightarrow> settled s s'"
  by (cases s; cases s') (auto simp: settled_def notify_def)

lemma settledD:
  assumes "settled s s'"
  shows "mx_windows s' = mx_windows s" "mx_sessions s' = mx_sessions s" "mx_active s' = mx_active s" "bt_keys (mx_panes s') = bt_keys (mx_panes s)"
    "dom (map_of (mx_panes s')) = dom (map_of (mx_panes s))" "mx_next_pane s' = mx_next_pane s" "mx_next_window s' = mx_next_window s"
    "mx_next_session s' = mx_next_session s" "length (mx_panes s') = length (mx_panes s)" "mx_client_size s' = mx_client_size s"
proof -
  have k: "bt_keys (mx_panes s') = bt_keys (mx_panes s)" and e: "s' = s\<lparr>mx_panes := mx_panes s', mx_notifications := mx_notifications s'\<rparr>"
    using assms by (auto simp: settled_def)
  show "bt_keys (mx_panes s') = bt_keys (mx_panes s)" by (rule k)
  show "dom (map_of (mx_panes s')) = dom (map_of (mx_panes s))" using k set_bt_keys by metis
  show "length (mx_panes s') = length (mx_panes s)" using k length_map unfolding bt_keys_def by metis
  show "mx_windows s' = mx_windows s" "mx_sessions s' = mx_sessions s" "mx_active s' = mx_active s" "mx_next_pane s' = mx_next_pane s"
    "mx_next_window s' = mx_next_window s" "mx_next_session s' = mx_next_session s" "mx_client_size s' = mx_client_size s"
    by (subst e, simp)+
qed

lemma settled_trans: "settled s s' \<Longrightarrow> settled s' s'' \<Longrightarrow> settled s s''"
  by (cases s; cases s'; cases s'') (auto simp: settled_def)

lemma bt_ok_keys: "bt_ok m \<longleftrightarrow> sorted_wrt (<) (bt_keys m)"
  by (simp add: bt_ok_def bt_keys_def)

lemma ids_ok_settled: "settled s s' \<Longrightarrow> ids_ok s' = ids_ok s"
  by (simp add: ids_ok_def settledD bt_ok_keys)

lemma mux_inv_but_settled: "settled s s' \<Longrightarrow> mux_inv_but X K s \<Longrightarrow> mux_inv_but X K s'"
  by (simp add: mux_inv_but_def active_ok_def ids_ok_def settledD bt_ok_keys)

lemma mux_inv_but_notify [simp]: "mux_inv_but X K (notify text s) = mux_inv_but X K s"
  by (simp add: mux_inv_but_def active_ok_def ids_ok_def notify_def)

lemma mux_inv_settled: "settled s s' \<Longrightarrow> mux_inv s \<Longrightarrow> mux_inv s'"
  by (simp add: mux_inv_def mux_inv_but_settled)

lemma mux_inv_notify [simp]: "mux_inv (notify text s) = mux_inv s"
  by (simp add: mux_inv_def)

definition drawable :: "nat \<Rightarrow> ('t, 's, 'f) mux \<Rightarrow> bool" where
  "drawable i s \<longleftrightarrow> (\<exists>w. map_of (mx_windows s) i = Some w \<and> wf_layout (wn_layout w) \<and> window_panes w \<subseteq> dom (map_of (mx_panes s)) \<and>
    set_option (wn_zoom w) \<subseteq> dom (map_of (mx_panes s)) \<and> wn_session w \<in> dom (map_of (mx_sessions s)))"

lemma drawable_settled: "settled s s' \<Longrightarrow> drawable i s \<Longrightarrow> drawable i s'"
  by (simp add: drawable_def settledD)

lemma drawable_notify [simp]: "drawable i (notify text s) = drawable i s"
  by (simp add: drawable_def notify_def)

lemma resize_entry_safe:
  assumes "fst e \<in> dom (map_of (mx_panes s))"
  shows "safe X (\<lambda>_ s'. settled s s') (resize_entry E e s)"
  using assms by (auto simp: resize_entry_def settled_def split: prod.split)

lemma resize_entries_safe:
  assumes "fst ` set g \<subseteq> dom (map_of (mx_panes s))"
  shows "safe X (\<lambda>_ s'. settled s s') (for_each (resize_entry E) g s)"
proof (rule safe_for_each)
  fix e s' assume "e \<in> set g" "settled s s'"
  then have "fst e \<in> dom (map_of (mx_panes s'))" using assms settledD(5) by fastforce
  then show "safe X (\<lambda>_ s'. settled s s') (resize_entry E e s')"
    by (rule safe_mono [OF resize_entry_safe]) (use \<open>settled s s'\<close> settled_trans in blast)+
qed simp

lemma mux_resize_safe:
  assumes "drawable i s" "\<And>s'. settled s s' \<Longrightarrow> Q () s'"
  shows "safe X Q (mux_resize E F i s)"
proof -
  obtain w where w: "map_of (mx_windows s) i = Some w" "wf_layout (wn_layout w)" "window_panes w \<subseteq> dom (map_of (mx_panes s))"
    "set_option (wn_zoom w) \<subseteq> dom (map_of (mx_panes s))" using assms(1) by (auto simp: drawable_def)
  have "fst ` set (snd (geometry F (wn_rect w) (wn_layout w))) = window_panes w"
    using geometry_panes(1) [OF w(2), of F "wn_rect w"] unfolding window_panes_def by (metis list.set_map)
  then have "fst ` set (case wn_zoom w of Some p \<Rightarrow> [(p, wn_rect w)] | None \<Rightarrow> snd (geometry F (wn_rect w) (wn_layout w))) \<subseteq> dom (map_of (mx_panes s))"
    using w(3,4) by (cases "wn_zoom w") auto
  then have "safe X (\<lambda>_ s'. settled s s') (mux_resize E F i s)" using w(1) by (simp add: mux_resize_def resize_entries_safe)
  then show ?thesis by (rule safe_mono) (use assms(2) in auto)
qed

lemma layout_changed_safe:
  assumes "drawable i s" "\<And>s'. settled s s' \<Longrightarrow> Q () s'"
  shows "safe X Q (layout_changed i s)"
proof -
  obtain w ss where w: "map_of (mx_windows s) i = Some w" "window_panes w \<subseteq> dom (map_of (mx_panes s))" "map_of (mx_sessions s) (wn_session w) = Some ss"
    using assms(1) by (auto simp: drawable_def)
  have "layout_known s (wn_layout w)" using w(2) by (auto simp: layout_known_def window_panes_def list_all_iff bt_has_iff)
  then have "mux_layout i v s \<noteq> None" for v using w(1) by (simp add: mux_layout_def split: option.split)
  then obtain a b where "mux_layout i False s = Some a" "mux_layout i True s = Some b" by blast
  then show ?thesis using w assms(2) by (simp add: layout_changed_def)
qed

lemma session_changed_safe:
  assumes "mx_active s \<in> dom (map_of (mx_sessions s))" "\<And>s'. settled s s' \<Longrightarrow> Q () s'"
  shows "safe X Q (session_changed s)"
  using assms by (auto simp: session_changed_def)

lemma pane_changed_safe:
  assumes "drawable i s" "\<And>s'. settled s s' \<Longrightarrow> Q () s'"
  shows "safe X Q (pane_changed i s)"
  using assms by (auto simp: pane_changed_def drawable_def)

text \<open>A window is drawn again: resized, announced, and any notification after that.\<close>

lemma redraw_safe:
  assumes "drawable i s" "\<And>s'. settled s s' \<Longrightarrow> Q () s'"
  shows "safe X (\<lambda>_ s1. safe X Q (layout_changed i s1)) (mux_resize E F i s)"
proof (rule mux_resize_safe [OF assms(1)])
  fix s1 assume "settled s s1"
  then show "safe X Q (layout_changed i s1)"
    by (intro layout_changed_safe) (use assms drawable_settled settled_trans in blast)+
qed

lemma drawable_inv:
  assumes "mux_inv_but X K s" "map_of (mx_windows s) i = Some w"
  shows "drawable i s"
proof -
  have w: "windows_ok (dom (map_of (mx_panes s)) - X) (map_of (mx_windows s))"
    "sessions_ok_but K (map_of (mx_windows s)) (map_of (mx_sessions s))" using assms(1) by (auto simp: mux_inv_but_def)
  show ?thesis using windows_okD [OF w(1) assms(2)] sessions_okD(1) [OF w(2) assms(2)] assms(2) by (fastforce simp: drawable_def)
qed

section \<open>Finding windows\<close>

lemma window_of_found:
  assumes "ids_ok s" "window_of p s = Inr i"
  obtains w where "map_of (mx_windows s) i = Some w" "p \<in> window_panes w"
proof -
  obtain e where e: "find (\<lambda>e. layout_contains p (wn_layout (snd e))) (mx_windows s) = Some e" "i = fst e"
    using assms(2) by (auto simp: window_of_def split: option.splits)
  then have "e \<in> set (mx_windows s)" "p \<in> window_panes (snd e)" by (auto simp: find_Some_iff window_panes_def)
  then show ?thesis using that [of "snd e"] assms(1) e(2) bt_get_iff [of "mx_windows s" i "snd e"] by (auto simp: ids_ok_def)
qed

lemma window_of_known:
  assumes "mux_inv_but X K s" "p \<in> dom (map_of (mx_panes s)) - X"
  obtains i w where "window_of p s = Inr i" "map_of (mx_windows s) i = Some w" "p \<in> window_panes w"
proof -
  have ids: "ids_ok s" and w: "windows_ok (dom (map_of (mx_panes s)) - X) (map_of (mx_windows s))" using assms(1) by (auto simp: mux_inv_but_def)
  obtain j v where v: "map_of (mx_windows s) j = Some v" "p \<in> window_panes v" using windows_ok_owner [OF w assms(2)] by blast
  then have "(j, v) \<in> set (mx_windows s)" using ids bt_get_iff [of "mx_windows s" j v] by (auto simp: ids_ok_def)
  then have "find (\<lambda>e. layout_contains p (wn_layout (snd e))) (mx_windows s) \<noteq> None"
    using v(2) unfolding find_None_iff window_panes_def by force
  then obtain i where "window_of p s = Inr i" by (auto simp: window_of_def)
  then show ?thesis using window_of_found [OF ids] that by metis
qed

lemma set_window_simps [simp]:
  "mx_panes (set_window i w s) = mx_panes s" "mx_sessions (set_window i w s) = mx_sessions s" "mx_active (set_window i w s) = mx_active s"
  "mx_next_pane (set_window i w s) = mx_next_pane s" "mx_next_window (set_window i w s) = mx_next_window s"
  "mx_next_session (set_window i w s) = mx_next_session s"
  "map_of (mx_windows s) i = Some v \<Longrightarrow> map_of (mx_windows (set_window i w s)) = (map_of (mx_windows s))(i \<mapsto> w)"
  "bt_ok (mx_windows (set_window i w s)) = bt_ok (mx_windows s)"
  by (simp_all add: set_window_def)

lemma ids_ok_set_window [simp]: "map_of (mx_windows s) i = Some v \<Longrightarrow> ids_ok (set_window i w s) = ids_ok s"
  by (auto simp: ids_ok_def)

text \<open>A window changes its panes: \<open>gone\<close> are no longer in it, \<open>new\<close> were in none.\<close>

lemma mux_inv_set_window:
  assumes "mux_inv_but X K s" "map_of (mx_windows s) i = Some w" "window_fine w'" "wn_session w' = wn_session w"
    "window_panes w' \<subseteq> window_panes w \<union> X"
  shows "mux_inv_but (X - window_panes w' \<union> (window_panes w - window_panes w')) K (set_window i w' s)"
proof -
  let ?P = "dom (map_of (mx_panes s))"
  have w: "windows_ok (?P - X) (map_of (mx_windows s))" and x: "X \<subseteq> ?P" using assms(1) by (auto simp: mux_inv_but_def)
  have p: "window_panes w \<subseteq> ?P - X" by (rule windows_okD(2) [OF w assms(2)])
  have "windows_ok (?P - (X - window_panes w' \<union> (window_panes w - window_panes w'))) ((map_of (mx_windows s))(i \<mapsto> w'))"
    by (rule windows_ok_upd [OF w assms(2,3)]) (use assms(5) p x in blast)+
  moreover have "X - window_panes w' \<union> (window_panes w - window_panes w') \<subseteq> ?P" using x p by blast
  ultimately show ?thesis using assms(1,2,4) sessions_ok_upd by (auto simp: mux_inv_but_def active_ok_def)
qed

lemma mux_inv_set_window_same:
  assumes "mux_inv_but X K s" "map_of (mx_windows s) i = Some w" "window_fine w'" "wn_session w' = wn_session w" "window_panes w' = window_panes w"
  shows "mux_inv_but X K (set_window i w' s)"
proof -
  have ok: "windows_ok (dom (map_of (mx_panes s)) - X) (map_of (mx_windows s))" using assms(1) by (auto simp: mux_inv_but_def)
  have "window_panes w \<inter> X = {}" using windows_okD(2) [OF ok assms(2)] by blast
  then have "X - window_panes w' \<union> (window_panes w - window_panes w') = X" using assms(5) by blast
  then show ?thesis using mux_inv_set_window [OF assms(1-4)] assms(5) by simp
qed

section \<open>Creating panes, windows and sessions\<close>

definition spawned :: "nat \<Rightarrow> ('t, 's, 'f) mux \<Rightarrow> ('t, 's, 'f) mux \<Rightarrow> bool" where
  "spawned p s s' \<longleftrightarrow> ids_ok s' \<and> p \<notin> dom (map_of (mx_panes s)) \<and> dom (map_of (mx_panes s')) = insert p (dom (map_of (mx_panes s))) \<and>
    mx_windows s' = mx_windows s \<and> mx_sessions s' = mx_sessions s \<and> mx_active s' = mx_active s"

lemma spawn_safe:
  assumes "ids_ok s" "X s" "\<And>p s'. spawned p s s' \<Longrightarrow> Q p s'"
  shows "safe X Q (spawn E cwd s)"
proof -
  obtain cols rows where size: "mx_client_size s = (cols, rows)" by fastforce
  let ?p = "mx_next_pane s"
  have fresh: "?p \<notin> dom (map_of (mx_panes s))" using assms(1) by (auto simp: ids_ok_def)
  have sp: "spawned ?p s (s\<lparr>mx_next_pane := ?p + 1, mx_panes := bt_insert ?p x (mx_panes s)\<rparr>)" for x
    using assms(1) fresh by (auto simp: spawned_def ids_ok_def)
  show ?thesis
  proof (cases "64 \<le> length (mx_panes s)")
    case False
    then show ?thesis using assms(2) size assms(3) [OF sp]
      by (simp add: spawn_def Let_def split: sum.split)
  qed (use assms(2) in \<open>simp add: spawn_def\<close>)
qed

lemma mux_inv_spawned:
  assumes "mux_inv_but {} K s" "spawned p s s'"
  shows "mux_inv_but {p} K s'"
proof -
  have "dom (map_of (mx_panes s')) - {p} = dom (map_of (mx_panes s))" using assms(2) by (auto simp: spawned_def)
  then show ?thesis using assms by (simp add: mux_inv_but_def spawned_def active_ok_def)
qed

lemma mux_inv_but_mono: "mux_inv_but X K s \<Longrightarrow> K \<subseteq> K' \<Longrightarrow> mux_inv_but X K' s"
  unfolding mux_inv_but_def sessions_ok_but_def by blast

lemma mux_inv_add_window:
  assumes "mux_inv_but {p} {k} s" "map_of (mx_sessions s) k = Some ss" "i = mx_next_window s" "wn_layout w = Pane p" "wn_active w = p"
    "wn_zoom w = None" "wn_session w = k"
  shows "mux_inv_but {} {} (s\<lparr>mx_next_window := i + 1, mx_windows := bt_insert i w (mx_windows s),
    mx_sessions := bt_update k (\<lambda>ss. ss\<lparr>sn_windows := sn_windows ss @ [i], sn_active := i\<rparr>) (mx_sessions s)\<rparr>)"
proof -
  have ids: "ids_ok s" and p: "p \<in> dom (map_of (mx_panes s))" and ok: "windows_ok (dom (map_of (mx_panes s)) - {p}) (map_of (mx_windows s))"
    and sok: "sessions_ok_but {k} (map_of (mx_windows s)) (map_of (mx_sessions s))" using assms(1) by (auto simp: mux_inv_but_def)
  have fresh: "map_of (mx_windows s) i = None" using ids assms(3) by (auto simp: ids_ok_def)
  have wp: "window_panes w = {p}" "window_fine w" using assms(4-6) by (simp_all add: window_panes_def window_fine_def)
  have "windows_ok (dom (map_of (mx_panes s))) ((map_of (mx_windows s))(i \<mapsto> w))"
    using windows_ok_add [OF ok fresh wp(2)] wp(1) p by (simp add: insert_absorb)
  moreover have "sessions_ok ((map_of (mx_windows s))(i \<mapsto> w)) ((map_of (mx_sessions s))(k \<mapsto> ss\<lparr>sn_windows := sn_windows ss @ [i], sn_active := i\<rparr>))"
    using sessions_ok_add [OF sok assms(2) fresh assms(7), where ss' = "ss\<lparr>sn_windows := sn_windows ss @ [i], sn_active := i\<rparr>"] by simp
  moreover have "bt_update k f (mx_sessions s) = [] \<longleftrightarrow> mx_sessions s = []" for f by (simp add: bt_update_def)
  ultimately show ?thesis using assms(1-3) by (auto simp: mux_inv_but_def ids_ok_def active_ok_def)
qed

lemma window_from_pane_safe:
  assumes "mux_inv_but {p} {k} s" "k \<in> dom (map_of (mx_sessions s))"
    "\<And>i s'. mux_inv s' \<Longrightarrow> i \<in> dom (map_of (mx_windows s')) \<Longrightarrow> mx_active s' = mx_active s \<Longrightarrow>
      dom (map_of (mx_sessions s')) = dom (map_of (mx_sessions s)) \<Longrightarrow> Q i s'"
  shows "safe X Q (window_from_pane E F p k name s)"
proof -
  obtain ss where ss: "map_of (mx_sessions s) k = Some ss" using assms(2) by blast
  let ?i = "mx_next_window s"
  let ?w = "\<lparr>wn_session = k, wn_name = (case nonempty name of Some n \<Rightarrow> n | None \<Rightarrow> dec_nat (length (sn_windows ss))), wn_order = length (sn_windows ss),
    wn_automatic_rename = True, wn_layout = Pane p, wn_rect = \<lparr>r_cols = fst (mx_client_size s), r_rows = snd (mx_client_size s), r_x = 0, r_y = 0\<rparr>,
    wn_active = p, wn_zoom = None\<rparr>"
  define s1 where "s1 = s\<lparr>mx_next_window := ?i + 1, mx_windows := bt_insert ?i ?w (mx_windows s),
    mx_sessions := bt_update k (\<lambda>ss. ss\<lparr>sn_windows := sn_windows ss @ [?i], sn_active := ?i\<rparr>) (mx_sessions s)\<rparr>"
  have inv: "mux_inv_but {} {} s1" unfolding s1_def by (rule mux_inv_add_window [OF assms(1) ss]) simp_all
  have w: "map_of (mx_windows s1) ?i = Some ?w" by (simp add: s1_def)
  have s1: "mx_active s1 = mx_active s" "dom (map_of (mx_sessions s1)) = dom (map_of (mx_sessions s))" using ss by (auto simp: s1_def)
  have q: "Q ?i s'" if "settled s1 s'" for s'
    by (rule assms(3)) (use that inv w s1 in \<open>simp_all add: settledD mux_inv_def mux_inv_but_settled dom_def\<close>)
  have "safe X (\<lambda>_ s2. Q ?i (notify (ascii ''%window-add @'' @ dec_nat ?i @ [10])
      (if 0 < length (sn_windows ss) then notify (ascii ''%session-window-changed $'' @ dec_nat k @ ascii '' @'' @ dec_nat ?i @ [10]) s2 else s2)))
    (mux_resize E F ?i s1)"
    by (rule mux_resize_safe [OF drawable_inv [OF inv w]]) (simp add: q)
  then show ?thesis using ss unfolding s1_def by (simp add: window_from_pane_def Let_def)
qed

lemma new_window_safe:
  assumes "mux_inv_but {} {mx_active s} s" "mx_active s \<in> dom (map_of (mx_sessions s))" "X s"
    "\<And>i s'. mux_inv s' \<Longrightarrow> i \<in> dom (map_of (mx_windows s')) \<Longrightarrow> mx_active s' = mx_active s \<Longrightarrow>
      dom (map_of (mx_sessions s')) = dom (map_of (mx_sessions s)) \<Longrightarrow> Q i s'"
  shows "safe X Q (new_window E F name cwd s)"
proof -
  have "safe X (\<lambda>p s'. safe X Q (window_from_pane E F p (mx_active s) name s')) (spawn E c s)" for c
  proof (rule spawn_safe)
    fix p s' assume sp: "spawned p s s'"
    then have "mx_sessions s' = mx_sessions s" "mx_active s' = mx_active s" by (auto simp: spawned_def)
    then show "safe X Q (window_from_pane E F p (mx_active s) name s')"
      using mux_inv_spawned [OF assms(1) sp] assms(2,4) by (intro window_from_pane_safe) auto
  qed (use assms in \<open>auto simp: mux_inv_but_def\<close>)
  then show ?thesis using assms(2) by (auto simp: new_window_def split: option.split)
qed

lemma mux_inv_set_active: "mux_inv s \<Longrightarrow> k \<in> dom (map_of (mx_sessions s)) \<Longrightarrow> mux_inv (s\<lparr>mx_active := k\<rparr>)"
  by (auto simp: mux_inv_def mux_inv_but_def ids_ok_def active_ok_def)

lemma new_session_safe:
  assumes "mux_inv s"
  shows "safe (\<lambda>s'. mx_sessions s \<noteq> [] \<longrightarrow> mux_inv s') (\<lambda>i s'. mux_inv s' \<and> i \<in> dom (map_of (mx_sessions s'))) (new_session E F name s)"
proof (cases "32 \<le> length (mx_sessions s)")
  case True
  then show ?thesis using assms by (simp add: new_session_def safe_def)
next
  case False
  let ?i = "mx_next_session s"
  let ?ss = "\<lparr>sn_name = (if name = [] then dec_nat ?i else name), sn_active = 0, sn_windows = []\<rparr>"
  define s1 where "s1 = s\<lparr>mx_next_session := ?i + 1, mx_sessions := bt_insert ?i ?ss (mx_sessions s), mx_active := ?i\<rparr>"
  have inv: "mux_inv_but {} {} s" using assms by (simp add: mux_inv_def)
  then have fresh: "map_of (mx_sessions s) ?i = None" and pos: "0 < ?i" by (auto simp: mux_inv_but_def ids_ok_def)
  have "sessions_ok_but {?i} (map_of (mx_windows s)) ((map_of (mx_sessions s))(?i \<mapsto> ?ss))"
    by (rule sessions_ok_fresh) (use inv fresh in \<open>auto simp: mux_inv_but_def\<close>)
  then have "mux_inv_but {} {?i} s1" using inv by (auto simp: s1_def mux_inv_but_def ids_ok_def active_ok_def)
  moreover have "mx_active s1 = ?i" "dom (map_of (mx_sessions s1)) = insert ?i (dom (map_of (mx_sessions s)))" by (simp_all add: s1_def)
  ultimately have run: "safe (\<lambda>s'. s' = s1) (\<lambda>w s'. mux_inv s' \<and> dom (map_of (mx_sessions s')) = insert ?i (dom (map_of (mx_sessions s)))) (new_window E F None None s1)"
    by (intro new_window_safe) auto
  have prev: "mx_active s = 0 \<longleftrightarrow> mx_sessions s = []" "mx_active s \<noteq> 0 \<Longrightarrow> mx_active s \<in> dom (map_of (mx_sessions s))"
    using inv by (auto simp: mux_inv_but_def active_ok_def ids_ok_def split: if_splits)
  have undone: "mux_inv (s1\<lparr>mx_active := mx_active s, mx_sessions := bt_remove ?i (mx_sessions s1)\<rparr>)"
    using inv fresh by (simp add: s1_def bt_remove_insert bt_remove_absent mux_inv_def mux_inv_but_def active_ok_def ids_ok_def) fastforce
  have unf: "new_session E F name s = (case new_window E F None None s1 of
      (Panic, s') \<Rightarrow> (Panic, s')
    | (Err e, s') \<Rightarrow> (Err e, s'\<lparr>mx_active := (if mx_active s = 0 then ?i else mx_active s), mx_sessions := bt_remove ?i (mx_sessions s')\<rparr>)
    | (Ok w, s') \<Rightarrow> (Ok ?i, notify (ascii ''%sessions-changed'' @ [10]) (s'\<lparr>mx_active := (if mx_active s = 0 then ?i else mx_active s)\<rparr>)))"
    unfolding new_session_def s1_def Let_def using False by (simp only: if_False)
  show ?thesis
  proof (cases "new_window E F None None s1")
    case (Pair r s')
    show ?thesis
    proof (cases r)
      case (Ok w)
      then have "mux_inv s'" "dom (map_of (mx_sessions s')) = insert ?i (dom (map_of (mx_sessions s)))" using run Pair by (auto simp: safe_def)
      then have "mux_inv (s'\<lparr>mx_active := (if mx_active s = 0 then ?i else mx_active s)\<rparr>)" using prev by (intro mux_inv_set_active) auto
      then show ?thesis using Pair Ok False \<open>dom (map_of (mx_sessions s')) = _\<close>
        by (simp add: unf safe_def) (simp add: notify_def)
    next
      case (Err e)
      then show ?thesis using Pair run prev undone by (auto simp: unf safe_def)
    next
      case Panic
      then show ?thesis using Pair run by (simp add: safe_def)
    qed
  qed
qed

lemma mux_inv_empty: "mux_inv mux_empty"
  by (auto simp: mux_inv_def mux_inv_but_def mux_empty_def ids_ok_def active_ok_def windows_ok_def sessions_ok_but_def)

lemma mux_new_safe: "safe (\<lambda>_. True) (\<lambda>_ s. mux_inv s \<and> mx_sessions s \<noteq> []) (mux_new E F)"
proof -
  have "safe (\<lambda>_. True) (\<lambda>i s. mux_inv s \<and> i \<in> dom (map_of (mx_sessions s))) (new_session E F (ascii ''htm'') mux_empty)"
    by (rule safe_mono [OF new_session_safe [OF mux_inv_empty]]) auto
  then show ?thesis unfolding mux_new_def
    by (simp, elim safe_mono) (auto simp: mux_inv_def mux_inv_but_def ids_ok_def active_ok_def)
qed

section \<open>Splitting and resizing\<close>

lemma insert_window_fine:
  assumes "window_fine w" "dest \<in> window_panes w" "p \<notin> window_panes w"
    "w' = w\<lparr>wn_layout := layout_insert F dest p horizontal before (wn_layout w), wn_active := p\<rparr>"
  shows "window_fine w'" "window_panes w' = insert p (window_panes w)"
proof -
  have m: "mset (panes (layout_insert F dest p horizontal before (wn_layout w))) = mset (p # panes (wn_layout w))"
    using layout_insert_mset(1) [of F dest p horizontal before "wn_layout w"] assms(2) by (simp add: window_panes_def)
  have s: "set (panes (layout_insert F dest p horizontal before (wn_layout w))) = insert p (window_panes w)"
    using mset_eq_setD [OF m] by (simp add: window_panes_def)
  show "window_panes w' = insert p (window_panes w)" using s by (simp add: assms(4) window_panes_def)
  have "distinct (panes (layout_insert F dest p horizontal before (wn_layout w)))"
    using mset_eq_imp_distinct_iff [OF m] assms(1,3) by (simp add: window_fine_def window_panes_def)
  then show "window_fine w'" using assms(1) s layout_insert_wf(1) by (auto simp: assms(4) window_fine_def window_panes_def)
qed

lemma mux_inv_insert:
  assumes "mux_inv_but {p} {} s" "map_of (mx_windows s) i = Some w" "dest \<in> window_panes w"
    "w' = w\<lparr>wn_layout := layout_insert F dest p horizontal before (wn_layout w), wn_active := p\<rparr>"
  shows "mux_inv (set_window i w' s)"
proof -
  have ok: "windows_ok (dom (map_of (mx_panes s)) - {p}) (map_of (mx_windows s))" using assms(1) by (auto simp: mux_inv_but_def)
  have "p \<notin> window_panes w" using windows_okD(2) [OF ok assms(2)] by blast
  note w' = insert_window_fine [OF windows_okD(1) [OF ok assms(2)] assms(3) this assms(4)]
  have "wn_session w' = wn_session w" by (simp add: assms(4))
  from mux_inv_set_window [OF assms(1,2) w'(1) this] have "mux_inv_but ({p} - window_panes w' \<union> (window_panes w - window_panes w')) {} (set_window i w' s)"
    using w'(2) by blast
  moreover have "{p} - window_panes w' \<union> (window_panes w - window_panes w') = {}" using w'(2) by blast
  ultimately show ?thesis by (simp only: mux_inv_def)
qed

lemma mux_inv_window:
  assumes "mux_inv s" "map_of (mx_windows s) i = Some w"
  shows "window_fine w" "window_panes w \<subseteq> dom (map_of (mx_panes s))" "drawable i s"
proof -
  have ok: "windows_ok (dom (map_of (mx_panes s))) (map_of (mx_windows s))" using assms(1) by (simp add: mux_inv_def mux_inv_but_def)
  show "window_fine w" "window_panes w \<subseteq> dom (map_of (mx_panes s))" by (rule windows_okD [OF ok assms(2)])+
  show "drawable i s" using drawable_inv [OF _ assms(2)] assms(1) by (simp add: mux_inv_def)
qed

lemma mux_inv_ids: "mux_inv s \<Longrightarrow> ids_ok s"
  by (simp add: mux_inv_def mux_inv_but_def)

lemma window_of_safe:
  assumes "mux_inv s" "R" "\<And>i w. window_of p s = Inr i \<Longrightarrow> map_of (mx_windows s) i = Some w \<Longrightarrow> p \<in> window_panes w \<Longrightarrow> Q i"
  shows "case window_of p s of Inl e \<Rightarrow> R | Inr i \<Rightarrow> Q i"
proof (cases "window_of p s")
  case (Inr i)
  obtain w where "map_of (mx_windows s) i = Some w" "p \<in> window_panes w" using window_of_found [OF mux_inv_ids [OF assms(1)] Inr] .
  then show ?thesis using assms(3) Inr by simp
qed (simp add: assms(2))

lemma mux_inv_redraw:
  assumes "mux_inv s" "map_of (mx_windows s) i = Some w"
  shows "safe X (\<lambda>_ s1. safe X (\<lambda>_ s'. settled s s') (layout_changed i s1)) (mux_resize E F i s)"
  by (rule redraw_safe [OF mux_inv_window(3) [OF assms]])

lemma split_window_safe:
  assumes "mux_inv_but {p} {} s" "map_of (mx_windows s) i = Some w" "source \<in> window_panes w"
  shows "safe X (\<lambda>q s'. mux_inv s' \<and> q = p \<and> p \<in> dom (map_of (mx_panes s'))) (split_window E F i source horizontal p s)"
proof -
  define w' where "w' = w\<lparr>wn_layout := layout_insert F source p horizontal None (wn_layout w), wn_active := p\<rparr>"
  have s2: "mux_inv (set_window i w' s)" by (rule mux_inv_insert [OF assms w'_def])
  have p: "p \<in> dom (map_of (mx_panes (set_window i w' s)))" using assms(1) by (simp add: mux_inv_but_def)
  have d: "drawable i (set_window i w' s)" using mux_inv_window(3) [OF s2, of i] assms(2) by simp
  let ?n = "notify (ascii ''%window-pane-changed @'' @ dec_nat i @ ascii '' %'' @ dec_nat p @ [10])"
  have "safe X (\<lambda>_ s3. safe X (\<lambda>_ s'. mux_inv s' \<and> p \<in> dom (map_of (mx_panes s'))) (layout_changed i (?n s3))) (mux_resize E F i (set_window i w' s))"
  proof (rule mux_resize_safe [OF d], rule layout_changed_safe)
    fix s3 s4 assume "settled (set_window i w' s) s3" "settled (?n s3) s4"
    then have "settled (set_window i w' s) s4" using settled_trans [of "set_window i w' s" "?n s3" s4] by simp
    then show "mux_inv s4 \<and> p \<in> dom (map_of (mx_panes s4))" using mux_inv_settled [OF _ s2] settledD(5) p by blast
  qed (use d drawable_settled in simp)
  then show ?thesis unfolding w'_def split_window_def using assms(2) by simp
qed

lemma mux_split_safe:
  assumes "mux_inv s"
  shows "safe mux_inv (\<lambda>p s'. mux_inv s' \<and> p \<in> dom (map_of (mx_panes s'))) (mux_split E F source horizontal cwd s)"
  unfolding mux_split_def safe_with_state safe_bind safe_attempt
proof (rule window_of_safe [OF assms assms], goal_cases)
  case (1 i w)
  have "safe mux_inv (\<lambda>p s'. safe mux_inv (\<lambda>p s'. mux_inv s' \<and> p \<in> dom (map_of (mx_panes s'))) (split_window E F i source horizontal p s')) (spawn E (Some c) s)" for c
  proof (rule spawn_safe)
    fix p s1 assume sp: "spawned p s s1"
    have "mux_inv_but {p} {} s1" "map_of (mx_windows s1) i = Some w" using mux_inv_spawned [OF _ sp] assms sp 1 by (simp_all add: mux_inv_def spawned_def)
    from split_window_safe [OF this 1(3)]
    show "safe mux_inv (\<lambda>p s'. mux_inv s' \<and> p \<in> dom (map_of (mx_panes s'))) (split_window E F i source horizontal p s1)"
      by (rule safe_mono) auto
  qed (use assms mux_inv_ids in auto)
  moreover obtain p where "map_of (mx_panes s) source = Some p" using mux_inv_window(2) [OF assms 1(2)] 1(3) by blast
  ultimately show ?case by (cases "nonempty cwd") simp_all
qed

lemma layout_known_inv: "mux_inv s \<Longrightarrow> map_of (mx_windows s) i = Some w \<Longrightarrow> layout_known s (wn_layout w)"
  using mux_inv_window(2) [of s i w] by (auto simp: layout_known_def list_all_iff bt_has_iff window_panes_def)

lemma resize_axis_spec:
  assumes "window_fine w" "resize_axis F rc pane axis desired (c, w) = (c', w')"
  shows "window_fine w' \<and> window_panes w' = window_panes w \<and> wn_session w' = wn_session w"
proof (cases desired)
  case (Some want)
  obtain r l where a: "absolute F pane axis want rc (wn_layout w) = (r, l)" by fastforce
  have "wf_layout l \<and> panes l = panes (wn_layout w)"
    using absolute_spec(1) [of "wn_layout w" F pane axis want rc] a assms(1) by (simp add: window_fine_def)
  then show ?thesis using assms Some a by (auto simp: resize_axis_def window_fine_def window_panes_def Let_def split: option.splits if_splits)
qed (use assms in \<open>simp add: resize_axis_def\<close>)

text \<open>A window of which only the geometry changed, and that is drawn again if it did.\<close>

lemma redraw_if_changed:
  assumes "mux_inv s" "map_of (mx_windows s) i = Some w" "window_fine w'" "window_panes w' = window_panes w" "wn_session w' = wn_session w"
  shows "safe mux_inv (\<lambda>_. mux_inv) ((if changed then and_then (mux_resize E F i) (layout_changed i) else ret ()) (set_window i w' s))"
proof -
  have inv: "mux_inv (set_window i w' s)"
    using mux_inv_set_window_same [OF _ assms(2,3,5,4)] assms(1) by (simp add: mux_inv_def)
  have "safe mux_inv (\<lambda>_ s1. safe mux_inv (\<lambda>_. mux_inv) (layout_changed i s1)) (mux_resize E F i (set_window i w' s))"
    by (rule redraw_safe) (use mux_inv_window(3) [OF inv, of i] assms(2) mux_inv_settled [OF _ inv] in auto)
  then show ?thesis using inv by simp
qed

lemma resize_pane_safe:
  assumes "mux_inv s"
  shows "safe mux_inv (\<lambda>_. mux_inv) (resize_pane E F pane cols rows s)"
  unfolding resize_pane_def safe_with_state safe_bind safe_attempt
proof (rule window_of_safe [OF assms assms], goal_cases)
  case (1 i w)
  obtain c1 w1 where r1: "resize_axis F (pane_rect s) pane True cols ((case wn_layout w of Pane _ \<Rightarrow> True | Split _ _ _ \<Rightarrow> False), w) = (c1, w1)" by fastforce
  obtain c2 w2 where r2: "resize_axis F (pane_rect s) pane False rows (c1, w1) = (c2, w2)" by fastforce
  have w1: "window_fine w1 \<and> window_panes w1 = window_panes w \<and> wn_session w1 = wn_session w"
    by (rule resize_axis_spec [OF mux_inv_window(1) [OF assms 1(2)] r1])
  have "window_fine w2 \<and> window_panes w2 = window_panes w1 \<and> wn_session w2 = wn_session w1"
    using resize_axis_spec [OF _ r2] w1 by blast
  then have "safe mux_inv (\<lambda>_. mux_inv) ((if c2 then and_then (mux_resize E F i) (layout_changed i) else ret ()) (set_window i w2 s))"
    using w1 by (intro redraw_if_changed [OF assms 1(2)]) auto
  then show ?case using 1 r1 r2 layout_known_inv [OF assms 1(2)] by simp
qed

lemma resize_direction_safe:
  assumes "mux_inv s"
  shows "safe mux_inv (\<lambda>_. mux_inv) (resize_direction E F pane dir amount s)"
  unfolding resize_direction_def safe_with_state safe_bind safe_attempt
proof (rule window_of_safe [OF assms assms], goal_cases)
  case (1 i w)
  obtain c l where d: "directional F pane dir amount (pane_rect s) (wn_layout w) = (c, l)" by fastforce
  have "window_fine w" by (rule mux_inv_window(1) [OF assms 1(2)])
  then have "window_fine (w\<lparr>wn_layout := l\<rparr>) \<and> window_panes (w\<lparr>wn_layout := l\<rparr>) = window_panes w"
    using directional_spec(1) [of "wn_layout w" F pane dir amount "pane_rect s"] d by (auto simp: window_fine_def window_panes_def)
  then have "safe mux_inv (\<lambda>_. mux_inv) ((if c then and_then (mux_resize E F i) (layout_changed i) else ret ()) (set_window i (w\<lparr>wn_layout := l\<rparr>) s))"
    by (intro redraw_if_changed [OF assms 1(2)]) auto
  then show ?case using 1 d layout_known_inv [OF assms 1(2)] by simp
qed

section \<open>Closing\<close>

lemma unlink_window_fine:
  assumes "window_fine w" "layout_remove F p (wn_layout w) = Some tree"
  shows "window_fine (unlink_window F p tree w)" "window_panes (unlink_window F p tree w) = window_panes w - {p}"
    "wn_session (unlink_window F p tree w) = wn_session w"
proof -
  have t: "wf_layout tree" "panes tree = filter (\<lambda>q. q \<noteq> p) (panes (wn_layout w))"
    using layout_remove_spec(1) [where l = "wn_layout w" and F = F and pane = p] assms by (auto simp: window_fine_def)
  have l: "wn_layout (unlink_window F p tree w) = tree" by (simp add: unlink_window_def Let_def)
  show "window_panes (unlink_window F p tree w) = window_panes w - {p}" unfolding window_panes_def l t(2) by auto
  have h: "hd (panes tree) \<in> set (panes tree)" using panes_nonempty [OF t(1)] by simp
  show "window_fine (unlink_window F p tree w)" using assms(1) t h
    by (auto simp: window_fine_def window_panes_def unlink_window_def Let_def split: if_splits)
  show "wn_session (unlink_window F p tree w) = wn_session w" by (simp add: unlink_window_def Let_def)
qed

lemma unlink_safe:
  assumes "mux_inv s" "p \<in> dom (map_of (mx_panes s))"
    "\<And>i w w'. window_of p s = Inr i \<Longrightarrow> map_of (mx_windows s) i = Some w \<Longrightarrow> p \<in> window_panes w \<Longrightarrow> window_panes w' = window_panes w - {p} \<Longrightarrow>
      wn_session w' = wn_session w \<Longrightarrow> window_fine w' \<Longrightarrow> mux_inv_but {p} {} (set_window i w' s) \<Longrightarrow> Q (i, False) (set_window i w' s)"
    "\<And>i w. window_of p s = Inr i \<Longrightarrow> map_of (mx_windows s) i = Some w \<Longrightarrow> window_panes w = {p} \<Longrightarrow> Q (i, True) s"
  shows "safe X Q (unlink F p s)"
proof -
  have inv: "mux_inv_but {} {} s" using assms(1) by (simp add: mux_inv_def)
  obtain i w where w: "window_of p s = Inr i" "map_of (mx_windows s) i = Some w" "p \<in> window_panes w"
    by (rule window_of_known [OF inv, of p]) (use assms(2) in auto)
  have fine: "window_fine w" by (rule mux_inv_window(1) [OF assms(1) w(2)])
  show ?thesis
  proof (cases "layout_remove F p (wn_layout w)")
    case None
    then have "filter (\<lambda>q. q \<noteq> p) (panes (wn_layout w)) = []"
      using layout_remove_spec(1) [where l = "wn_layout w" and F = F and pane = p] fine by (simp add: window_fine_def)
    then have "window_panes w = {p}" using w(3) unfolding window_panes_def filter_empty_conv by blast
    then show ?thesis using None w assms(4) by (simp add: unlink_def)
  next
    case (Some tree)
    note u = unlink_window_fine [OF fine Some]
    have "mux_inv_but ({} - window_panes (unlink_window F p tree w) \<union> (window_panes w - window_panes (unlink_window F p tree w))) {}
        (set_window i (unlink_window F p tree w) s)"
      by (rule mux_inv_set_window [OF inv w(2) u(1,3)]) (use u(2) in blast)
    moreover have "{} - window_panes (unlink_window F p tree w) \<union> (window_panes w - window_panes (unlink_window F p tree w)) = {p}"
      using u(2) w(3) by blast
    ultimately have "mux_inv_but {p} {} (set_window i (unlink_window F p tree w) s)" by simp
    then show ?thesis using Some w u assms(3) [OF w u(2,3,1)] by (simp add: unlink_def)
  qed
qed

lemma forget_pane_simps [simp]:
  "mx_windows (forget_pane p s) = mx_windows s" "mx_sessions (forget_pane p s) = mx_sessions s" "mx_active (forget_pane p s) = mx_active s"
  "mx_next_pane (forget_pane p s) = mx_next_pane s" "mx_next_window (forget_pane p s) = mx_next_window s"
  "mx_next_session (forget_pane p s) = mx_next_session s" "map_of (mx_panes (forget_pane p s)) = (map_of (mx_panes s))(p := None)"
  by (simp_all add: forget_pane_def)

lemma ids_ok_forget: "ids_ok s \<Longrightarrow> ids_ok (forget_pane p s)"
  by (auto simp: ids_ok_def) (simp add: forget_pane_def)

lemma mux_inv_forget: "mux_inv_but {p} {} s \<Longrightarrow> mux_inv (forget_pane p s)"
  by (simp add: mux_inv_def mux_inv_but_def ids_ok_forget active_ok_def)

text \<open>A window is removed whose panes are gone, or belong to another window already.\<close>

definition removable :: "nat \<Rightarrow> 'f htm_window \<Rightarrow> ('t, 's, 'f) mux \<Rightarrow> bool" where
  "removable i w s \<longleftrightarrow> ids_ok s \<and> active_ok s \<and> map_of (mx_windows s) i = Some w \<and>
    windows_ok (dom (map_of (mx_panes s))) ((map_of (mx_windows s))(i := None)) \<and> sessions_ok (map_of (mx_windows s)) (map_of (mx_sessions s))"

lemma removable_notify [simp]: "removable i w (notify text s) = removable i w s"
  by (simp add: removable_def notify_def ids_ok_def active_ok_def)

lemma removable_settled: "settled s s' \<Longrightarrow> removable i w s \<Longrightarrow> removable i w s'"
  by (simp add: removable_def settledD ids_ok_def active_ok_def bt_ok_keys)

lemma remove_window_safe:
  fixes s :: "('t, 's, 'f) mux"
  assumes "removable i w s"
  shows "safe X (\<lambda>_. mux_inv) (remove_window i s)"
proof -
  let ?k = "wn_session w" and ?W = "map_of (mx_windows s)" and ?S = "map_of (mx_sessions s)"
  have r: "ids_ok s" "active_ok s" "?W i = Some w" "windows_ok (dom (map_of (mx_panes s))) (?W(i := None))" "sessions_ok ?W ?S"
    using assms by (auto simp: removable_def)
  obtain ss where ss: "?S ?k = Some ss" "i \<in> set (sn_windows ss)" using sessions_okD(1) [OF r(5,3)] by blast
  have inv: "mux_inv s'" if "ids_ok s'" "active_ok s'" "map_of (mx_windows s') = ?W(i := None)" "dom (map_of (mx_panes s')) = dom (map_of (mx_panes s))"
      "sessions_ok (?W(i := None)) (map_of (mx_sessions s'))" for s' :: "('t, 's, 'f) mux"
    using that r(4) by (simp add: mux_inv_def mux_inv_but_def)
  show ?thesis
  proof (cases "sn_windows (leave_window i ss) = []")
    case True
    define s2 where "s2 = s\<lparr>mx_windows := bt_remove i (mx_windows s), mx_sessions := bt_remove ?k (bt_update ?k (leave_window i) (mx_sessions s)),
      mx_options := drop_options 32 ?k (drop_options 119 i (mx_options s)),
      mx_notifications := mx_notifications s @ ascii ''%unlinked-window-close @'' @ dec_nat i @ [10] @ ascii ''%sessions-changed'' @ [10]\<rparr>"
    have S2: "map_of (mx_sessions s2) = ?S(?k := None)" using ss by (simp add: s2_def)
    have ok2: "sessions_ok (?W(i := None)) (?S(?k := None))"
      by (rule sessions_ok_last [OF r(5,3) ss(1)]) (use True in \<open>simp add: leave_window_def\<close>)
    have ids2: "ids_ok s2" using r(1) S2 by (auto simp: ids_ok_def s2_def)
    have f: "map_of (mx_windows s2) = ?W(i := None)" "mx_panes s2 = mx_panes s" "mx_active s2 = mx_active s" by (simp_all add: s2_def)
    show ?thesis
    proof (cases "mx_active s = ?k")
      case act: True
      define s3 where "s3 = s2\<lparr>mx_active := (case mx_sessions s2 of [] \<Rightarrow> 0 | e # _ \<Rightarrow> fst e)\<rparr>"
      have "fst e \<in> dom (map_of (mx_sessions s2)) \<and> fst e \<noteq> 0" if "mx_sessions s2 = e # es" for e es
        using that ids2 by (auto simp: ids_ok_def)
      then have a3: "active_ok s3" "mx_active s3 \<noteq> 0 \<longleftrightarrow> mx_active s3 \<in> dom (map_of (mx_sessions s3))" using ids2
        by (auto simp: s3_def active_ok_def ids_ok_def split: list.splits)
      have inv3: "mux_inv s3" by (rule inv) (use ids2 a3 f ok2 S2 in \<open>simp_all add: s3_def ids_ok_def\<close>)
      have "safe X (\<lambda>_. mux_inv) ((if mx_active s3 \<noteq> 0 then session_changed else ret ()) s3)"
        using inv3 a3(2) mux_inv_settled [OF _ inv3] by (auto intro!: session_changed_safe)
      moreover have "remove_window i s = (if mx_active s3 \<noteq> 0 then session_changed else ret ()) s3"
        using r(3) ss True act unfolding s3_def s2_def
        by (simp add: remove_window_def notify_def with_state_def and_then_def bind_action_def modify_def unwrap_def)
      ultimately show ?thesis by simp
    next
      case act: False
      then have "map_of (mx_sessions s2) (mx_active s) \<noteq> None" using r(2) ss S2 by (auto simp: active_ok_def split: if_splits)
      then have "active_ok s2" using f(3) by (auto simp: active_ok_def)
      then have "mux_inv s2" by (intro inv) (use ids2 f ok2 S2 in auto)
      then show ?thesis using r(3) ss True act unfolding s2_def
        by (simp add: remove_window_def notify_def)
    qed
  next
    case False
    let ?ss = "(leave_window i ss)\<lparr>sn_active := (if sn_active ss = i then last (sn_windows (leave_window i ss)) else sn_active ss)\<rparr>"
    have "sessions_ok (?W(i := None)) (?S(?k \<mapsto> ?ss))"
      using sessions_ok_leave [OF r(5,3) ss(1), of ?ss] False by (simp add: leave_window_def)
    moreover have "ids_ok s'" "active_ok s'" if "map_of (mx_windows s') = ?W(i := None)" "map_of (mx_sessions s') = ?S(?k \<mapsto> ?ss)" "bt_ok (mx_sessions s')" "bt_ok (mx_windows s')"
        "mx_panes s' = mx_panes s" "mx_next_pane s' = mx_next_pane s" "mx_next_window s' = mx_next_window s" "mx_next_session s' = mx_next_session s"
        "mx_active s' = mx_active s" "mx_sessions s' \<noteq> []" for s' :: "('t, 's, 'f) mux"
      using that r(1,2) ss by (auto simp: ids_ok_def active_ok_def split: if_splits)
    ultimately have q: "mux_inv s'" if "map_of (mx_windows s') = ?W(i := None)" "map_of (mx_sessions s') = ?S(?k \<mapsto> ?ss)" "bt_ok (mx_sessions s')" "bt_ok (mx_windows s')"
        "mx_panes s' = mx_panes s" "mx_next_pane s' = mx_next_pane s" "mx_next_window s' = mx_next_window s" "mx_next_session s' = mx_next_session s"
        "mx_active s' = mx_active s" "mx_sessions s' \<noteq> []" for s' :: "('t, 's, 'f) mux"
      using that by (intro inv) auto
    have ne: "mx_sessions s \<noteq> []" using ss by auto
    show ?thesis using r(1,3) ss False ne by (auto simp: remove_window_def notify_def ids_ok_def Let_def leave_window_def intro!: q)
  qed
qed

lemma mux_close_safe:
  assumes "mux_inv s"
  shows "safe mux_inv (\<lambda>_. mux_inv) (mux_close E F p s)"
proof (cases "p \<in> dom (map_of (mx_panes s))")
  case True
  have "safe mux_inv (\<lambda>(i, gone) s1. safe mux_inv (\<lambda>_. mux_inv)
      ((if gone then remove_window i else and_then (mux_resize E F i) (and_then (layout_changed i) (pane_changed i))) (forget_pane p s1))) (unlink F p s)"
  proof (rule unlink_safe [OF assms True], goal_cases)
    case (1 i w w')
    let ?s = "forget_pane p (set_window i w' s)"
    have inv: "mux_inv ?s" by (rule mux_inv_forget [OF 1(7)])
    have d: "drawable i ?s" using mux_inv_window(3) [OF inv, of i w'] 1(2) by simp
    have "safe mux_inv (\<lambda>_ s1. safe mux_inv (\<lambda>_ s2. safe mux_inv (\<lambda>_. mux_inv) (pane_changed i s2)) (layout_changed i s1)) (mux_resize E F i ?s)"
    proof (rule redraw_safe [OF d])
      fix s2 assume st: "settled ?s s2"
      show "safe mux_inv (\<lambda>_. mux_inv) (pane_changed i s2)"
        by (rule pane_changed_safe [OF drawable_settled [OF st d]]) (use mux_inv_settled inv st settled_trans in blast)
    qed
    then show ?case by simp
  next
    case (2 i w)
    have "windows_ok (dom (map_of (mx_panes s)) - {p}) ((map_of (mx_windows s))(i := None))"
      using windows_ok_del [of "dom (map_of (mx_panes s))" "map_of (mx_windows s)" i w] 2 assms by (simp add: mux_inv_def mux_inv_but_def)
    then have "removable i w (forget_pane p s)" using 2(2) assms
      by (simp add: removable_def mux_inv_def mux_inv_but_def ids_ok_forget active_ok_def)
    then show ?case by (simp add: remove_window_safe)
  qed
  then have "safe mux_inv (\<lambda>x s1. safe mux_inv (\<lambda>_. mux_inv) ((case x of (i, gone) \<Rightarrow> and_then (modify (forget_pane p))
      (if gone then remove_window i else and_then (mux_resize E F i) (and_then (layout_changed i) (pane_changed i)))) s1)) (unlink F p s)"
    by (rule safe_mono) (auto split: prod.splits)
  then show ?thesis using True by (simp add: mux_close_def bt_has_iff)
qed (use assms in \<open>simp add: mux_close_def bt_has_iff\<close>)

lemma forget_panes_run: "for_each (\<lambda>p. modify (forget_pane p)) ps s = (Ok (), fold forget_pane ps s)"
  by (induction ps arbitrary: s) (simp_all add: ret_def and_then_def bind_action_def modify_def)

lemma forget_panes_simps:
  "mx_windows (fold forget_pane ps s) = mx_windows s \<and> mx_sessions (fold forget_pane ps s) = mx_sessions s \<and>
   mx_active (fold forget_pane ps s) = mx_active s \<and> dom (map_of (mx_panes (fold forget_pane ps s))) = dom (map_of (mx_panes s)) - set ps \<and>
   (ids_ok s \<longrightarrow> ids_ok (fold forget_pane ps s))"
  by (induction ps arbitrary: s) (auto simp: ids_ok_forget)

lemma close_window_safe:
  assumes "mux_inv s"
  shows "safe X (\<lambda>_. mux_inv) (close_window i s)"
proof (cases "map_of (mx_windows s) i")
  case (Some w)
  let ?s = "fold forget_pane (panes (wn_layout w)) s"
  have "windows_ok (dom (map_of (mx_panes s)) - window_panes w) ((map_of (mx_windows s))(i := None))"
    using windows_ok_del [of "dom (map_of (mx_panes s))" "map_of (mx_windows s)" i w] Some assms by (simp add: mux_inv_def mux_inv_but_def)
  then have "removable i w ?s" using forget_panes_simps [of "panes (wn_layout w)" s] Some assms
    by (simp add: removable_def mux_inv_def mux_inv_but_def active_ok_def window_panes_def)
  then have "safe X (\<lambda>_. mux_inv) (remove_window i ?s)" by (rule remove_window_safe)
  moreover have "close_window i s = remove_window i ?s"
    using Some by (simp add: close_window_def with_state_def and_then_def bind_action_def forget_panes_run)
  ultimately show ?thesis by simp
qed (use assms in \<open>simp add: close_window_def\<close>)

section \<open>Moving\<close>

lemma mux_inv_window_session: "mux_inv s \<Longrightarrow> i \<in> dom (map_of (mx_windows s)) \<Longrightarrow> mx_sessions s \<noteq> []"
  by (fastforce simp: mux_inv_def mux_inv_but_def sessions_ok_but_def)

lemma break_pane_safe:
  assumes "mux_inv s" "mx_sessions s \<noteq> []"
  shows "safe mux_inv (\<lambda>_ s'. mux_inv s' \<and> mx_sessions s' \<noteq> []) (break_pane E F p s)"
proof (cases "p \<in> dom (map_of (mx_panes s))")
  case True
  have inv: "mux_inv_but {} {} s" using assms by (simp add: mux_inv_def)
  obtain i w where w: "window_of p s = Inr i" "map_of (mx_windows s) i = Some w" "p \<in> window_panes w"
    by (rule window_of_known [OF inv, of p]) (use True in auto)
  let ?rest = "bind_action (window_from_pane E F p (wn_session w) None) (\<lambda>i. and_then (layout_changed i) (ret i))"
  have "safe mux_inv (\<lambda>_ s1. safe mux_inv (\<lambda>_ s2. safe mux_inv (\<lambda>_ s3. safe mux_inv (\<lambda>_ s'. mux_inv s' \<and> mx_sessions s' \<noteq> []) (?rest s3)) (layout_changed i s2)) (mux_resize E F i s1)) (unlink F p s)"
    if len: "length (panes (wn_layout w)) \<noteq> 1"
  proof (rule unlink_safe [OF assms(1) True], goal_cases)
    case (1 j v v')
    then have j: "j = i" "v = w" using w by auto
    have d: "drawable i (set_window i v' s)" by (rule drawable_inv) (use 1 j in auto)
    show ?case unfolding j
    proof (rule redraw_safe [OF d])
      fix s3 assume st: "settled (set_window i v' s) s3"
      have inv3: "mux_inv_but {p} {wn_session w} s3" using mux_inv_but_settled [OF st] 1(7) j mux_inv_but_mono by blast
      have "wn_session w \<in> dom (map_of (mx_sessions s))" using inv w(2) by (auto simp: mux_inv_but_def sessions_ok_but_def)
      then have k: "wn_session w \<in> dom (map_of (mx_sessions s3))" using st by (simp add: settledD)
      show "safe mux_inv (\<lambda>_ s'. mux_inv s' \<and> mx_sessions s' \<noteq> []) (?rest s3)" unfolding safe_bind safe_and_then safe_ret
      proof (rule window_from_pane_safe [OF inv3 k])
        fix n s4 assume s4: "mux_inv s4" "n \<in> dom (map_of (mx_windows s4))"
        then show "safe mux_inv (\<lambda>_ s'. mux_inv s' \<and> mx_sessions s' \<noteq> []) (layout_changed n s4)"
          using mux_inv_window(3) [OF s4(1)] mux_inv_settled [OF _ s4(1)] mux_inv_window_session [OF s4] by (auto intro!: layout_changed_safe simp: settledD(2))
      qed
    qed
  next
    case (2 j v)
    have "distinct (panes (wn_layout w))" using mux_inv_window(1) [OF assms(1) w(2)] by (simp add: window_fine_def)
    then have "length (panes (wn_layout w)) = card {p}" using 2 w unfolding window_panes_def by (metis Inr_inject distinct_card option.inject)
    then show ?case using len by simp
  qed
  then show ?thesis using True w assms by (auto simp: break_pane_def bt_has_iff)
qed (use assms in \<open>simp add: break_pane_def bt_has_iff\<close>)

definition swap_id :: "nat \<Rightarrow> nat \<Rightarrow> nat \<Rightarrow> nat" where
  "swap_id a b p = (if p = a then b else if p = b then a else p)"

lemma swap_window_simps:
  "wn_layout (swap_window a b wa i w) = layout_swap a b (wn_layout w)"
  "wn_session (swap_window a b wa i w) = wn_session w"
  "wn_active (swap_window a b wa i w) =
    (if wn_active w \<in> set (panes (layout_swap a b (wn_layout w))) then wn_active w else if i = wa then b else a)"
  "set_option (wn_zoom (swap_window a b wa i w)) \<subseteq> set (panes (layout_swap a b (wn_layout w)))"
  by (simp_all add: swap_window_def Let_def split: option.split)

lemma swap_window_fine:
  assumes "window_fine w" "if i = wa then a \<in> window_panes w else b \<in> window_panes w"
  shows "window_fine (swap_window a b wa i w)" "window_panes (swap_window a b wa i w) = swap_id a b ` window_panes w"
proof -
  have p: "set (panes (layout_swap a b (wn_layout w))) = swap_id a b ` window_panes w"
    by (simp add: layout_swap_spec(1) window_panes_def swap_id_def [abs_def])
  show "window_panes (swap_window a b wa i w) = swap_id a b ` window_panes w"
    using p by (simp add: window_panes_def swap_window_simps(1))
  have "inj_on (swap_id a b) A" for A by (auto simp: inj_on_def swap_id_def split: if_splits)
  then have "distinct (map (swap_id a b) (panes (wn_layout w)))" using assms(1) by (simp add: window_fine_def distinct_map)
  then have d: "distinct (panes (layout_swap a b (wn_layout w)))" by (simp add: layout_swap_spec(1) swap_id_def [abs_def])
  have "a \<in> window_panes w \<Longrightarrow> b \<in> swap_id a b ` window_panes w" "b \<in> window_panes w \<Longrightarrow> a \<in> swap_id a b ` window_panes w"
    by (force simp: swap_id_def intro: image_eqI)+
  then have "wn_active (swap_window a b wa i w) \<in> swap_id a b ` window_panes w"
    unfolding swap_window_simps(3) p using assms by (auto simp: window_fine_def)
  then show "window_fine (swap_window a b wa i w)" using assms(1) d p swap_window_simps(4) [of a b wa i w]
    by (simp add: window_fine_def window_panes_def swap_window_simps(1) layout_swap_spec(2))
qed

lemma swap_id_image:
  "a \<in> P \<Longrightarrow> b \<in> P \<Longrightarrow> swap_id a b ` P = P" "a \<in> P \<Longrightarrow> b \<notin> P \<Longrightarrow> swap_id a b ` P = insert b (P - {a})"
  "a \<notin> P \<Longrightarrow> b \<in> P \<Longrightarrow> swap_id a b ` P = insert a (P - {b})"
proof -
  have twice: "swap_id a b (swap_id a b x) = x" for x by (simp add: swap_id_def)
  show "swap_id a b ` P = P" if "a \<in> P" "b \<in> P"
  proof -
    have "swap_id a b x \<in> P" if "x \<in> P" for x using that \<open>a \<in> P\<close> \<open>b \<in> P\<close> by (simp add: swap_id_def)
    then show ?thesis using twice by (metis image_eqI image_subsetI subsetI subset_antisym)
  qed
  show "a \<in> P \<Longrightarrow> b \<notin> P \<Longrightarrow> swap_id a b ` P = insert b (P - {a})" "a \<notin> P \<Longrightarrow> b \<in> P \<Longrightarrow> swap_id a b ` P = insert a (P - {b})"
    unfolding swap_id_def image_def by auto
qed

lemma windows_ok_swap:
  assumes "windows_ok P W" "W i = Some v" "W j = Some u" "i \<noteq> j" "a \<in> window_panes v" "b \<in> window_panes u" "window_fine v'" "window_fine u'"
    "window_panes v' = insert b (window_panes v - {a})" "window_panes u' = insert a (window_panes u - {b})"
  shows "windows_ok P (W(i \<mapsto> v', j \<mapsto> u'))"
proof -
  have vu: "window_panes v \<subseteq> P" "window_panes u \<subseteq> P" "window_panes v \<inter> window_panes u = {}"
    using windows_okD(2) [OF assms(1)] windows_ok_disjoint [OF assms(1-4)] assms(2,3) by blast+
  let ?P = "P - window_panes v - window_panes u"
  have "windows_ok ?P (W(i := None, j := None))"
    using windows_ok_del [OF windows_ok_del [OF assms(1,2)], of j u] assms(3,4) by simp
  moreover have "window_panes v' \<inter> ?P = {}" using assms(6,9) by auto
  ultimately have "windows_ok (?P \<union> window_panes v') (W(i := None, j := None, i \<mapsto> v'))"
    using windows_ok_add [OF _ _ assms(7), of ?P "W(i := None, j := None)" i] assms(4) by simp
  moreover have "window_panes u' \<inter> (?P \<union> window_panes v') = {}" unfolding assms(9,10) using assms(5,6) vu(3) by blast
  ultimately have "windows_ok (?P \<union> window_panes v' \<union> window_panes u') (W(i := None, j := None, i \<mapsto> v', j \<mapsto> u'))"
    using windows_ok_add [OF _ _ assms(8), of "?P \<union> window_panes v'" "W(i := None, j := None, i \<mapsto> v')" j] assms(4) by simp
  moreover have "W(i := None, j := None, i \<mapsto> v', j \<mapsto> u') = W(i \<mapsto> v', j \<mapsto> u')" using assms(4) by (simp add: fun_eq_iff)
  moreover have "?P \<union> window_panes v' \<union> window_panes u' = P" unfolding assms(9,10) using vu assms(5,6) by blast
  ultimately show ?thesis by simp
qed

lemma swap_in_safe:
  assumes "drawable i s" "map_of (mx_windows s) i = Some w" "window_fine w" "if i = wa then a \<in> window_panes w else b \<in> window_panes w"
    "a \<in> dom (map_of (mx_panes s))" "b \<in> dom (map_of (mx_panes s))"
    "\<And>s'. settled (set_window i (swap_window a b wa i w) s) s' \<Longrightarrow> Q () s'"
  shows "safe X Q (swap_in E F a b wa i s)"
proof -
  note f = swap_window_fine [OF assms(3,4)]
  have "window_panes w \<subseteq> dom (map_of (mx_panes s))" using assms(1,2) by (auto simp: drawable_def)
  then have "swap_id a b ` window_panes w \<subseteq> dom (map_of (mx_panes s))" using assms(5,6) unfolding swap_id_def by auto
  moreover have "set_option (wn_zoom (swap_window a b wa i w)) \<subseteq> window_panes (swap_window a b wa i w)" using f(1) by (simp add: window_fine_def)
  ultimately have "drawable i (set_window i (swap_window a b wa i w) s)"
    using assms(1,2) f by (simp add: drawable_def window_fine_def swap_window_simps(2) subset_trans)
  then have "safe X (\<lambda>_ s1. safe X Q (layout_changed i s1)) (mux_resize E F i (set_window i (swap_window a b wa i w) s))"
    by (rule redraw_safe) (rule assms(7))
  then show ?thesis using assms(2) by (simp add: swap_in_def)
qed

lemma mux_inv_maps:
  assumes "mux_inv s"
  shows "ids_ok s" "active_ok s" "windows_ok (dom (map_of (mx_panes s))) (map_of (mx_windows s))"
    "sessions_ok (map_of (mx_windows s)) (map_of (mx_sessions s))"
  using assms by (simp_all add: mux_inv_def mux_inv_but_def)

lemma mux_invI:
  "ids_ok s \<Longrightarrow> active_ok s \<Longrightarrow> windows_ok (dom (map_of (mx_panes s))) (map_of (mx_windows s)) \<Longrightarrow>
    sessions_ok (map_of (mx_windows s)) (map_of (mx_sessions s)) \<Longrightarrow> mux_inv s"
  by (simp add: mux_inv_def mux_inv_but_def)

lemma pane_owner:
  assumes "mux_inv s" "p \<in> dom (map_of (mx_panes s))"
  obtains i w where "window_of p s = Inr i" "map_of (mx_windows s) i = Some w" "p \<in> window_panes w"
  by (rule window_of_known [of "{}" "{}" s p]) (use assms in \<open>auto simp: mux_inv_def\<close>)

text \<open>Panes swapped within a window, and between two windows.\<close>

lemma swap_within_safe:
  assumes "mux_inv s" "map_of (mx_windows s) i = Some w" "a \<in> window_panes w" "b \<in> window_panes w"
  shows "safe mux_inv (\<lambda>_. mux_inv) (swap_in E F a b i i s)"
proof (rule swap_in_safe [OF mux_inv_window(3) [OF assms(1,2)] assms(2) mux_inv_window(1) [OF assms(1,2)]])
  have "if i = i then a \<in> window_panes w else b \<in> window_panes w" using assms(3) by simp
  note f = swap_window_fine [OF mux_inv_window(1) [OF assms(1,2)] this]
  have "mux_inv (set_window i (swap_window a b i i w) s)"
    using mux_inv_set_window_same [OF _ assms(2) f(1) swap_window_simps(2)] f(2) swap_id_image(1) [OF assms(3,4)] assms(1) by (simp add: mux_inv_def)
  then show "mux_inv s'" if "settled (set_window i (swap_window a b i i w) s) s'" for s' using that mux_inv_settled by blast
qed (use assms(3,4) mux_inv_window(2) [OF assms(1,2)] in auto)

lemma swap_between_safe:
  assumes "mux_inv s" "map_of (mx_windows s) i = Some v" "map_of (mx_windows s) j = Some u" "i \<noteq> j" "a \<in> window_panes v" "b \<in> window_panes u"
  shows "safe mux_inv (\<lambda>_ s1. safe mux_inv (\<lambda>_. mux_inv) (swap_in E F a b i j s1)) (swap_in E F a b i i s)"
proof (rule swap_in_safe [OF mux_inv_window(3) [OF assms(1,2)] assms(2) mux_inv_window(1) [OF assms(1,2)]])
  note m = mux_inv_maps [OF assms(1)]
  have ab: "a \<in> dom (map_of (mx_panes s))" "b \<in> dom (map_of (mx_panes s))"
    using mux_inv_window(2) [OF assms(1)] assms(2,3,5,6) by blast+
  then show "a \<in> dom (map_of (mx_panes s))" "b \<in> dom (map_of (mx_panes s))" .
  have disj: "window_panes v \<inter> window_panes u = {}" by (rule windows_ok_disjoint [OF m(3) assms(2-4)])
  let ?v = "swap_window a b i i v" and ?u = "swap_window a b i j u"
  have v: "window_fine ?v" "window_panes ?v = insert b (window_panes v - {a})"
    using swap_window_fine [OF mux_inv_window(1) [OF assms(1,2)], of i i a b] swap_id_image(2) [of a "window_panes v" b] assms(5,6) disj by auto
  have u: "window_fine ?u" "window_panes ?u = insert a (window_panes u - {b})"
    using swap_window_fine [OF mux_inv_window(1) [OF assms(1,3)], of j i a b] swap_id_image(3) [of a "window_panes u" b] assms(4-6) disj by auto
  fix s1 assume st: "settled (set_window i ?v s) s1"
  have w1: "map_of (mx_windows s1) = (map_of (mx_windows s))(i \<mapsto> ?v)" "mx_sessions s1 = mx_sessions s" "mx_active s1 = mx_active s"
    "dom (map_of (mx_panes s1)) = dom (map_of (mx_panes s))" using assms(2) settledD [OF st] by simp_all
  have ids1: "ids_ok s1" using m(1) assms(2) ids_ok_settled [OF st] by simp
  have d: "drawable j s1" using mux_inv_window(3) [OF assms(1,3)] assms(3,4) w1 by (auto simp: drawable_def)
  show "safe mux_inv (\<lambda>_. mux_inv) (swap_in E F a b i j s1)"
  proof (rule swap_in_safe [OF d])
    show "map_of (mx_windows s1) j = Some u" "window_fine u" "if j = i then a \<in> window_panes u else b \<in> window_panes u"
      "a \<in> dom (map_of (mx_panes s1))" "b \<in> dom (map_of (mx_panes s1))"
      using assms(3,4,6) w1 ab mux_inv_window(1) [OF assms(1,3)] by auto
    have j1: "map_of (mx_windows s1) j = Some u" using assms(3,4) w1 by simp
    have W: "map_of (mx_windows (set_window j ?u s1)) = (map_of (mx_windows s))(i \<mapsto> ?v, j \<mapsto> ?u)" using w1 set_window_simps(7) [OF j1] by simp
    have "mux_inv (set_window j ?u s1)"
    proof (rule mux_invI)
      show "ids_ok (set_window j ?u s1)" using ids1 j1 by simp
      show "active_ok (set_window j ?u s1)" using m(2) w1 by (simp add: active_ok_def)
      show "windows_ok (dom (map_of (mx_panes (set_window j ?u s1)))) (map_of (mx_windows (set_window j ?u s1)))"
        unfolding W using windows_ok_swap [OF m(3) assms(2-6) v(1) u(1) v(2) u(2)] w1 by simp
      have "sessions_ok ((map_of (mx_windows s))(i \<mapsto> ?v)) (map_of (mx_sessions s))"
        by (rule sessions_ok_upd [OF m(4) assms(2) swap_window_simps(2)])
      then have "sessions_ok ((map_of (mx_windows s))(i \<mapsto> ?v, j \<mapsto> ?u)) (map_of (mx_sessions s))"
        by (rule sessions_ok_upd [OF _ _ swap_window_simps(2)]) (use assms(3,4) in simp)
      then show "sessions_ok (map_of (mx_windows (set_window j ?u s1))) (map_of (mx_sessions (set_window j ?u s1)))"
        unfolding W using w1 by simp
    qed
    then show "mux_inv s2" if "settled (set_window j ?u s1) s2" for s2 using that mux_inv_settled by blast
  qed
qed (use assms(5) in simp)

lemma mux_swap_safe:
  assumes "mux_inv s"
  shows "safe mux_inv (\<lambda>_. mux_inv) (mux_swap E F a b s)"
proof (cases "a = b \<or> a \<notin> dom (map_of (mx_panes s)) \<or> b \<notin> dom (map_of (mx_panes s))")
  case False
  obtain i v where i: "window_of a s = Inr i" "map_of (mx_windows s) i = Some v" "a \<in> window_panes v" using pane_owner [OF assms] False by metis
  obtain j u where j: "window_of b s = Inr j" "map_of (mx_windows s) j = Some u" "b \<in> window_panes u" using pane_owner [OF assms] False by metis
  show ?thesis
  proof (cases "i = j")
    case True
    then have "safe mux_inv (\<lambda>_. mux_inv) (swap_in E F a b i i s)" using swap_within_safe [OF assms i(2,3)] j i by auto
    then show ?thesis using False i j True by (simp add: mux_swap_def bt_has_iff)
  next
    case F: False
    then show ?thesis using swap_between_safe [OF assms i(2) j(2) F i(3) j(3)] False i j by (simp add: mux_swap_def bt_has_iff)
  qed
qed (use assms in \<open>auto simp: mux_swap_def bt_has_iff\<close>)

text \<open>A pane that moves into another window, or to another place of its own.\<close>

lemma move_into_safe:
  assumes "map_of (mx_windows s) d = Some w" "w' = w\<lparr>wn_layout := layout_insert F dest src horizontal (Some before) (wn_layout w), wn_active := src\<rparr>"
    "drawable d (set_window d w' s)" "\<And>s'. settled (set_window d w' s) s' \<Longrightarrow> Q () s'"
  shows "safe X Q (move_into E F d src dest horizontal before s)"
proof -
  have "safe X (\<lambda>_ s1. safe X (\<lambda>_ s2. Q () (notify (ascii ''%window-pane-changed @'' @ dec_nat d @ ascii '' %'' @ dec_nat src @ [10]) s2)) (layout_changed d s1))
      (mux_resize E F d (set_window d w' s))"
    by (rule redraw_safe [OF assms(3)]) (simp add: assms(4))
  then show ?thesis using assms(1) unfolding assms(2) by (simp add: move_into_def)
qed

lemma move_unlinked_safe:
  assumes "mux_inv_but {src} {} s" "map_of (mx_windows s) d = Some w" "dest \<in> window_panes w"
  shows "safe X (\<lambda>_. mux_inv) (move_into E F d src dest horizontal before s)"
proof (rule move_into_safe [OF assms(2) refl])
  let ?s = "set_window d (w\<lparr>wn_layout := layout_insert F dest src horizontal (Some before) (wn_layout w), wn_active := src\<rparr>) s"
  have inv: "mux_inv ?s" by (rule mux_inv_insert [OF assms refl])
  show "drawable d ?s" using mux_inv_window(3) [OF inv, of d] assms(2) by simp
  show "mux_inv s'" if "settled ?s s'" for s' using mux_inv_settled [OF that inv] .
qed

lemma move_last_safe:
  assumes "mux_inv s" "map_of (mx_windows s) i = Some v" "window_panes v = {src}" "map_of (mx_windows s) d = Some w" "dest \<in> window_panes w" "src \<noteq> dest"
  shows "safe X (\<lambda>_ s1. safe X (\<lambda>_. mux_inv) (remove_window i s1)) (move_into E F d src dest horizontal before s)"
proof (rule move_into_safe [OF assms(4) refl])
  note m = mux_inv_maps [OF assms(1)]
  define w' where "w' = w\<lparr>wn_layout := layout_insert F dest src horizontal (Some before) (wn_layout w), wn_active := src\<rparr>"
  have di: "d \<noteq> i" using assms(2-6) by auto
  have src: "src \<notin> window_panes w" using windows_ok_disjoint [OF m(3) assms(4,2) di] assms(3) by blast
  note w' = insert_window_fine [OF mux_inv_window(1) [OF assms(1,4)] assms(5) src w'_def]
  have "windows_ok (dom (map_of (mx_panes s)) - {src}) ((map_of (mx_windows s))(i := None))" using windows_ok_del [OF m(3) assms(2)] assms(3) by simp
  then have "windows_ok (dom (map_of (mx_panes s))) ((map_of (mx_windows s))(i := None, d \<mapsto> w'))"
  proof (rule windows_ok_upd [OF _ _ w'(1)])
    show "((map_of (mx_windows s))(i := None)) d = Some w" using assms(4) di by simp
    have "src \<in> dom (map_of (mx_panes s))" "window_panes w \<subseteq> dom (map_of (mx_panes s))" using windows_okD(2) [OF m(3)] assms(2-4) by blast+
    then show "dom (map_of (mx_panes s)) = dom (map_of (mx_panes s)) - {src} - window_panes w \<union> window_panes w'" unfolding w'(2) by blast
    show "window_panes w' \<inter> (dom (map_of (mx_panes s)) - {src} - window_panes w) = {}" unfolding w'(2) by blast
  qed
  moreover have "(map_of (mx_windows s))(i := None, d \<mapsto> w') = (map_of (mx_windows s))(d \<mapsto> w', i := None)" using di by (simp add: fun_upd_twist)
  moreover have "sessions_ok ((map_of (mx_windows s))(d \<mapsto> w')) (map_of (mx_sessions s))"
    by (rule sessions_ok_upd [OF m(4) assms(4)]) (simp add: w'_def)
  ultimately have rem: "removable i v (set_window d w' s)" using m assms(2,4) di by (simp add: removable_def active_ok_def)
  have "window_panes w' \<subseteq> dom (map_of (mx_panes s))" using w'(2) windows_okD(2) [OF m(3)] assms(2-4) by blast
  moreover have "set_option (wn_zoom w') \<subseteq> window_panes w'" "wf_layout (wn_layout w')" using w'(1) by (auto simp: window_fine_def)
  moreover have "wn_session w' \<in> dom (map_of (mx_sessions s))" using m(4) assms(4) by (auto simp: w'_def sessions_ok_but_def)
  ultimately show "drawable d (set_window d (w\<lparr>wn_layout := layout_insert F dest src horizontal (Some before) (wn_layout w), wn_active := src\<rparr>) s)"
    using assms(4) by (fold w'_def) (simp add: drawable_def subset_trans)
  show "safe X (\<lambda>_. mux_inv) (remove_window i s1)"
    if "settled (set_window d (w\<lparr>wn_layout := layout_insert F dest src horizontal (Some before) (wn_layout w), wn_active := src\<rparr>) s) s1" for s1
    using remove_window_safe [OF removable_settled [OF that [folded w'_def] rem]] .
qed

lemma move_pane_safe:
  assumes "mux_inv s"
  shows "safe mux_inv (\<lambda>_. mux_inv) (move_pane E F src dest horizontal before s)"
proof (cases "src = dest \<or> src \<notin> dom (map_of (mx_panes s)) \<or> dest \<notin> dom (map_of (mx_panes s))")
  case False
  obtain d w where d: "window_of dest s = Inr d" "map_of (mx_windows s) d = Some w" "dest \<in> window_panes w" using pane_owner [OF assms] False by metis
  let ?into = "move_into E F d src dest horizontal before"
  have "safe mux_inv (\<lambda>x s1. safe mux_inv (\<lambda>_. mux_inv) ((case x of (i, gone) \<Rightarrow> and_then
         (if \<not> gone \<and> i \<noteq> d then and_then (mux_resize E F i) (and_then (layout_changed i) (pane_changed i)) else ret ())
         (and_then ?into (if gone \<and> i \<noteq> d then remove_window i else ret ()))) s1)) (unlink F src s)"
  proof (rule unlink_safe [OF assms], goal_cases)
    case 1
    then show ?case using False by blast
  next
    case (2 i v v')
    have v: "map_of (mx_windows (set_window i v' s)) d = Some (if i = d then v' else w)" "dest \<in> window_panes (if i = d then v' else w)"
    proof -
      show "map_of (mx_windows (set_window i v' s)) d = Some (if i = d then v' else w)" using set_window_simps(7) [OF 2(2)] d(2) by simp
      have "i = d \<Longrightarrow> v = w" using 2(2) d(2) by simp
      then show "dest \<in> window_panes (if i = d then v' else w)" using 2(4) d(3) False by simp
    qed
    have into: "safe mux_inv (\<lambda>_. mux_inv) (?into s2)" if "settled (set_window i v' s) s2" for s2
      by (rule move_unlinked_safe [OF mux_inv_but_settled [OF that 2(7)] _ v(2)]) (use v(1) that in \<open>simp add: settledD\<close>)
    have dr: "drawable i (set_window i v' s)" by (rule drawable_inv [OF 2(7)]) (use 2 in simp)
    have "safe mux_inv (\<lambda>_ s1. safe mux_inv (\<lambda>_ s2. safe mux_inv (\<lambda>_ s3. safe mux_inv (\<lambda>_. mux_inv) (?into s3)) (pane_changed i s2)) (layout_changed i s1))
        (mux_resize E F i (set_window i v' s))"
    proof (rule redraw_safe [OF dr])
      fix s2 assume st: "settled (set_window i v' s) s2"
      show "safe mux_inv (\<lambda>_ s3. safe mux_inv (\<lambda>_. mux_inv) (?into s3)) (pane_changed i s2)"
        by (rule pane_changed_safe [OF drawable_settled [OF st dr]]) (use into settled_trans [OF st] in blast)
    qed
    then show ?case using into by simp
  next
    case (3 i v)
    have "i \<noteq> d" using 3 d False by auto
    then show ?case using move_last_safe [OF assms 3(2,3) d(2,3)] False by simp
  qed
  then show ?thesis using False d by (simp add: move_pane_def bt_has_iff)
qed (use assms in \<open>auto simp: move_pane_def bt_has_iff\<close>)

text \<open>Only the sessions and the notifications change.\<close>

definition resessioned :: "(nat \<rightharpoonup> htm_session) \<Rightarrow> ('t, 's, 'f) mux \<Rightarrow> ('t, 's, 'f) mux \<Rightarrow> bool" where
  "resessioned S s s' \<longleftrightarrow> map_of (mx_sessions s') = S \<and> bt_ok (mx_sessions s') \<and> mx_windows s' = mx_windows s \<and> mx_panes s' = mx_panes s \<and>
    mx_active s' = mx_active s \<and> mx_next_pane s' = mx_next_pane s \<and> mx_next_window s' = mx_next_window s \<and> mx_next_session s' = mx_next_session s"

lemma leave_session_safe:
  assumes "bt_ok (mx_sessions s)" "map_of (mx_sessions s) k = Some ss"
    "\<And>ss' s'. resessioned ((map_of (mx_sessions s))(k \<mapsto> ss')) s s' \<Longrightarrow> sn_windows ss' = filter (\<lambda>x. x \<noteq> i) (sn_windows ss) \<Longrightarrow>
      (sn_windows ss' \<noteq> [] \<Longrightarrow> sn_active ss' = (if sn_active ss = i then last (sn_windows ss') else sn_active ss)) \<Longrightarrow> Q () s'"
  shows "safe X Q (leave_session i k ss s)"
proof -
  let ?left = "filter (\<lambda>x. x \<noteq> i) (sn_windows ss)"
  have l: "sn_windows (leave_window i ss) = ?left" "sn_active (leave_window i ss) = sn_active ss" by (simp_all add: leave_window_def)
  have u: "map_of (bt_update k (\<lambda>ss. ss\<lparr>sn_active := a\<rparr>) (bt_update k (leave_window i) (mx_sessions s))) =
      (map_of (mx_sessions s))(k \<mapsto> (leave_window i ss)\<lparr>sn_active := a\<rparr>)" for a
    using assms(2) by (simp add: map_of_bt_update_Some [where v = "leave_window i ss"])
  show ?thesis
  proof (cases "sn_active ss = i")
    case True
    then show ?thesis using assms(1,2) u l
      by (auto simp: leave_session_def Let_def resessioned_def notify_def
        intro!: assms(3) [of "(leave_window i ss)\<lparr>sn_active := (if ?left = [] then 0 else last ?left)\<rparr>"])
  next
    case False
    then show ?thesis using assms(1,2) l
      by (auto simp: leave_session_def Let_def resessioned_def intro!: assms(3) [of "leave_window i ss"])
  qed
qed

lemma drop_session_safe:
  assumes "ids_ok s" "active_ok s" "windows_ok (dom (map_of (mx_panes s))) (map_of (mx_windows s))"
    "sessions_ok_but K (map_of (mx_windows s)) (map_of (mx_sessions s))" "map_of (mx_sessions s) old = Some ss" "session \<in> dom (map_of (mx_sessions s))"
    "K = (if old \<noteq> session \<and> sn_windows ss = [] then {old} else {})"
  shows "safe X (\<lambda>_. mux_inv) (drop_session old session s)"
proof (cases "old \<noteq> session \<and> sn_windows ss = []")
  case True
  let ?s = "s\<lparr>mx_sessions := bt_remove old (mx_sessions s), mx_options := drop_options 32 old (mx_options s)\<rparr>"
  have k: "sessions_ok (map_of (mx_windows s)) ((map_of (mx_sessions s))(old := None))"
    by (rule sessions_ok_drop [where ss = ss]) (use assms(4,5,7) True in simp_all)
  have ids: "ids_ok (?s\<lparr>mx_active := a\<rparr>)" for a using assms(1) by (auto simp: ids_ok_def)
  have ne: "bt_remove old (mx_sessions s) \<noteq> []" using assms(6) True map_of_bt_remove [of old "mx_sessions s"] by (metis domIff fun_upd_apply map_of.simps(1))
  have inv: "mux_inv (?s\<lparr>mx_active := a\<rparr>)" if "a \<in> dom ((map_of (mx_sessions s))(old := None))" for a
    by (rule mux_invI) (use ids k ne that assms(3) in \<open>auto simp: active_ok_def\<close>)
  show ?thesis
  proof (cases "mx_active s = old")
    case act: True
    let ?n = "notify (ascii ''%sessions-changed'' @ [10]) ?s\<lparr>mx_active := session\<rparr>"
    have n: "mux_inv ?n" "mx_active ?n \<in> dom (map_of (mx_sessions ?n))" using inv [of session] assms(6) True by (auto simp: notify_def mux_inv_def mux_inv_but_def ids_ok_def active_ok_def)
    have "safe X (\<lambda>_. mux_inv) (session_changed ?n)" by (rule session_changed_safe [OF n(2)]) (rule mux_inv_settled [OF _ n(1)])
    then show ?thesis using True act assms(5) by (simp add: drop_session_def)
  next
    case act: False
    have "mx_active s \<in> dom ((map_of (mx_sessions s))(old := None))" using assms(2,5) act by (auto simp: active_ok_def split: if_splits)
    from inv [OF this] have "mux_inv ?s" by simp
    then show ?thesis using True act assms(5) by (simp add: drop_session_def)
  qed
next
  case False
  have "mux_inv s" using assms(1-4,7) False by (intro mux_invI) auto
  then show ?thesis using False assms(5) by (auto simp: drop_session_def)
qed

lemma move_window_safe:
  assumes "mux_inv s"
  shows "safe mux_inv (\<lambda>_. mux_inv) (move_window i session s)"
proof (cases "i \<in> dom (map_of (mx_windows s)) \<and> session \<in> dom (map_of (mx_sessions s))")
  case True
  note m = mux_inv_maps [OF assms]
  obtain w where w: "map_of (mx_windows s) i = Some w" using True by blast
  let ?k = "wn_session w" and ?S = "map_of (mx_sessions s)" and ?W = "map_of (mx_windows s)"
  obtain ss where ss: "?S ?k = Some ss" using sessions_okD(1) [OF m(4) w] by blast
  have "safe mux_inv (\<lambda>_ s1. safe mux_inv (\<lambda>_ s2. safe mux_inv (\<lambda>_. mux_inv) (drop_session ?k session s2)) (enter_session i session s1)) (leave_session i ?k ss s)"
  proof (rule leave_session_safe [OF _ ss])
    show "bt_ok (mx_sessions s)" using m(1) by (simp add: ids_ok_def)
    fix ss' s1 assume s1: "resessioned (?S(?k \<mapsto> ss')) s s1" and left: "sn_windows ss' = filter (\<lambda>x. x \<noteq> i) (sn_windows ss)"
      "sn_windows ss' \<noteq> [] \<Longrightarrow> sn_active ss' = (if sn_active ss = i then last (sn_windows ss') else sn_active ss)"
    let ?K = "if sn_windows ss' = [] then {?k} else {}"
    have l: "sessions_ok_but ?K (?W(i := None)) (?S(?k \<mapsto> ss'))" by (rule sessions_ok_leave [OF m(4) w ss left])
    obtain t where t: "(?S(?k \<mapsto> ss')) session = Some t" using True by fastforce
    define w' where "w' = w\<lparr>wn_session := session, wn_order := length (sn_windows t)\<rparr>"
    define t' where "t' = t\<lparr>sn_windows := sn_windows t @ [i], sn_active := i\<rparr>"
    define s2 where "s2 = notify (ascii ''%session-window-changed $'' @ dec_nat session @ ascii '' @'' @ dec_nat i @ [10])
      ((set_window i w' s1)\<lparr>mx_sessions := bt_update session (\<lambda>ss. ss\<lparr>sn_windows := sn_windows ss @ [i], sn_active := i\<rparr>) (mx_sessions s1)\<rparr>)"
    have "sessions_ok_but (insert session (?K - {session})) (?W(i := None)) (?S(?k \<mapsto> ss'))" using l unfolding sessions_ok_but_def by blast
    then have "sessions_ok_but (?K - {session} - {session}) (?W(i := None, i \<mapsto> w')) (?S(?k \<mapsto> ss', session \<mapsto> t'))"
      by (rule sessions_ok_add [where ss = t]) (use t in \<open>simp_all add: w'_def t'_def\<close>)
    then have a: "sessions_ok_but (?K - {session}) (?W(i \<mapsto> w')) (?S(?k \<mapsto> ss', session \<mapsto> t'))" by (simp only: fun_upd_upd Diff_idemp)
    have f: "map_of (mx_windows s2) = ?W(i \<mapsto> w')" "map_of (mx_sessions s2) = ?S(?k \<mapsto> ss', session \<mapsto> t')" "mx_panes s2 = mx_panes s" "mx_active s2 = mx_active s"
      using s1 w t by (auto simp: s2_def resessioned_def notify_def t'_def)
    have ids: "ids_ok s2" using m(1) s1 w ss True f by (auto simp: ids_ok_def resessioned_def s2_def notify_def)
    have "mx_active s \<in> dom ?S" using m(2) ss by (auto simp: active_ok_def split: if_splits)
    then have act: "active_ok s2" using f by (intro active_okI) auto
    have fine: "window_fine w'" "window_panes w' = window_panes w" using mux_inv_window(1) [OF assms w] by (simp_all add: w'_def window_fine_def window_panes_def)
    have win: "windows_ok (dom (map_of (mx_panes s2))) (map_of (mx_windows s2))"
      unfolding f(1,3) by (rule windows_ok_upd [OF m(3) w fine(1)]) (use fine(2) windows_okD(2) [OF m(3) w] in auto)
    have "safe mux_inv (\<lambda>_. mux_inv) (drop_session ?k session s2)"
    proof (rule drop_session_safe [OF ids act win])
      show "sessions_ok_but (?K - {session}) (map_of (mx_windows s2)) (map_of (mx_sessions s2))" using a f by simp
      show "map_of (mx_sessions s2) ?k = Some (if ?k = session then t' else ss')" "session \<in> dom (map_of (mx_sessions s2))" using f by auto
      show "?K - {session} = (if ?k \<noteq> session \<and> sn_windows (if ?k = session then t' else ss') = [] then {?k} else {})" by auto
    qed
    then show "safe mux_inv (\<lambda>_ s2. safe mux_inv (\<lambda>_. mux_inv) (drop_session ?k session s2)) (enter_session i session s1)"
      using s1 w t by (simp add: enter_session_def resessioned_def s2_def w'_def)
  qed
  then show ?thesis using True w ss by (auto simp: move_window_def bt_has_iff)
qed (use assms in \<open>auto simp: move_window_def bt_has_iff split: option.split\<close>)

section \<open>Polling, attaching and dumping\<close>

lemma mux_inv_set_pane: "mux_inv s \<Longrightarrow> mux_inv (set_pane i p s)"
  by (rule mux_inv_settled [of s]) (auto simp: settled_def set_pane_def)

lemma mux_inv_gates [simp]: "mux_inv (s\<lparr>mx_pane_gates := g\<rparr>) = mux_inv s"
  by (simp add: mux_inv_def mux_inv_but_def ids_ok_def active_ok_def)

lemma mux_inv_options [simp]: "mux_inv (s\<lparr>mx_options := g\<rparr>) = mux_inv s"
  by (simp add: mux_inv_def mux_inv_but_def ids_ok_def active_ok_def)

lemma mux_inv_rename: 
  assumes "mux_inv s" 
  shows "mux_inv (rename_window E i t s)"
proof (cases "find (\<lambda>e. wn_active (snd e) = i \<and> wn_automatic_rename (snd e)) (mx_windows s)")
  case (Some e)
  obtain wid w where e: "e = (wid, w)" by fastforce
  have "(wid, w) \<in> set (mx_windows s)" using Some e by (auto simp: find_Some_iff)
  then have w: "map_of (mx_windows s) wid = Some w" using mux_inv_ids [OF assms] by (simp add: ids_ok_def bt_get_iff)
  have "mux_inv (set_window wid (w\<lparr>wn_name := c\<rparr>) s)" for c
    using mux_inv_set_window_same [OF _ w, of "{}" "{}" "w\<lparr>wn_name := c\<rparr>"] mux_inv_window(1) [OF assms w] assms
    by (simp add: mux_inv_def window_fine_def window_panes_def)
  then show ?thesis using Some e assms by (simp add: rename_window_def Let_def)
qed (use assms in \<open>simp add: rename_window_def\<close>)

lemma mux_inv_poll_pane: "mux_inv s \<Longrightarrow> mux_inv (snd (snd (poll_pane E no_output extended pause i (output, exited, s))))"
  by (auto simp: poll_pane_def Let_def mux_inv_set_pane mux_inv_rename split: option.split prod.split)

lemma mux_inv_poll_panes:
  "mux_inv (snd (snd x)) \<Longrightarrow> mux_inv (snd (snd (fold (poll_pane E no_output extended pause) is x)))"
proof (induction "is" arbitrary: x)
  case (Cons i "is")
  have "mux_inv (snd (snd (poll_pane E no_output extended pause i x)))" using mux_inv_poll_pane Cons.prems by (metis prod.collapse)
  then show ?case using Cons.IH by simp
qed simp

lemma mux_poll_safe:
  assumes "mux_inv s"
  shows "safe mux_inv (\<lambda>_. mux_inv) (mux_poll E F no_output extended pause s)"
proof -
  obtain out exited s1 where p: "fold (poll_pane E no_output extended pause) (bt_keys (mx_panes s)) ([], [], s) = (out, exited, s1)"
    by (metis prod.collapse)
  have "mux_inv s1" using mux_inv_poll_panes [of "([], [], s)" E no_output extended pause "bt_keys (mx_panes s)"] assms p by simp
  then have "safe mux_inv (\<lambda>_. mux_inv) (for_each (\<lambda>i. ignore (mux_close E F i)) exited s1)"
    by (rule safe_for_each) (simp add: mux_close_safe)
  then show ?thesis using p by (simp add: mux_poll_def)
qed

lemma attach_notifications_safe: 
  assumes "mux_inv s" 
  shows "safe mux_inv (\<lambda>_. mux_inv) (attach_notifications s)"
proof (cases "map_of (mx_sessions s) (mx_active s)")
  case (Some ss)
  have "safe mux_inv (\<lambda>_. mux_inv) (session_changed s')" if "mux_inv s'" "map_of (mx_sessions s') (mx_active s') = Some ss" for s' :: "('a, 'b, 'c) mux"
    by (rule session_changed_safe) (use that mux_inv_settled in auto)
  then show ?thesis using Some assms
    by (auto simp: attach_notifications_def notify_def mux_inv_def mux_inv_but_def ids_ok_def active_ok_def)
qed (use assms in \<open>simp add: attach_notifications_def\<close>)

lemma mux_inv_detach: "mux_inv s \<Longrightarrow> mux_inv (detach s)"
  by (simp add: detach_def split: option.split)

lemma dump_pane_safe:
  assumes "settled s0 s" "pid \<in> dom (map_of (mx_panes s0))"
  shows "safe (settled s0) (\<lambda>_. settled s0) (dump_pane E ss wid w pid out s)"
proof -
  obtain p where p: "map_of (mx_panes s) pid = Some p" using assms settledD(5) by blast
  have "settled s0 (set_pane pid q s)" for q
    using assms(1) by (rule settled_trans) (auto simp: settled_def set_pane_def)
  then show ?thesis using p by (auto simp: dump_pane_def Let_def split: prod.split sum.split)
qed

lemma dump_panes_safe:
  assumes "mux_inv s"
  shows "safe mux_inv (\<lambda>_. mux_inv) (dump_panes E s)"
proof -
  have "safe (settled s) (\<lambda>_. settled s) (fold_action (\<lambda>ss. fold_action (dump_window E ss) (sn_windows ss)) (map snd (mx_sessions s)) out s)" for out
  proof (rule safe_fold_action [where I = "settled s"])
    fix ss acc s1 assume ss: "ss \<in> set (map snd (mx_sessions s))" and s1: "settled s s1"
    show "safe (settled s) (\<lambda>_. settled s) (fold_action (dump_window E ss) (sn_windows ss) acc s1)"
    proof (rule safe_fold_action [where I = "settled s", OF s1])
      fix wid acc s2 assume wid: "wid \<in> set (sn_windows ss)" and s2: "settled s s2"
      obtain k where "(k, ss) \<in> set (mx_sessions s)" using ss by auto
      then have "map_of (mx_sessions s) k = Some ss" using mux_inv_ids [OF assms] by (simp add: ids_ok_def bt_get_iff)
      then obtain w where w: "map_of (mx_windows s) wid = Some w" using sessions_okD(2) [OF mux_inv_maps(4) [OF assms]] wid by blast
      have "safe (settled s) (\<lambda>_. settled s) (fold_action (dump_pane E ss wid w) (panes (wn_layout w)) acc s2)"
        by (rule safe_fold_action [where I = "settled s", OF s2], rule dump_pane_safe)
          (use mux_inv_window(2) [OF assms w] in \<open>auto simp: window_panes_def\<close>)
      then show "safe (settled s) (\<lambda>_. settled s) (dump_window E ss wid acc s2)" using w s2 by (simp add: dump_window_def settledD)
    qed
  qed simp
  then show ?thesis unfolding dump_panes_def safe_with_state
    by (rule safe_mono) (use assms mux_inv_settled in blast)+
qed

section \<open>A first state\<close>

definition sample_env :: "(unit, unit) pane_env" where
  "sample_env = \<lparr>pe_screen = (\<lambda>_ _. Inr ()), pe_start = (\<lambda>_ _ _. Inr ()), pe_cwd = (\<lambda>_. [47]), pe_update_size = (\<lambda>_ _ t. t), pe_poll = (\<lambda>t. ([], t)),
     pe_running = (\<lambda>_. True), pe_command = (\<lambda>_. ascii ''sh''), pe_pid = (\<lambda>_. Some 7), pe_append = (\<lambda>_ t. (Inr (), t)),
     pe_resize = (\<lambda>_ _ s. (Inr (), s)), pe_process = (\<lambda>_ s. (Inr (), s)), pe_poisoned = (\<lambda>_. False), pe_cursor = (\<lambda>_. (0, 0)),
     pe_hide_cursor = (\<lambda>_. False), pe_alternate = (\<lambda>_. False), pe_capture = (\<lambda>_ s. (Inr [], s))\<rparr>"

definition sample_mux :: "(unit, unit, nat) mux" where
  "sample_mux = snd (mux_new sample_env sample_floats)"

lemma sample_mux_runs: "fst (mux_new sample_env sample_floats) = Ok ()"
  by code_simp

lemma sample_mux_inv: "mux_inv sample_mux"
  using mux_new_safe [of sample_env sample_floats] sample_mux_runs
  by (cases "mux_new sample_env sample_floats") (simp add: safe_def sample_mux_def)

end
