(* ===== verification/Htm_Formats.thy ===== *)
theory Htm_Formats
  imports Htm_Invariant
begin

text \<open>
  \<^verbatim>\<open>crates/et-htm/src/formats.rs\<close>: the expansion of \<open>#{...}\<close> formats with conditionals. The expansion is a partial
  function whose value is \<^const>\<open>None\<close> if it does not return; it always returns, and its result is bounded.
\<close>

section \<open>Definitions\<close>

definition fmt_append :: "bytes \<Rightarrow> bytes \<Rightarrow> bytes outcome" where
  "fmt_append out value = (if MAX_QUEUE div 2 - length out < length value then Err (ascii ''format exceeds reply size limit'') else Ok (out @ value))"

text \<open>\<^verbatim>\<open>rest.find("#{")\<close>: what is before it and what follows it.\<close>

fun find_open :: "bytes \<Rightarrow> (bytes \<times> bytes) option" where
  "find_open (a # b # r) = (if a = 35 \<and> b = 123 then Some ([], r) else map_option (\<lambda>(before, after). (a # before, after)) (find_open (b # r)))"
| "find_open _ = None"

text \<open>The brace that closes the format, and what follows it.\<close>

fun find_close :: "nat \<Rightarrow> bytes \<Rightarrow> (bytes \<times> bytes) option" where
  "find_close nesting [] = None"
| "find_close nesting (c # cs) =
    (let n = (if c = 123 then nesting + 1 else if c = 125 then nesting - 1 else nesting)
     in if n = 0 then Some ([], cs) else map_option (\<lambda>(body, after). (c # body, after)) (find_close n cs))"

text \<open>The parts of a conditional, separated by commas outside braces.\<close>

fun split_parts :: "int \<Rightarrow> bytes \<Rightarrow> bytes list" where
  "split_parts nesting [] = [[]]"
| "split_parts nesting (c # cs) =
    (if c = 44 \<and> nesting = 0 then [] # split_parts nesting cs
     else
       let n = (if c = 123 then nesting + 1 else if c = 125 then nesting - 1 else nesting)
       in case split_parts n cs of p # ps \<Rightarrow> (c # p) # ps | [] \<Rightarrow> [[c]])"

definition format_key :: "bytes \<Rightarrow> bytes" where
  "format_key body = (case strip_prefix (ascii ''q:'') body of Some k \<Rightarrow> k | None \<Rightarrow> body)"

definition chosen_part :: "bytes \<Rightarrow> bytes list \<Rightarrow> bytes" where
  "chosen_part value parts =
    (let i = (if value = [] \<or> value = [48] then 2 else 1) in if i < length parts then parts ! i else [])"

text \<open>\<^verbatim>\<open>expand_at\<close> from the loop on: \<open>look\<close> is \<^verbatim>\<open>one\<close>, and a recursive call first checks its depth.\<close>

partial_function (option) expand_from :: "(bytes \<Rightarrow> bytes outcome) \<Rightarrow> nat \<Rightarrow> bytes \<Rightarrow> bytes \<Rightarrow> bytes outcome option" where
  "expand_from look depth rest out =
    (if 64 \<le> depth then Some (Err (ascii ''format nesting limit reached''))
     else case find_open rest of
       None \<Rightarrow> Some (fmt_append out rest)
     | Some (before, inner) \<Rightarrow>
       (case fmt_append out before of
          Ok out1 \<Rightarrow>
            (case find_close 1 inner of
               None \<Rightarrow> Some (fmt_append out1 (drop (length before) rest))
             | Some (body, after) \<Rightarrow>
               (case strip_prefix [63] (format_key body) of
                  Some condition \<Rightarrow>
                    Option.bind
                      (if contains_str (ascii ''#{'') (hd (split_parts 0 condition))
                       then expand_from look (depth + 1) (hd (split_parts 0 condition)) []
                       else Some (look (hd (split_parts 0 condition))))
                      (\<lambda>r. case r of
                         Ok value \<Rightarrow>
                           Option.bind (expand_from look (depth + 1) (chosen_part value (split_parts 0 condition)) [])
                             (\<lambda>r. case r of
                                Ok v \<Rightarrow> (case fmt_append out1 v of Ok out2 \<Rightarrow> expand_from look depth after out2 | e \<Rightarrow> Some e)
                              | e \<Rightarrow> Some e)
                       | e \<Rightarrow> Some e)
                | None \<Rightarrow>
                    (case look (format_key body) of
                       Ok v \<Rightarrow> (case fmt_append out1 v of Ok out2 \<Rightarrow> expand_from look depth after out2 | e \<Rightarrow> Some e)
                     | e \<Rightarrow> Some e)))
        | e \<Rightarrow> Some e))"

definition expand :: "(bytes \<Rightarrow> bytes outcome) \<Rightarrow> bytes \<Rightarrow> bytes outcome option" where
  "expand look template = expand_from look 0 template []"

definition flag_text :: "bool \<Rightarrow> bytes" where
  "flag_text b = (if b then [49] else [48])"

text \<open>The tables of \<^verbatim>\<open>one\<close>: keys with a fixed value, of a session, of a window and of a pane.\<close>

definition fixed_keys :: "(bytes \<times> bytes) list" where
  "fixed_keys = [(ascii ''version'', ascii ''3.5a''), (ascii ''socket_path'', ascii ''htm''), (ascii ''pid'', ascii ''0''),
     (ascii ''pane-border-status'', ascii ''off''), (ascii ''pane_border_status'', ascii ''off'')]"

definition session_keys :: "nat \<Rightarrow> htm_session \<Rightarrow> (bytes \<times> bytes) list" where
  "session_keys session ss = [(ascii ''session_id'', [36] @ dec_nat session), (ascii ''session_name'', sn_name ss)]"

definition of_layout :: "bytes option \<Rightarrow> bytes outcome" where
  "of_layout l = (case l of Some b \<Rightarrow> Ok b | None \<Rightarrow> Panic)"

definition window_keys ::
    "('t, 's, 'f) mux \<Rightarrow> htm_session option \<Rightarrow> bytes \<Rightarrow> nat \<Rightarrow> 'f htm_window \<Rightarrow> (bytes \<times> bytes outcome) list" where
  "window_keys s ss flags i w =
    [(ascii ''window_id'', Ok ([64] @ dec_nat i)), (ascii ''window_name'', Ok (wn_name w)), (ascii ''window_index'', Ok (dec_nat (wn_order w))),
     (ascii ''window_layout'', of_layout (mux_layout i False s)), (ascii ''window_visible_layout'', of_layout (mux_layout i True s)),
     (ascii ''window_flags'', Ok (if flags = [] then [45] else flags)), (ascii ''window_raw_flags'', Ok flags),
     (ascii ''window_width'', Ok (dec_nat (r_cols (wn_rect w)))), (ascii ''window_height'', Ok (dec_nat (r_rows (wn_rect w)))),
     (ascii ''window_active'', Ok (flag_text (case ss of Some x \<Rightarrow> sn_active x = i | None \<Rightarrow> False))), (ascii ''history_limit'', Ok (ascii ''2000''))]"

definition zero_keys :: "bytes list" where
  "zero_keys = map ascii [''alternate_saved_x'', ''alternate_saved_y'', ''insert_flag'', ''wrap_flag'', ''keypad_flag'', ''keypad_cursor_flag'',
     ''origin_flag'', ''focus_flag'', ''bracketed_paste'', ''scroll_region_upper'', ''mouse_standard_flag'', ''mouse_button_flag'',
     ''mouse_any_flag'', ''mouse_utf8_flag'', ''mouse_sgr_flag'', ''cursor_shape'', ''cursor_blinking'']"

definition pane_active :: "('t, 's, 'f) mux \<Rightarrow> nat \<Rightarrow> bytes outcome" where
  "pane_active s i =
    (case window_of i s of
       Inl e \<Rightarrow> Ok [48]
     | Inr w \<Rightarrow> (case map_of (mx_windows s) w of None \<Rightarrow> Panic | Some window \<Rightarrow> Ok (flag_text (wn_active window = i))))"

definition pane_keys :: "('t, 's) pane_env \<Rightarrow> ('t, 's, 'f) mux \<Rightarrow> nat \<Rightarrow> ('t, 's) htm_pane \<Rightarrow> (bytes \<times> bytes outcome) list" where
  "pane_keys E s i p =
    [(ascii ''pane_id'', Ok ([37] @ dec_nat i)), (ascii ''pane_width'', Ok (dec_nat (r_cols (pn_rect p)))),
     (ascii ''pane_height'', Ok (dec_nat (r_rows (pn_rect p)))), (ascii ''pane_left'', Ok (dec_nat (r_x (pn_rect p)))),
     (ascii ''pane_top'', Ok (dec_nat (r_y (pn_rect p)))), (ascii ''pane_index'', Ok [48]), (ascii ''pane_title'', Ok (pn_title p)),
     (ascii ''pane_current_path'', Ok (from_utf8_lossy (pe_cwd E (pn_terminal p)))),
     (ascii ''pane_current_command'', Ok (pe_command E (pn_terminal p))), (ascii ''pane_dead'', Ok (flag_text (\<not> pe_running E (pn_terminal p)))),
     (ascii ''pane_pid'', Ok (dec_nat (case pe_pid E (pn_terminal p) of Some n \<Rightarrow> n | None \<Rightarrow> 0))), (ascii ''pane_active'', pane_active s i),
     (ascii ''cursor_x'', Ok (dec_nat (snd (pe_cursor E (pn_screen p))))), (ascii ''cursor_y'', Ok (dec_nat (fst (pe_cursor E (pn_screen p))))),
     (ascii ''cursor_flag'', Ok (flag_text (\<not> pe_hide_cursor E (pn_screen p)))), (ascii ''alternate_on'', Ok (flag_text (pe_alternate E (pn_screen p)))),
     (ascii ''scroll_region_lower'', Ok (dec_nat (r_rows (pn_rect p) - 1)))] @ map (\<lambda>k. (k, Ok [48])) zero_keys"

definition format_pane :: "('t, 's) pane_env \<Rightarrow> ('t, 's, 'f) mux \<Rightarrow> nat option \<Rightarrow> bytes \<Rightarrow> bytes outcome" where
  "format_pane E s pane key =
    (case Option.bind pane (\<lambda>i. map_option (Pair i) (map_of (mx_panes s) i)) of
       None \<Rightarrow> Ok []
     | Some (i, p) \<Rightarrow> (case map_of (pane_keys E s i p) key of Some v \<Rightarrow> v | None \<Rightarrow> Ok []))"

definition format_window :: "('t, 's) pane_env \<Rightarrow> ('t, 's, 'f) mux \<Rightarrow> htm_session option \<Rightarrow> nat option \<Rightarrow> nat option \<Rightarrow> bytes \<Rightarrow> bytes outcome" where
  "format_window E s ss window pane key =
    (case Option.bind window (\<lambda>i. map_option (Pair i) (map_of (mx_windows s) i)) of
       None \<Rightarrow> format_pane E s pane key
     | Some (i, w) \<Rightarrow>
         (case map_of (mx_sessions s) (wn_session w) of
            None \<Rightarrow> Panic
          | Some owner \<Rightarrow>
              (case map_of (window_keys s ss (window_flags owner i w) i w) key of
                 Some v \<Rightarrow> v | None \<Rightarrow> format_pane E s pane key)))"

definition format_one ::
    "('t, 's) pane_env \<Rightarrow> ('t, 's, 'f) mux \<Rightarrow> nat \<Rightarrow> nat option \<Rightarrow> nat option \<Rightarrow> bytes \<Rightarrow> bytes outcome" where
  "format_one E s session window pane key =
    (let ss = map_of (mx_sessions s) session in
     if strip_prefix [64] key \<noteq> None \<and> ss \<noteq> None then Ok (or_empty (map_of (mx_options s) (32, session, key)))
     else case map_of fixed_keys key of
       Some v \<Rightarrow> Ok v
     | None \<Rightarrow>
         (case Option.bind ss (\<lambda>x. map_of (session_keys session x) key) of
            Some v \<Rightarrow> Ok v
          | None \<Rightarrow> format_window E s ss window pane key))"

section \<open>Expansion returns\<close>

lemma find_open_length: "find_open rest = Some (before, inner) \<Longrightarrow> length rest = length before + 2 + length inner"
  by (induction rest arbitrary: before inner rule: find_open.induct) (auto split: if_splits)

lemma find_close_length: "find_close n cs = Some (body, after) \<Longrightarrow> length cs = length body + 1 + length after"
  by (induction n cs arbitrary: body rule: find_close.induct) (auto simp: Let_def split: if_splits)

lemma split_parts_nonempty [simp]: "split_parts n cs \<noteq> []"
  by (induction n cs rule: split_parts.induct) (simp_all add: Let_def split: list.split)

lemma split_parts_length: "p \<in> set (split_parts n cs) \<Longrightarrow> length p \<le> length cs"
proof (induction n cs arbitrary: p rule: split_parts.induct)
  case (2 n c cs)
  show ?case
  proof (cases "c = 44 \<and> n = 0")
    case True
    then show ?thesis using 2 by fastforce
  next
    case False
    let ?n = "if c = 123 then n + 1 else if c = 125 then n - 1 else n"
    obtain a ps where e: "split_parts ?n cs = a # ps" by (cases "split_parts ?n cs") simp_all
    have "split_parts n (c # cs) = (c # a) # ps" using False by (simp only: split_parts.simps if_False Let_def e list.case)
    then have "p = c # a \<or> p \<in> set ps" using 2(3) by auto
    then show ?thesis using 2(2) [OF False refl] e by fastforce
  qed
qed simp

lemma chosen_part_length: "length (chosen_part v (split_parts n cs)) \<le> length cs"
  by (auto simp: chosen_part_def Let_def intro: split_parts_length nth_mem)

lemma format_key_length: "length (format_key body) \<le> length body"
  by (auto simp: format_key_def strip_prefix_Some split: option.splits)

lemma fmt_append_bound: "fmt_append out v = Ok out' \<Longrightarrow> length out' \<le> max (length out) (MAX_QUEUE div 2)"
  by (auto simp: fmt_append_def split: if_splits)

text \<open>What may come out of an expansion: never a panic the lookups do not have, and never more than half of the queue.\<close>

definition bounded_text :: "(bytes \<Rightarrow> bytes outcome) \<Rightarrow> bytes outcome \<Rightarrow> bool" where
  "bounded_text look r \<longleftrightarrow> (case r of Ok v \<Rightarrow> length v \<le> MAX_QUEUE div 2 | Err e \<Rightarrow> True | Panic \<Rightarrow> \<exists>k. look k = Panic)"

definition returns :: "(bytes \<Rightarrow> bytes outcome) \<Rightarrow> bytes outcome option \<Rightarrow> bool" where
  "returns look x \<longleftrightarrow> (\<exists>r. x = Some r \<and> bounded_text look r)"

lemma returns_simps [simp]:
  "returns look (Some (Err e))" "returns look (Some Panic) \<longleftrightarrow> (\<exists>k. look k = Panic)"
  by (simp_all add: returns_def bounded_text_def)

lemma returns_append: "length out \<le> MAX_QUEUE div 2 \<Longrightarrow> returns look (Some (fmt_append out v))"
  by (auto simp: returns_def bounded_text_def fmt_append_def)

lemma fmt_append_cases:
  assumes "length out \<le> MAX_QUEUE div 2"
  obtains out' where "fmt_append out v = Ok out'" "length out' \<le> MAX_QUEUE div 2" | e where "fmt_append out v = Err e"
proof (cases "MAX_QUEUE div 2 - length out < length v")
  case True
  then show ?thesis using that(2) by (simp add: fmt_append_def)
next
  case False
  then show ?thesis using that(1) [of "out @ v"] assms by (simp add: fmt_append_def)
qed

text \<open>A value that comes, and what is done with it.\<close>

definition comes :: "(bytes \<Rightarrow> bytes outcome) \<Rightarrow> bytes outcome option \<Rightarrow> bool" where
  "comes look x \<longleftrightarrow> (\<exists>r. x = Some r \<and> (r = Panic \<longrightarrow> (\<exists>k. look k = Panic)))"

lemma comes_intros: "comes look (Some (look k))" "returns look x \<Longrightarrow> comes look x"
  by (auto simp: comes_def returns_def bounded_text_def)

lemma returns_bind:
  assumes "comes look x" "\<And>v. returns look (f v)"
  shows "returns look (Option.bind x (\<lambda>r. case r of Ok v \<Rightarrow> f v | Err e \<Rightarrow> Some (Err e) | Panic \<Rightarrow> Some Panic))"
  using assms(1) unfolding comes_def by (auto simp: assms(2) split: outcome.split)

text \<open>A value is appended and the loop goes on.\<close>

lemma returns_continue:
  assumes "length out \<le> MAX_QUEUE div 2" "\<And>out'. length out' \<le> MAX_QUEUE div 2 \<Longrightarrow> returns look (expand_from look depth after out')"
  shows "returns look (case fmt_append out v of Ok out2 \<Rightarrow> expand_from look depth after out2 | e \<Rightarrow> Some e)"
  by (rule fmt_append_cases [OF assms(1), of v]) (simp_all add: assms(2))

lemma expand_from_returns: "length out \<le> MAX_QUEUE div 2 \<Longrightarrow> returns look (expand_from look depth rest out)"
proof (induction "length rest" arbitrary: depth rest out rule: less_induct)
  case less
  consider "64 \<le> depth" | "\<not> 64 \<le> depth" "find_open rest = None"
    | before inner where "\<not> 64 \<le> depth" "find_open rest = Some (before, inner)" by fastforce
  then show ?case
  proof cases
    case (3 before inner)
    show ?thesis
    proof (rule fmt_append_cases [OF less.prems, of before])
      fix out1 assume o: "fmt_append out before = Ok out1" "length out1 \<le> MAX_QUEUE div 2"
      show ?thesis
      proof (cases "find_close 1 inner")
        case None
        then show ?thesis using 3 o returns_append by (subst expand_from.simps) simp
      next
        case (Some x)
        obtain body after where x: "x = (body, after)" by fastforce
        have len: "length body < length rest" "length after < length rest"
          using find_open_length [OF 3(2)] find_close_length [of 1 inner body after] Some x by simp_all
        have go: "returns look (case fmt_append out1 v of Ok out2 \<Rightarrow> expand_from look depth after out2 | e \<Rightarrow> Some e)" for v
          by (rule returns_continue [OF o(2)]) (rule less.hyps [OF len(2)])
        show ?thesis
        proof (cases "strip_prefix [63] (format_key body)")
          case None
          then show ?thesis using 3 o Some x go by (subst expand_from.simps) (auto split: outcome.split)
        next
          case (Some condition)
          have c: "length condition < length rest" using Some format_key_length [of body] len(1) by (auto simp: strip_prefix_Some)
          have cond: "returns look (expand_from look (depth + 1) (hd (split_parts 0 condition)) [])"
            by (rule less.hyps) (use c split_parts_length [OF hd_in_set [OF split_parts_nonempty], of 0 condition] in auto)
          have part: "returns look (expand_from look (depth + 1) (chosen_part v (split_parts 0 condition)) [])" for v
            by (rule less.hyps) (use c chosen_part_length [of v 0 condition] in auto)
          let ?next = "\<lambda>r. case r of Ok v \<Rightarrow> (case fmt_append out1 v of Ok out2 \<Rightarrow> expand_from look depth after out2 | e \<Rightarrow> Some e) | e \<Rightarrow> Some e"
          have chosen: "returns look (Option.bind (expand_from look (depth + 1) (chosen_part v (split_parts 0 condition)) []) ?next)" for v
            by (rule returns_bind [OF comes_intros(2) [OF part] go])
          have "comes look (if contains_str (ascii ''#{'') (hd (split_parts 0 condition))
              then expand_from look (depth + 1) (hd (split_parts 0 condition)) [] else Some (look (hd (split_parts 0 condition))))"
            using comes_intros(1) comes_intros(2) [OF cond] by simp
          then have "returns look (Option.bind (if contains_str (ascii ''#{'') (hd (split_parts 0 condition))
              then expand_from look (depth + 1) (hd (split_parts 0 condition)) [] else Some (look (hd (split_parts 0 condition))))
              (\<lambda>r. case r of Ok value \<Rightarrow> Option.bind (expand_from look (depth + 1) (chosen_part value (split_parts 0 condition)) []) ?next | e \<Rightarrow> Some e))"
            by (rule returns_bind) (rule chosen)
          then show ?thesis by (subst expand_from.simps)
              (simp only: 3 o \<open>find_close 1 inner = _\<close> x Some if_False option.case prod.case outcome.case)
        qed
      qed
    next
      fix e assume "fmt_append out before = Err e"
      then show ?thesis using 3 by (subst expand_from.simps) simp
    qed
  qed (subst expand_from.simps, simp add: returns_append less.prems)+
qed

lemma table_safe: "Panic \<notin> snd ` set table \<Longrightarrow> map_of table key \<noteq> Some Panic"
  by (auto dest!: map_of_SomeD) force

lemma pane_active_safe: "mux_inv s \<Longrightarrow> pane_active s i \<noteq> Panic"
  by (cases "window_of i s") (auto simp: pane_active_def elim!: window_of_found [OF mux_inv_ids])

lemma format_pane_safe:
  assumes "mux_inv s"
  shows "format_pane E s pane key \<noteq> Panic"
proof -
  have "map_of (pane_keys E s i p) key \<noteq> Some Panic" for i p
    by (rule table_safe) (use pane_active_safe [OF assms, of i] in \<open>auto simp: pane_keys_def\<close>)
  then show ?thesis by (auto simp: format_pane_def split: option.split)
qed

lemma format_window_safe:
  assumes "mux_inv s"
  shows "format_window E s ss window pane key \<noteq> Panic"
proof (cases "Option.bind window (\<lambda>i. map_option (Pair i) (map_of (mx_windows s) i))")
  case (Some x)
  obtain i w where x: "x = (i, w)" "map_of (mx_windows s) i = Some w" using Some by (auto simp: bind_eq_Some_conv)
  have lay: "of_layout (mux_layout i v s) \<noteq> Panic" for v
    using layout_known_inv [OF assms x(2)] x(2) by (auto simp: of_layout_def mux_layout_def split: option.split)
  have "map_of (window_keys s ss flags i w) key \<noteq> Some Panic" for flags
    by (rule table_safe) (use lay lay [symmetric] in \<open>auto simp: window_keys_def\<close>)
  moreover obtain owner where "map_of (mx_sessions s) (wn_session w) = Some owner"
    using sessions_okD(1) [OF mux_inv_maps(4) [OF assms] x(2)] by blast
  ultimately show ?thesis using Some x format_pane_safe [OF assms] by (auto simp: format_window_def split: option.split)
qed (simp add: format_window_def format_pane_safe [OF assms])

lemma format_one_safe: "mux_inv s \<Longrightarrow> format_one E s session window pane key \<noteq> Panic"
  by (simp add: format_one_def Let_def format_window_safe split: option.split)

text \<open>C37: Expanding a format always returns, however its conditionals are nested: with a text of at most half of the output
  queue or an error, and without a panic in a state that satisfies the invariant.\<close>

theorem expand_terminates:
  assumes "mux_inv s"
  shows "\<exists>r. expand (format_one E s session window pane) template = Some r \<and>
    (case r of Ok v \<Rightarrow> length v \<le> MAX_QUEUE div 2 | Err e \<Rightarrow> True | Panic \<Rightarrow> False)"
  using expand_from_returns [of "[]" "format_one E s session window pane" 0 template] format_one_safe [OF assms, of E session window pane]
  by (auto simp: returns_def expand_def bounded_text_def split: outcome.splits)

theorem expand_terminates_witness:
  "\<exists>r. expand (format_one sample_env sample_mux 1 (Some 0) (Some 0)) (ascii ''#{?pane_active,yes,no}'') = Some r \<and>
    (case r of Ok v \<Rightarrow> length v \<le> MAX_QUEUE div 2 | Err e \<Rightarrow> True | Panic \<Rightarrow> False)"
  by (rule expand_terminates [OF sample_mux_inv])

end
