(* ===== verification/Htm_Control.thy ===== *)
theory Htm_Control
  imports Htm_Formats
begin

text \<open>
  \<^verbatim>\<open>crates/et-htm/src/control.rs\<close>: the commands of the control protocol. A command is parsed into flags and words and
  runs one handler; the state is the multiplexer and the client's flags. Flags are bytes: the ones that are looked up are
  ASCII.
\<close>

section \<open>Arguments\<close>

record client_flags =
  cf_no_output :: bool
  cf_pause :: "nat option"
  cf_wait_exit :: bool

record args =
  ar_flags :: "(byte \<times> bytes list) list"
  ar_words :: "bytes list"

definition add_flag :: "byte \<Rightarrow> bytes list \<Rightarrow> args \<Rightarrow> args" where
  "add_flag f vals a = a\<lparr>ar_flags := bt_insert f ((case map_of (ar_flags a) f of Some vs \<Rightarrow> vs | None \<Rightarrow> []) @ vals) (ar_flags a)\<rparr>"

fun flag_chars :: "bytes \<Rightarrow> bytes \<Rightarrow> bytes list \<Rightarrow> args \<Rightarrow> args \<times> bytes list" where
  "flag_chars vals [] tokens a = (a, tokens)"
| "flag_chars vals (f # cs) tokens a =
    (if f \<in> set vals then
       if cs \<noteq> [] then (add_flag f [cs] a, tokens)
       else (case tokens of
           t # ts \<Rightarrow> if strip_prefix [45] t = None \<or> length t = 1 then (add_flag f [t] a, ts) else (add_flag f [] a, tokens)
         | [] \<Rightarrow> (add_flag f [] a, tokens))
     else flag_chars vals cs tokens (add_flag f [] a))"

lemma flag_chars_length: "length (snd (flag_chars vals cs tokens a)) \<le> length tokens"
  by (induction vals cs tokens a rule: flag_chars.induct) (auto split: list.split)

function args_parse :: "bytes \<Rightarrow> bytes list \<Rightarrow> args \<Rightarrow> args" where
  "args_parse vals [] a = a"
| "args_parse vals (token # tokens) a =
    (if token = [45, 45] then a\<lparr>ar_words := ar_words a @ tokens\<rparr>
     else if strip_prefix [45] token \<noteq> None \<and> strip_prefix [45, 45] token = None \<and> 1 < length token
     then args_parse vals (snd (flag_chars vals (tl token) tokens a)) (fst (flag_chars vals (tl token) tokens a))
     else args_parse vals tokens (a\<lparr>ar_words := ar_words a @ [token]\<rparr>))"
  by pat_completeness auto
termination by (relation "measure (\<lambda>(_, tokens, _). length tokens)") (auto simp: flag_chars_length less_Suc_eq_le)

definition ar_has :: "char \<Rightarrow> args \<Rightarrow> bool" where
  "ar_has c a = bt_has (of_char c) (ar_flags a)"

definition ar_get :: "char \<Rightarrow> args \<Rightarrow> bytes option" where
  "ar_get c a = (case map_of (ar_flags a) (of_char c) of None \<Rightarrow> None | Some vs \<Rightarrow> if vs = [] then None else Some (last vs))"

definition ar_word :: "args \<Rightarrow> bytes" where
  "ar_word a = (case ar_words a of w # _ \<Rightarrow> w | [] \<Rightarrow> [])"

definition one_of :: "bytes \<Rightarrow> string list \<Rightarrow> bool" where
  "one_of name names = (name \<in> set (map ascii names))"

definition flag_values :: "bytes \<Rightarrow> bytes" where
  "flag_values name = ascii
    (if one_of name [''refresh-client'', ''refresh''] then ''CABfFrt''
     else if one_of name [''capture-pane'', ''capturep''] then ''tSEb''
     else if one_of name [''send-keys'', ''send'', ''display-message'', ''display'', ''copy-mode''] then ''t''
     else if one_of name [''list-windows'', ''lsw'', ''list-panes'', ''lsp'', ''list-sessions'', ''list-session'', ''ls''] then ''Ftf''
     else if one_of name [''new-window'', ''neww'', ''split-window'', ''splitw''] then ''tcFnl''
     else if one_of name [''kill-pane'', ''killp'', ''kill-window'', ''killw'', ''select-pane'', ''selectp'', ''select-window'', ''selectw'',
       ''resize-pane'', ''resizep'', ''resize-window'', ''resizew'', ''rename-window'', ''renamew'', ''select-layout'', ''selectl''] then ''tTxy''
     else if one_of name [''attach-session'', ''attach'', ''new-session'', ''new'', ''kill-session'', ''rename-session'', ''rename''] then ''tsnc''
     else if one_of name [''show-buffer'', ''showb'', ''set-buffer'', ''setb''] then ''b''
     else if one_of name [''swap-pane'', ''swapp'', ''move-pane'', ''movep'', ''break-pane'', ''breakp'', ''join-pane'', ''joinp''] then ''stF''
     else if one_of name [''show-options'', ''show'', ''show-option'', ''set-option'', ''set'', ''show-window-options'', ''showw'',
       ''set-window-option'', ''setw''] then ''to''
     else if one_of name [''unlink-window'', ''unlinkw'', ''link-window'', ''linkw'', ''move-window'', ''movew''] then ''st''
     else ''tFcsnb'')"

text \<open>\<^verbatim>\<open>str::parse::<i32>\<close> of a sign and digits, or the fallback.\<close>

definition parse_i32 :: "bytes \<Rightarrow> int option" where
  "parse_i32 s =
    (case s of
       b # r \<Rightarrow> if b = 45 then map_option (\<lambda>n. - int n) (if r = [] \<or> \<not> list_all is_ascii_digit r then None else parse_unsigned (2 ^ 31) r)
         else if b = 43 then map_option int (if r = [] \<or> \<not> list_all is_ascii_digit r then None else parse_unsigned (2 ^ 31 - 1) r)
         else map_option int (parse_unsigned (2 ^ 31 - 1) s)
     | [] \<Rightarrow> None)"

definition integer :: "bytes \<Rightarrow> int \<Rightarrow> int" where
  "integer s fallback =
    (let s = trim_ascii_start s;
         digits = (case s of b # r \<Rightarrow> if b = 45 \<or> b = 43 then b # takeWhile is_ascii_digit r else takeWhile is_ascii_digit s | [] \<Rightarrow> [])
     in case parse_i32 digits of Some n \<Rightarrow> n | None \<Rightarrow> fallback)"

definition dimension :: "bytes option \<Rightarrow> nat \<Rightarrow> nat \<Rightarrow> bytes + nat" where
  "dimension s fallback limit =
    (let n = max (integer (or_empty s) (int fallback)) 1 in
     if int limit < n then Inl (ascii ''size exceeds '' @ dec_nat limit) else Inr (nat n))"

subsection \<open>Keys\<close>

definition hex_byte :: "bytes \<Rightarrow> byte option" where
  "hex_byte s =
    (let s = trim_ascii_start s;
         negative = (strip_prefix [45] s \<noteq> None);
         s = (case s of b # r \<Rightarrow> if b = 45 \<or> b = 43 then r else s | [] \<Rightarrow> s);
         digits = (case strip_prefix (ascii ''0x'') s of Some d \<Rightarrow> d
           | None \<Rightarrow> (case strip_prefix (ascii ''0X'') s of Some d \<Rightarrow> d | None \<Rightarrow> s));
         hex = takeWhile (\<lambda>c. hex_digit c \<noteq> None) digits
     in if hex = [] then (if strip_prefix [48] s \<noteq> None then Some 0 else None)
        else
          let value = foldl (\<lambda>v c. 16 * v + (case hex_digit c of Some d \<Rightarrow> d | None \<Rightarrow> 0)) 0 hex in
          if u64_max < value then Some 255
          else Some (word_of_nat (if negative then (2 ^ 64 - value) mod 2 ^ 64 else value)))"

definition is_ascii_alphabetic :: "byte \<Rightarrow> bool" where
  "is_ascii_alphabetic b \<longleftrightarrow> 65 \<le> b \<and> b \<le> 90 \<or> 97 \<le> b \<and> b \<le> 122"

definition encode_key :: "bool \<Rightarrow> bool \<Rightarrow> bytes \<Rightarrow> bytes" where
  "encode_key hex literal word =
    (if hex then [case hex_byte word of Some b \<Rightarrow> b | None \<Rightarrow> 0]
     else if literal then word
     else if one_of word [''Enter'', ''C-m'', ''KPEnter''] then [13]
     else if one_of word [''Escape'', ''C-['', ''Esc''] then [27]
     else if one_of word [''Space''] then [32]
     else if one_of word [''Tab'', ''C-i''] then [9]
     else if one_of word [''BSpace'', ''Bspace''] then [127]
     else if length word = 3 \<and> strip_prefix (ascii ''C-'') word \<noteq> None \<and> is_ascii_alphabetic (word ! 2) then [word ! 2 AND 31]
     else if 3 \<le> length word \<and> (strip_prefix (ascii ''0x'') word \<noteq> None \<or> strip_prefix (ascii ''0X'') word \<noteq> None) \<and> hex_byte word \<noteq> None
     then [the (hex_byte word)]
     else word)"

definition encode_keys :: "bytes list \<Rightarrow> bool \<Rightarrow> bool \<Rightarrow> bytes" where
  "encode_keys words hex literal = concat (map (encode_key hex literal) words)"

section \<open>Commands that show\<close>

definition expand_text :: "('t, 's) pane_env \<Rightarrow> bytes \<Rightarrow> nat \<Rightarrow> nat option \<Rightarrow> nat option \<Rightarrow> ('t, 's, 'f, bytes) mux_action" where
  "expand_text E template session window pane = with_state (\<lambda>s.
     bind_action (unwrap (expand (format_one E s session window pane) template)) of_outcome)"

definition format_text :: "('t, 's) pane_env \<Rightarrow> bytes \<Rightarrow> nat \<Rightarrow> nat \<Rightarrow> ('t, 's, 'f, bytes) mux_action" where
  "format_text E template window pane = with_state (\<lambda>s.
     bind_action (unwrap (map_of (mx_windows s) window)) (\<lambda>w. expand_text E template (wn_session w) (Some window) (Some pane)))"

definition list_row :: "bytes \<Rightarrow> bytes \<Rightarrow> bytes outcome" where
  "list_row out row =
    (case (if out \<noteq> [] then fmt_append out [10] else Ok out) of Ok o1 \<Rightarrow> fmt_append o1 row | e \<Rightarrow> e)"

definition add_row :: "('m, bytes) action \<Rightarrow> bytes \<Rightarrow> ('m, bytes) action" where
  "add_row row out = bind_action row (\<lambda>r. of_outcome (list_row out r))"

definition finish_list :: "bytes \<Rightarrow> bytes outcome" where
  "finish_list out = (if out \<noteq> [] \<and> last out \<noteq> 10 then fmt_append out [10] else Ok out)"

definition template_or :: "args \<Rightarrow> string \<Rightarrow> bytes" where
  "template_or a d = (case nonempty (ar_get CHR ''F'' a) of Some f \<Rightarrow> f | None \<Rightarrow> ascii d)"

definition print_or :: "args \<Rightarrow> string \<Rightarrow> bytes" where
  "print_or a d = (case ar_get CHR ''F'' a of Some f \<Rightarrow> f | None \<Rightarrow> ascii d)"

text \<open>The session, window and pane that \<^verbatim>\<open>display-message\<close> is about.\<close>

definition display_target :: "bytes option \<Rightarrow> ('t, 's, 'f, nat \<times> nat \<times> nat) mux_action" where
  "display_target target = with_state (\<lambda>s.
     let here = (mx_active s, active_window s, active_pane s) in
     case target of
       None \<Rightarrow> ret here
     | Some t \<Rightarrow>
         if strip_prefix [37] t \<noteq> None then
           bind_action (attempt (parse_pane_target target s)) (\<lambda>i.
           if bt_has i (mx_panes s) then bind_action (attempt (window_of i s)) (\<lambda>w. ret (mx_active s, w, i)) else ret here)
         else if strip_prefix [64] t \<noteq> None then
           bind_action (attempt (parse_window_target target s)) (\<lambda>i.
           case map_of (mx_windows s) i of Some w \<Rightarrow> ret (mx_active s, i, wn_active w) | None \<Rightarrow> ret here)
         else if strip_prefix [36] t \<noteq> None then
           bind_action (attempt (parse_session_target target s)) (\<lambda>i.
           case map_of (mx_sessions s) i of
             Some ss \<Rightarrow> bind_action (unwrap (map_of (mx_windows s) (sn_active ss))) (\<lambda>w. ret (i, sn_active ss, wn_active w))
           | None \<Rightarrow> ret here)
         else ret here)"

definition cmd_display :: "('t, 's) pane_env \<Rightarrow> args \<Rightarrow> ('t, 's, 'f, bytes) mux_action" where
  "cmd_display E a = bind_action (display_target (ar_get CHR ''t'' a)) (\<lambda>(session, w, p).
     if ar_has CHR ''p'' a
     then expand_text E (case ar_words a of t # _ \<Rightarrow> t | [] \<Rightarrow> ascii ''#{pane_id}'') session (Some w) (Some p)
     else ret [])"

definition cmd_list_sessions :: "('t, 's) pane_env \<Rightarrow> args \<Rightarrow> ('t, 's, 'f, bytes) mux_action" where
  "cmd_list_sessions E a = with_state (\<lambda>s.
     bind_action (fold_action (\<lambda>k. add_row (expand_text E (template_or a ''#{session_id} #{session_name}'') k None None)) (bt_keys (mx_sessions s)) [])
     (\<lambda>out. of_outcome (finish_list out)))"

definition target_session :: "args \<Rightarrow> bytes option" where
  "target_session a = (case ar_get CHR ''t'' a of Some t \<Rightarrow> Some t | None \<Rightarrow> ar_get CHR ''s'' a)"

definition cmd_list_windows :: "('t, 's) pane_env \<Rightarrow> args \<Rightarrow> ('t, 's, 'f, bytes) mux_action" where
  "cmd_list_windows E a = with_state (\<lambda>s.
     bind_action (attempt (parse_session_target (target_session a) s)) (\<lambda>i.
     bind_action (if i = 0 then ret (mx_active s) else attempt (session_target (target_session a) s)) (\<lambda>k.
     bind_action (unwrap (map_of (mx_sessions s) k)) (\<lambda>ss.
     bind_action (fold_action (\<lambda>w. add_row (with_state (\<lambda>s. bind_action (unwrap (map_of (mx_windows s) w)) (\<lambda>window.
         format_text E (template_or a ''#{window_id} #{window_layout} #{window_flags} #{window_visible_layout}'') w (wn_active window))))) (sn_windows ss) [])
     (\<lambda>out. of_outcome (finish_list out))))))"

definition list_window_panes :: "('t, 's) pane_env \<Rightarrow> args \<Rightarrow> nat \<Rightarrow> bytes \<Rightarrow> ('t, 's, 'f, bytes) mux_action" where
  "list_window_panes E a w out = with_state (\<lambda>s. bind_action (unwrap (map_of (mx_windows s) w)) (\<lambda>window.
     bind_action (fold_action (\<lambda>p. add_row (format_text E (template_or a ''#{pane_id} #{pane_width} #{pane_height}'') w p)) (panes (wn_layout window)) [])
     (\<lambda>chunk. if chunk \<noteq> [] then of_outcome (list_row out chunk) else ret out)))"

definition cmd_list_panes :: "('t, 's) pane_env \<Rightarrow> args \<Rightarrow> ('t, 's, 'f, bytes) mux_action" where
  "cmd_list_panes E a = with_state (\<lambda>s.
     let target = ar_get CHR ''t'' a in
     bind_action (attempt (if (case target of Some t \<Rightarrow> strip_prefix [37] t \<noteq> None | None \<Rightarrow> False) then parse_pane_target target s else parse_window_target target s)) (\<lambda>i.
     bind_action (if ar_has CHR ''a'' a
        then bind_action (unwrap (map_of (mx_sessions s) (mx_active s))) (\<lambda>ss. ret (sn_windows ss))
        else ret [if bt_has i (mx_windows s) then i else (case window_of i s of Inr w \<Rightarrow> w | Inl e \<Rightarrow> active_window s)]) (\<lambda>ws.
     bind_action (fold_action (list_window_panes E a) ws []) (\<lambda>out. of_outcome (finish_list out)))))"

definition cmd_capture :: "('t, 's) pane_env \<Rightarrow> args \<Rightarrow> ('t, 's, 'f, bytes) mux_action" where
  "cmd_capture E a = with_state (\<lambda>s.
     bind_action (attempt (parse_pane_target (ar_get CHR ''t'' a) s)) (\<lambda>i.
     case map_of (mx_panes s) i of
       None \<Rightarrow> ret []
     | Some p \<Rightarrow>
       if \<not> ar_has CHR ''p'' a \<or> ar_has CHR ''P'' a \<and> ar_has CHR ''C'' a then ret []
       else case pe_capture E \<lparr>cp_styled = ar_has CHR ''e'' a, cp_alternate = ar_has CHR ''a'' a,
             cp_start = integer (or_empty (ar_get CHR ''S'' a)) 0, cp_end = integer (or_empty (ar_get CHR ''E'' a)) 0,
             cp_join = ar_has CHR ''J'' a, cp_trailing = ar_has CHR ''N'' a\<rparr> (pn_screen p) of
           (r, screen) \<Rightarrow> and_then (modify (set_pane i (p\<lparr>pn_screen := screen\<rparr>)))
             (bind_action (attempt r) (\<lambda>bs. ret (if ar_has CHR ''C'' a then escape_bytes bs else bs)))))"

definition cmd_show_buffer :: "args \<Rightarrow> ('t, 's, 'f, bytes) mux_action" where
  "cmd_show_buffer a = with_state (\<lambda>s. ret (or_empty (map_of (mx_buffers s) (case ar_get CHR ''b'' a of Some n \<Rightarrow> n | None \<Rightarrow> ascii ''buffer0''))))"

section \<open>Commands that change\<close>

text \<open>Most handlers answer with no output.\<close>

definition silent :: "('m, unit) action \<Rightarrow> ('m, bytes) action" where
  "silent m = bind_action m (\<lambda>_. ret [])"

definition cmd_new_window :: "('t, 's) pane_env \<Rightarrow> 'f float_ops \<Rightarrow> args \<Rightarrow> ('t, 's, 'f, bytes) mux_action" where
  "cmd_new_window E F a = bind_action (new_window E F (ar_get CHR ''n'' a) (ar_get CHR ''c'' a)) (\<lambda>w.
     if ar_has CHR ''P'' a
     then with_state (\<lambda>s. bind_action (unwrap (map_of (mx_windows s) w)) (\<lambda>window. format_text E (print_or a ''#{window_id}'') w (wn_active window)))
     else ret [])"

definition cmd_split :: "('t, 's) pane_env \<Rightarrow> 'f float_ops \<Rightarrow> args \<Rightarrow> ('t, 's, 'f, bytes) mux_action" where
  "cmd_split E F a = with_state (\<lambda>s.
     bind_action (attempt (pane_target (ar_get CHR ''t'' a) s)) (\<lambda>source.
     bind_action (mux_split E F source (ar_has CHR ''h'' a \<and> \<not> ar_has CHR ''v'' a) (ar_get CHR ''c'' a)) (\<lambda>p.
     if ar_has CHR ''P'' a
     then with_state (\<lambda>s. bind_action (attempt (window_of p s)) (\<lambda>w. expand_text E (print_or a ''#{pane_id}'') (mx_active s) (Some w) (Some p)))
     else ret [])))"

definition cmd_send_keys :: "('t, 's) pane_env \<Rightarrow> args \<Rightarrow> ('t, 's, 'f, bytes) mux_action" where
  "cmd_send_keys E a = with_state (\<lambda>s.
     bind_action (attempt (pane_target (ar_get CHR ''t'' a) s)) (\<lambda>i.
     bind_action (unwrap (map_of (mx_panes s) i)) (\<lambda>p.
     case pe_append E (encode_keys (ar_words a) (ar_has CHR ''H'' a) (ar_has CHR ''l'' a)) (pn_terminal p) of
       (r, terminal) \<Rightarrow> and_then (modify (set_pane i (p\<lparr>pn_terminal := terminal\<rparr>))) (silent (attempt r)))))"

definition activate_window :: "nat \<Rightarrow> nat \<Rightarrow> ('t, 's, 'f, unit) mux_action" where
  "activate_window k w = with_state (\<lambda>s. and_then (bind_action (unwrap (map_of (mx_sessions s) k)) (\<lambda>_. ret ()))
     (modify (\<lambda>s. s\<lparr>mx_sessions := bt_update k (\<lambda>ss. ss\<lparr>sn_active := w\<rparr>) (mx_sessions s)\<rparr>)))"

definition cmd_select_pane :: "args \<Rightarrow> ('t, 's, 'f, bytes) mux_action" where
  "cmd_select_pane a = with_state (\<lambda>s.
     bind_action (attempt (pane_target (ar_get CHR ''t'' a) s)) (\<lambda>p.
     bind_action (attempt (window_of p s)) (\<lambda>w.
     if ar_has CHR ''T'' a then
       bind_action (unwrap (map_of (mx_panes s) p)) (\<lambda>pane. silent (modify (set_pane p (pane\<lparr>pn_title := or_empty (ar_get CHR ''T'' a)\<rparr>))))
     else
       bind_action (unwrap (map_of (mx_windows s) w)) (\<lambda>window.
       and_then (modify (set_window w (window\<lparr>wn_active := p\<rparr>)))
       (and_then (activate_window (wn_session window) w)
       (silent (modify (notify (ascii ''%window-pane-changed @'' @ dec_nat w @ ascii '' %'' @ dec_nat p @ [10])))))))))"

definition cmd_select_window :: "args \<Rightarrow> ('t, 's, 'f, bytes) mux_action" where
  "cmd_select_window a = with_state (\<lambda>s.
     bind_action (attempt (window_target (ar_get CHR ''t'' a) s)) (\<lambda>w.
     bind_action (unwrap (map_of (mx_windows s) w)) (\<lambda>window.
     and_then (activate_window (wn_session window) w)
     (silent (modify (notify (ascii ''%session-window-changed $'' @ dec_nat (wn_session window) @ ascii '' @'' @ dec_nat w @ [10])))))))"

definition redraw :: "('t, 's) pane_env \<Rightarrow> 'f float_ops \<Rightarrow> nat \<Rightarrow> ('t, 's, 'f, unit) mux_action" where
  "redraw E F w = and_then (mux_resize E F w) (layout_changed w)"

definition zoom_window :: "nat \<Rightarrow> 'f htm_window \<Rightarrow> 'f htm_window" where
  "zoom_window p w = w\<lparr>wn_zoom := (if wn_zoom w \<noteq> None then None else if p \<noteq> 0 then Some p else None)\<rparr>"

definition wanted_size :: "bytes option \<Rightarrow> nat \<Rightarrow> bytes + nat option" where
  "wanted_size s limit =
    (case s of
       None \<Rightarrow> Inr None
     | Some t \<Rightarrow> if 0 < integer t 0 then (case dimension (Some t) 1 limit of Inl e \<Rightarrow> Inl e | Inr n \<Rightarrow> Inr (Some n)) else Inr None)"

definition flag_direction :: "args \<Rightarrow> direction option" where
  "flag_direction a = (if ar_has CHR ''L'' a then Some DirLeft else if ar_has CHR ''R'' a then Some DirRight
     else if ar_has CHR ''U'' a then Some DirUp else if ar_has CHR ''D'' a then Some DirDown else None)"

definition cmd_resize_pane :: "('t, 's) pane_env \<Rightarrow> 'f float_ops \<Rightarrow> args \<Rightarrow> ('t, 's, 'f, bytes) mux_action" where
  "cmd_resize_pane E F a = with_state (\<lambda>s.
     bind_action (attempt (parse_pane_target (ar_get CHR ''t'' a) s)) (\<lambda>_.
     if \<not> list_ex (\<lambda>c. ar_has c a) ''ZxyLRUD'' then ret []
     else
       bind_action (attempt (pane_target (ar_get CHR ''t'' a) s)) (\<lambda>p.
       bind_action (attempt (window_of p s)) (\<lambda>w.
       if ar_has CHR ''Z'' a then
         bind_action (unwrap (map_of (mx_windows s) w)) (\<lambda>window.
         and_then (modify (set_window w (zoom_window p window))) (silent (redraw E F w)))
       else if ar_has CHR ''x'' a \<or> ar_has CHR ''y'' a then
         bind_action (attempt (wanted_size (ar_get CHR ''x'' a) 512)) (\<lambda>cols.
         bind_action (attempt (wanted_size (ar_get CHR ''y'' a) 256)) (\<lambda>rows.
         silent (resize_pane E F p cols rows)))
       else (case flag_direction a of Some dir \<Rightarrow> silent (resize_direction E F p dir (integer (ar_word a) 1)) | None \<Rightarrow> ret [])))))"

definition set_size :: "('t, 's) pane_env \<Rightarrow> 'f float_ops \<Rightarrow> nat \<Rightarrow> nat \<Rightarrow> nat \<Rightarrow> ('t, 's, 'f, unit) mux_action" where
  "set_size E F cols rows w = with_state (\<lambda>s. bind_action (unwrap (map_of (mx_windows s) w)) (\<lambda>window.
     and_then (modify (set_window w (window\<lparr>wn_rect := \<lparr>r_cols = cols, r_rows = rows, r_x = 0, r_y = 0\<rparr>\<rparr>))) (redraw E F w)))"

definition cmd_resize_window :: "('t, 's) pane_env \<Rightarrow> 'f float_ops \<Rightarrow> args \<Rightarrow> ('t, 's, 'f, bytes) mux_action" where
  "cmd_resize_window E F a = with_state (\<lambda>s.
     bind_action (attempt (window_target (ar_get CHR ''t'' a) s)) (\<lambda>w.
     bind_action (attempt (dimension (ar_get CHR ''x'' a) (fst (mx_client_size s)) 512)) (\<lambda>cols.
     bind_action (attempt (dimension (ar_get CHR ''y'' a) (snd (mx_client_size s)) 256)) (\<lambda>rows.
     silent (set_size E F cols rows w)))))"

definition cmd_kill_pane :: "('t, 's) pane_env \<Rightarrow> 'f float_ops \<Rightarrow> args \<Rightarrow> ('t, 's, 'f, bytes) mux_action" where
  "cmd_kill_pane E F a = with_state (\<lambda>s. bind_action (attempt (parse_pane_target (ar_get CHR ''t'' a) s)) (\<lambda>p. silent (mux_close E F p)))"

definition cmd_kill_window :: "args \<Rightarrow> ('t, 's, 'f, bytes) mux_action" where
  "cmd_kill_window a = with_state (\<lambda>s. bind_action (attempt (parse_window_target (ar_get CHR ''t'' a) s)) (\<lambda>w. silent (close_window w)))"

definition cmd_select_layout :: "('t, 's) pane_env \<Rightarrow> 'f float_ops \<Rightarrow> args \<Rightarrow> ('t, 's, 'f, bytes) mux_action" where
  "cmd_select_layout E F a = with_state (\<lambda>s.
     bind_action (attempt (window_target (ar_get CHR ''t'' a) s)) (\<lambda>w.
     bind_action (unwrap (map_of (mx_windows s) w)) (\<lambda>window.
     if 1 < length (panes (wn_layout window)) then
       and_then (modify (set_window w (window\<lparr>wn_layout := layout_select F (if ar_word a = [] then ascii ''tiled'' else ar_word a) (wn_layout window)\<rparr>)))
       (silent (redraw E F w))
     else ret [])))"

definition cmd_swap :: "('t, 's) pane_env \<Rightarrow> 'f float_ops \<Rightarrow> args \<Rightarrow> ('t, 's, 'f, bytes) mux_action" where
  "cmd_swap E F a = with_state (\<lambda>s.
     bind_action (attempt (parse_pane_target (ar_get CHR ''s'' a) s)) (\<lambda>p.
     bind_action (attempt (parse_pane_target (ar_get CHR ''t'' a) s)) (\<lambda>q. silent (mux_swap E F p q))))"

definition cmd_move_pane :: "('t, 's) pane_env \<Rightarrow> 'f float_ops \<Rightarrow> args \<Rightarrow> ('t, 's, 'f, bytes) mux_action" where
  "cmd_move_pane E F a = with_state (\<lambda>s.
     bind_action (attempt (parse_pane_target (ar_get CHR ''s'' a) s)) (\<lambda>p.
     bind_action (attempt (parse_pane_target (ar_get CHR ''t'' a) s)) (\<lambda>q.
     silent (move_pane E F p q (ar_has CHR ''h'' a \<and> \<not> ar_has CHR ''v'' a) (ar_has CHR ''b'' a)))))"

definition break_target :: "args \<Rightarrow> bytes option" where
  "break_target a =
    (case nonempty (ar_get CHR ''s'' a) of
       Some t \<Rightarrow> Some t
     | None \<Rightarrow> (case nonempty (ar_get CHR ''t'' a) of Some t \<Rightarrow> Some t | None \<Rightarrow> (case ar_words a of w # _ \<Rightarrow> Some w | [] \<Rightarrow> None)))"

definition cmd_break_pane :: "('t, 's) pane_env \<Rightarrow> 'f float_ops \<Rightarrow> args \<Rightarrow> ('t, 's, 'f, bytes) mux_action" where
  "cmd_break_pane E F a = with_state (\<lambda>s.
     bind_action (attempt (parse_pane_target (break_target a) s)) (\<lambda>p.
     bind_action (break_pane E F p) (\<lambda>w.
     if ar_has CHR ''P'' a then with_state (\<lambda>s.
       let w = (if bt_has w (mx_windows s) then w else active_window s) in
       bind_action (unwrap (map_of (mx_windows s) w)) (\<lambda>window.
       expand_text E (print_or a ''#{window_id}'') (mx_active s) (Some w) (Some (wn_active window))))
     else ret [])))"

definition cmd_move_window :: "args \<Rightarrow> ('t, 's, 'f, bytes) mux_action" where
  "cmd_move_window a = with_state (\<lambda>s.
     bind_action (attempt (parse_window_target (ar_get CHR ''s'' a) s)) (\<lambda>w.
     bind_action (attempt (parse_session_target (ar_get CHR ''t'' a) s)) (\<lambda>k. silent (move_window w k))))"

definition cmd_new_session :: "('t, 's) pane_env \<Rightarrow> 'f float_ops \<Rightarrow> args \<Rightarrow> ('t, 's, 'f, bytes) mux_action" where
  "cmd_new_session E F a = bind_action (new_session E F (or_empty (ar_get CHR ''s'' a))) (\<lambda>k.
     if ar_has CHR ''d'' a then ret [] else and_then (modify (\<lambda>s. s\<lparr>mx_active := k\<rparr>)) (silent session_changed))"

definition cmd_attach :: "args \<Rightarrow> ('t, 's, 'f, bytes) mux_action" where
  "cmd_attach a = with_state (\<lambda>s. bind_action (attempt (session_target (target_session a) s)) (\<lambda>k.
     and_then (modify (\<lambda>s. s\<lparr>mx_active := k\<rparr>)) (silent session_changed)))"

definition cmd_rename_session :: "args \<Rightarrow> ('t, 's, 'f, bytes) mux_action" where
  "cmd_rename_session a = with_state (\<lambda>s.
     bind_action (attempt (session_target (target_session a) s)) (\<lambda>k.
     bind_action (unwrap (map_of (mx_sessions s) k)) (\<lambda>_.
     and_then (modify (\<lambda>s. s\<lparr>mx_sessions := bt_update k (\<lambda>ss. ss\<lparr>sn_name := ar_word a\<rparr>) (mx_sessions s)\<rparr>))
     (silent (modify (notify (ascii ''%session-renamed $'' @ dec_nat k @ [32] @ safe_text (ar_word a) @ [10])))))))"

definition cmd_kill_session :: "args \<Rightarrow> ('t, 's, 'f, bytes) mux_action" where
  "cmd_kill_session a = with_state (\<lambda>s.
     bind_action (attempt (parse_session_target (target_session a) s)) (\<lambda>k.
     case map_of (mx_sessions s) k of
       None \<Rightarrow> ret []
     | Some ss \<Rightarrow> and_then (for_each close_window (sn_windows ss)) (silent (modify (notify (ascii ''%sessions-changed'' @ [10]))))))"

definition cmd_rename_window :: "args \<Rightarrow> ('t, 's, 'f, bytes) mux_action" where
  "cmd_rename_window a = with_state (\<lambda>s.
     bind_action (attempt (window_target (ar_get CHR ''t'' a) s)) (\<lambda>w.
     bind_action (unwrap (map_of (mx_windows s) w)) (\<lambda>window.
     and_then (modify (set_window w (window\<lparr>wn_name := ar_word a, wn_automatic_rename := False\<rparr>)))
     (silent (modify (notify (ascii ''%window-renamed @'' @ dec_nat w @ [32] @ safe_text (ar_word a) @ [10])))))))"

definition cmd_set_buffer :: "args \<Rightarrow> ('t, 's, 'f, bytes) mux_action" where
  "cmd_set_buffer a = with_state (\<lambda>s.
     let name = (case ar_get CHR ''b'' a of Some n \<Rightarrow> n | None \<Rightarrow> ascii ''buffer0'') in
     if 32 \<le> length (mx_buffers s) \<and> \<not> bt_has name (mx_buffers s) then fail (ascii ''buffer limit reached'')
     else and_then (modify (\<lambda>s. s\<lparr>mx_buffers := bt_insert name (ar_word a) (mx_buffers s)\<rparr>))
       (silent (modify (notify (ascii ''%paste-buffer-changed '' @ safe_text name @ [10])))))"

subsection \<open>Options\<close>

text \<open>
  An option belongs to a pane, a window, the server, a group or a session. Of the names that reach this handler, the four
  listed here contain \<^verbatim>\<open>window\<close> or are their short forms.
\<close>

definition option_scope :: "bytes \<Rightarrow> args \<Rightarrow> ('t, 's, 'f) mux \<Rightarrow> bytes + byte \<times> nat" where
  "option_scope name a s =
    (let target = ar_get CHR ''t'' a in
     if ar_has CHR ''p'' a then map_sum id (Pair 112) (parse_pane_target target s)
     else if ar_has CHR ''w'' a \<or> one_of name [''set-window-option'', ''show-window-options'', ''setw'', ''showw'']
     then map_sum id (Pair 119) (parse_window_target target s)
     else if ar_has CHR ''g'' a then Inr (103, 0)
     else if ar_has CHR ''s'' a then Inr (115, 0)
     else map_sum id (Pair 32) (parse_session_target target s))"

definition scope_exists :: "byte \<times> nat \<Rightarrow> ('t, 's, 'f) mux \<Rightarrow> bool" where
  "scope_exists sc s = (case sc of (scope, i) \<Rightarrow>
     if scope = 112 then bt_has i (mx_panes s) else if scope = 119 then bt_has i (mx_windows s)
     else if scope = 32 then bt_has i (mx_sessions s) else True)"

definition show_option :: "args \<Rightarrow> byte \<times> nat \<times> bytes \<Rightarrow> ('t, 's, 'f) mux \<Rightarrow> bytes" where
  "show_option a entry s =
    (case nonempty (map_of (mx_options s) entry) of
       Some v \<Rightarrow> if ar_has CHR ''v'' a then v else snd (snd entry) @ [32] @ v
     | None \<Rightarrow> [])"

definition put_option :: "args \<Rightarrow> byte \<times> nat \<times> bytes \<Rightarrow> ('t, 's, 'f, unit) mux_action" where
  "put_option a entry = with_state (\<lambda>s.
     if ar_has CHR ''u'' a then modify (\<lambda>s. s\<lparr>mx_options := bt_remove entry (mx_options s)\<rparr>)
     else
       let i = (if nonempty (ar_get CHR ''o'' a) = None then 1 else 0);
           given = (if i < length (ar_words a) then ar_words a ! i else []);
           v = (if ar_has CHR ''a'' a then or_empty (map_of (mx_options s) entry) @ given else given)
       in if 256 \<le> length (mx_options s) \<and> \<not> bt_has entry (mx_options s) then fail (ascii ''option limit reached'')
          else if 65536 < length v then fail (ascii ''option too long'')
          else modify (\<lambda>s. s\<lparr>mx_options := bt_insert entry v (mx_options s)\<rparr>))"

definition cmd_options :: "bytes \<Rightarrow> args \<Rightarrow> ('t, 's, 'f, bytes) mux_action" where
  "cmd_options name a = with_state (\<lambda>s.
     bind_action (attempt (option_scope name a s)) (\<lambda>sc.
     let key = (case nonempty (ar_get CHR ''o'' a) of Some k \<Rightarrow> k | None \<Rightarrow> ar_word a);
         entry = (fst sc, snd sc, key) in
     if \<not> scope_exists sc s then ret []
     else if strip_prefix [64] key = None then ret []
     else if strip_prefix (ascii ''show'') name \<noteq> None then ret (show_option a entry s)
     else silent (put_option a entry)))"

subsection \<open>The client\<close>

text \<open>\<^verbatim>\<open>refresh-client -C\<close>: the windows to resize and their size; without a window, it is the client's size.\<close>

definition refresh_size :: "bytes \<Rightarrow> nat \<times> nat \<Rightarrow> bytes + nat \<times> nat" where
  "refresh_size dims client =
    (case (case split_once 120 dims of Some xy \<Rightarrow> Some xy | None \<Rightarrow> split_once 44 dims) of
       Some (x, y) \<Rightarrow> (case dimension (Some x) (fst client) 512 of
           Inl e \<Rightarrow> Inl e
         | Inr cols \<Rightarrow> map_sum id (Pair cols) (dimension (Some y) (snd client) 256))
     | None \<Rightarrow> Inr client)"

definition refresh_spec :: "bytes \<Rightarrow> bytes option \<times> bytes" where
  "refresh_spec spec =
    (if strip_prefix [64] spec \<noteq> None
     then (case split_once 58 spec of Some (t, dims) \<Rightarrow> (Some t, dims) | None \<Rightarrow> (None, spec))
     else (None, spec))"

definition refresh_windows :: "nat \<times> nat \<Rightarrow> nat option \<Rightarrow> ('t, 's, 'f, nat list) mux_action" where
  "refresh_windows dims wid = with_state (\<lambda>s.
     if wid \<noteq> None \<and> wid \<noteq> Some 0
     then (if bt_has (the wid) (mx_windows s) then ret [the wid] else fail (ascii ''can't find window''))
     else and_then (modify (\<lambda>s. s\<lparr>mx_client_size := dims\<rparr>))
       (bind_action (unwrap (map_of (mx_sessions s) (mx_active s))) (\<lambda>ss. ret (sn_windows ss))))"

definition refresh_resize :: "('t, 's) pane_env \<Rightarrow> 'f float_ops \<Rightarrow> bytes \<Rightarrow> ('t, 's, 'f, unit) mux_action" where
  "refresh_resize E F spec = with_state (\<lambda>s.
     bind_action (attempt (refresh_size (snd (refresh_spec spec)) (mx_client_size s))) (\<lambda>dims.
     bind_action (attempt (case fst (refresh_spec spec) of None \<Rightarrow> Inr None | Some t \<Rightarrow> map_sum id Some (numeric_id (tl t)))) (\<lambda>wid.
     bind_action (refresh_windows dims wid) (for_each (set_size E F (fst dims) (snd dims))))))"

definition refresh_flag :: "bytes \<Rightarrow> client_flags \<Rightarrow> client_flags" where
  "refresh_flag spec f =
    (let off = (strip_prefix [33] spec \<noteq> None);
         spec = (case strip_prefix [33] spec of Some r \<Rightarrow> r | None \<Rightarrow> spec);
         (key, val) = (case split_once 61 spec of Some kv \<Rightarrow> kv | None \<Rightarrow> (spec, []))
     in if key = ascii ''no-output'' then f\<lparr>cf_no_output := \<not> off\<rparr>
        else if key = ascii ''wait-exit'' then f\<lparr>cf_wait_exit := \<not> off\<rparr>
        else if key = ascii ''pause-after''
        then f\<lparr>cf_pause := (if \<not> off \<and> 0 \<le> integer val 0 then Some (nat (integer val 0)) else None)\<rparr>
        else f)"

definition refresh_flags :: "args \<Rightarrow> client_flags \<Rightarrow> client_flags" where
  "refresh_flags a f =
    (case (case ar_get CHR ''f'' a of Some v \<Rightarrow> Some v | None \<Rightarrow> ar_get CHR ''F'' a) of
       Some v \<Rightarrow> fold refresh_flag (split_on (\<lambda>c. c = 44) v) f
     | None \<Rightarrow> f)"

definition refresh_gate :: "bytes \<Rightarrow> ('t, 's, 'f, unit) mux_action" where
  "refresh_gate v =
    (case split_once 58 v of
       None \<Rightarrow> ret ()
     | Some (target, act) \<Rightarrow> with_state (\<lambda>s.
         bind_action (attempt (parse_pane_target (Some target) s)) (\<lambda>p.
         and_then
           (if one_of act [''pause'', ''off''] then
              if 4096 \<le> length (mx_pane_gates s) \<and> \<not> bt_has p (mx_pane_gates s) then fail (ascii ''pane gate limit reached'')
              else modify (\<lambda>s. s\<lparr>mx_pane_gates := bt_insert p True (mx_pane_gates s)\<rparr>)
            else modify (\<lambda>s. s\<lparr>mx_pane_gates := bt_remove p (mx_pane_gates s)\<rparr>))
           (if act = ascii ''continue'' then modify (notify (ascii ''%continue %'' @ dec_nat p @ [10])) else ret ()))))"

section \<open>The dispatcher\<close>

text \<open>A handler that changes the multiplexer alone, beside the client's flags.\<close>

definition on_mux :: "('m, 'a) action \<Rightarrow> ('m \<times> 'c, 'a) action" where
  "on_mux m x = (case m (fst x) of (r, s) \<Rightarrow> (r, s, snd x))"

definition cmd_refresh :: "('t, 's) pane_env \<Rightarrow> 'f float_ops \<Rightarrow> args \<Rightarrow> (('t, 's, 'f) mux \<times> client_flags, bytes) action" where
  "cmd_refresh E F a =
     and_then (if ar_has CHR ''C'' a then on_mux (refresh_resize E F (or_empty (ar_get CHR ''C'' a))) else ret ())
     (and_then (modify (map_prod id (refresh_flags a)))
     (on_mux (silent (for_each refresh_gate (case map_of (ar_flags a) (of_char CHR ''A'') of Some vs \<Rightarrow> vs | None \<Rightarrow> [])))))"

definition command_list :: bytes where
  "command_list =
     ascii ''kill-pane [-a] [-t target-pane]'' @ [10] @
     ascii ''new-window [-adkP] [-c start-directory] [-n window-name] [-t target-window]'' @ [10] @
     ascii ''refresh-client [-C XxY] [-t target-client]'' @ [10] @
     ascii ''resize-pane [-DLRTUZ] [-x width] [-y height] [-t target-pane]'' @ [10] @
     ascii ''resize-window [-aADLTUx] [-x width] [-y height] [-t target-window]'' @ [10] @
     ascii ''send-keys [-Hl] [-t target-pane] key ...'' @ [10] @
     ascii ''split-window [-bdfhvP] [-c start-directory] [-t target-pane]''"

definition run_command :: "('t, 's) pane_env \<Rightarrow> 'f float_ops \<Rightarrow> bytes \<Rightarrow> args \<Rightarrow> ('t, 's, 'f, bytes) mux_action" where
  "run_command E F name a =
    (if one_of name [''display-message'', ''display''] then cmd_display E a
     else if one_of name [''list-sessions'', ''list-session'', ''ls''] then cmd_list_sessions E a
     else if one_of name [''list-windows'', ''lsw''] then cmd_list_windows E a
     else if one_of name [''list-panes'', ''lsp''] then cmd_list_panes E a
     else if one_of name [''new-window'', ''neww''] then cmd_new_window E F a
     else if one_of name [''split-window'', ''splitw''] then cmd_split E F a
     else if one_of name [''send-keys'', ''send''] then cmd_send_keys E a
     else if one_of name [''select-pane'', ''selectp''] then cmd_select_pane a
     else if one_of name [''select-window'', ''selectw''] then cmd_select_window a
     else if one_of name [''resize-pane'', ''resizep''] then cmd_resize_pane E F a
     else if one_of name [''resize-window'', ''resizew''] then cmd_resize_window E F a
     else if one_of name [''kill-pane'', ''killp''] then cmd_kill_pane E F a
     else if one_of name [''kill-window'', ''killw'', ''unlink-window'', ''unlinkw''] then cmd_kill_window a
     else if one_of name [''select-layout'', ''selectl''] then cmd_select_layout E F a
     else if one_of name [''swap-pane'', ''swapp''] then cmd_swap E F a
     else if one_of name [''move-pane'', ''movep'', ''join-pane'', ''joinp''] then cmd_move_pane E F a
     else if one_of name [''break-pane'', ''breakp''] then cmd_break_pane E F a
     else if one_of name [''move-window'', ''movew''] then cmd_move_window a
     else if one_of name [''new-session'', ''new''] then cmd_new_session E F a
     else if one_of name [''attach-session'', ''attach''] then cmd_attach a
     else if one_of name [''rename-session'', ''rename''] then cmd_rename_session a
     else if one_of name [''kill-session''] then cmd_kill_session a
     else if one_of name [''rename-window'', ''renamew''] then cmd_rename_window a
     else if one_of name [''set-buffer'', ''setb''] then cmd_set_buffer a
     else if one_of name [''show-buffer'', ''showb''] then cmd_show_buffer a
     else if one_of name [''set-option'', ''set'', ''set-window-option'', ''setw'', ''show-options'', ''show'', ''show-option'',
       ''show-window-options'', ''showw''] then cmd_options name a
     else if one_of name [''capture-pane'', ''capturep''] then cmd_capture E a
     else if one_of name [''list-commands'', ''lscm''] then ret command_list
     else if one_of name [''link-window'', ''linkw'', ''copy-mode'', ''list-keys'', ''lsk'', ''list-clients'', ''lsc'', ''phony-command'',
       ''clear-history'', ''clearhist''] then ret []
     else fail (ascii ''parse error: unknown command: '' @ name))"

definition execute :: "('t, 's) pane_env \<Rightarrow> 'f float_ops \<Rightarrow> bytes list \<Rightarrow> (('t, 's, 'f) mux \<times> client_flags, bytes) action" where
  "execute E F words =
    (case words of
       [] \<Rightarrow> fail (ascii ''missing command'')
     | name # tokens \<Rightarrow>
         let a = args_parse (flag_values name) tokens \<lparr>ar_flags = [], ar_words = []\<rparr> in
         if one_of name [''refresh-client'', ''refresh''] then cmd_refresh E F a else on_mux (run_command E F name a))"

end
