(* ===== verification/Htm_Commands.thy ===== *)
theory Htm_Commands
  imports Htm_Control
begin

text \<open>
  The commands of \<^verbatim>\<open>crates/et-htm/src/control.rs\<close> in a multiplexer that has a session: none of them panics, and each
  keeps the invariant of the multiplexer, also when it answers with an error.
\<close>

section \<open>What is always there\<close>

definition running :: "('t, 's, 'f) mux \<Rightarrow> bool" where
  "running s \<longleftrightarrow> mux_inv s \<and> mx_sessions s \<noteq> []"

abbreviation handled :: "('t, 's, 'f, 'a) mux_action \<Rightarrow> ('t, 's, 'f) mux \<Rightarrow> bool" where
  "handled m s \<equiv> safe mux_inv (\<lambda>_. mux_inv) (m s)"

lemma running_inv: "running s \<Longrightarrow> mux_inv s"
  by (simp add: running_def)

lemma running_notify [simp]: "running (notify text s) = running s"
  by (simp add: running_def) (simp add: notify_def)

lemma session_windows:
  assumes "mux_inv s" "map_of (mx_sessions s) k = Some ss" "i \<in> set (sn_windows ss)"
  obtains w where "map_of (mx_windows s) i = Some w" "wn_session w = k"
  using sessions_okD(2) [OF mux_inv_maps(4) [OF assms(1)] assms(2,3)] by blast

lemma session_active:
  assumes "mux_inv s" "map_of (mx_sessions s) k = Some ss"
  obtains w where "map_of (mx_windows s) (sn_active ss) = Some w" "wn_session w = k"
  using sessions_okD(4) [OF mux_inv_maps(4) [OF assms(1)] assms(2)] session_windows [OF assms] by blast

lemma running_session:
  assumes "running s"
  obtains ss where "map_of (mx_sessions s) (mx_active s) = Some ss"
  using assms mux_inv_maps(2) [of s] by (auto simp: running_def active_ok_def)

lemma running_window:
  assumes "running s"
  obtains w where "map_of (mx_windows s) (active_window s) = Some w"
  using running_session [OF assms] session_active [OF running_inv [OF assms]] by (metis active_window_def option.simps(5))

lemma window_session:
  assumes "mux_inv s" "map_of (mx_windows s) i = Some w"
  obtains ss where "map_of (mx_sessions s) (wn_session w) = Some ss" "i \<in> set (sn_windows ss)"
  using sessions_okD(1) [OF mux_inv_maps(4) [OF assms(1)] assms(2)] by blast

lemma window_running: "mux_inv s \<Longrightarrow> map_of (mx_windows s) i = Some w \<Longrightarrow> running s"
  using mux_inv_window_session [of s i] by (auto simp: running_def)

text \<open>A name that was looked up names something.\<close>

lemma session_target_known: "session_target t s = Inr k \<Longrightarrow> \<exists>ss. map_of (mx_sessions s) k = Some ss"
  by (auto simp: session_target_def bt_has_def split: sum.splits if_splits)

lemma pane_target_known: "pane_target t s = Inr p \<Longrightarrow> \<exists>q. map_of (mx_panes s) p = Some q"
  by (auto simp: pane_target_def bt_has_def split: sum.splits if_splits)

lemma window_target_known: "window_target t s = Inr i \<Longrightarrow> \<exists>w. map_of (mx_windows s) i = Some w"
  by (auto simp: window_target_def bt_has_def split: sum.splits if_splits)

lemma window_of_Inr:
  assumes "mux_inv s" "window_of p s = Inr i"
  obtains w where "map_of (mx_windows s) i = Some w" "p \<in> window_panes w"
  using window_of_safe [OF assms(1), of True p "\<lambda>i. \<exists>w. map_of (mx_windows s) i = Some w \<and> p \<in> window_panes w"] assms(2) by auto

lemma safe_try: "mux_inv s \<Longrightarrow> (\<And>a. x = Inr a \<Longrightarrow> safe mux_inv Q (f a s)) \<Longrightarrow> safe mux_inv Q (bind_action (attempt x) f s)"
  by (simp split: sum.split)

section \<open>Showing\<close>

lemma expand_outcome:
  assumes "mux_inv s"
  shows "\<exists>r. expand (format_one E s session window pane) template = Some r \<and> r \<noteq> Panic"
proof -
  obtain r where r: "expand (format_one E s session window pane) template = Some r" "bounded_text (format_one E s session window pane) r"
    using expand_from_returns [of "[]" "format_one E s session window pane" 0 template] by (auto simp: returns_def expand_def)
  then have "r \<noteq> Panic" using format_one_safe [OF assms, of E session window pane] by (auto simp: bounded_text_def)
  then show ?thesis using r(1) by blast
qed

lemma expand_text_safe:
  assumes "mux_inv s" "X s" "\<And>v. Q v s"
  shows "safe X Q (expand_text E template session window pane s)"
  using expand_outcome [OF assms(1), of E session window pane template] assms(2,3)
  by (auto simp: expand_text_def split: outcome.split)

lemma format_text_safe:
  assumes "mux_inv s" "map_of (mx_windows s) i = Some w" "X s" "\<And>v. Q v s"
  shows "safe X Q (format_text E template i pane s)"
  using assms by (simp add: format_text_def expand_text_safe)

lemma list_row_outcome: "list_row out row \<noteq> Panic"
  by (simp add: list_row_def fmt_append_def)

lemma finish_list_outcome: "finish_list out \<noteq> Panic"
  by (simp add: finish_list_def fmt_append_def)

lemma add_row_safe: "safe X (\<lambda>_. X) (row s) \<Longrightarrow> safe X (\<lambda>_. X) (add_row row out s)"
  unfolding add_row_def safe_bind
  by (erule safe_mono) (use list_row_outcome in \<open>auto split: outcome.split\<close>)

text \<open>A list reads the state alone.\<close>

lemma fold_rows_safe:
  assumes "\<And>x out. x \<in> set xs \<Longrightarrow> safe (\<lambda>s'. s' = s) (\<lambda>_ s'. s' = s) (f x out s)" "mux_inv s"
  shows "safe mux_inv (\<lambda>_. mux_inv) (bind_action (fold_action f xs []) (\<lambda>out. of_outcome (finish_list out)) s)"
  unfolding safe_bind
  by (rule safe_mono [OF safe_fold_action [of "\<lambda>s'. s' = s" s xs "\<lambda>s'. s' = s" f]])
    (use assms finish_list_outcome in \<open>auto split: outcome.split\<close>)

lemma cmd_display_safe:
  assumes "running s"
  shows "handled (cmd_display E a) s"
proof -
  note inv = running_inv [OF assms]
  have act: "\<exists>w. map_of (mx_windows s) (sn_active ss) = Some w" if "map_of (mx_sessions s) k = Some ss" for k ss
    using session_active [OF inv that] by blast
  have "safe (\<lambda>s'. s' = s) (\<lambda>_ s'. s' = s) (display_target t s)" for t
    unfolding display_target_def safe_with_state
    by (auto simp: Let_def dest: act split: option.split sum.split)
  then show ?thesis unfolding cmd_display_def safe_bind
    by (rule safe_mono) (use inv in \<open>auto intro: expand_text_safe\<close>)
qed

lemma cmd_list_sessions_safe:
  assumes "running s"
  shows "handled (cmd_list_sessions E a) s"
  unfolding cmd_list_sessions_def safe_with_state using running_inv [OF assms]
  by (intro fold_rows_safe add_row_safe expand_text_safe) auto

lemma cmd_list_windows_safe:
  assumes "running s"
  shows "handled (cmd_list_windows E a) s"
proof -
  note inv = running_inv [OF assms]
  have list: "handled (bind_action (fold_action (\<lambda>w. add_row (with_state (\<lambda>s. bind_action (unwrap (map_of (mx_windows s) w)) (\<lambda>window.
      format_text E t w (wn_active window))))) (sn_windows ss) []) (\<lambda>out. of_outcome (finish_list out))) s"
    if ses: "map_of (mx_sessions s) k = Some ss" for k ss t
  proof (rule fold_rows_safe [OF add_row_safe inv])
    fix i assume "i \<in> set (sn_windows ss)"
    then obtain w where "map_of (mx_windows s) i = Some w" using session_windows [OF inv ses] by blast
    then show "safe (\<lambda>s'. s' = s) (\<lambda>_ s'. s' = s) (with_state (\<lambda>s. bind_action (unwrap (map_of (mx_windows s) i)) (\<lambda>window. format_text E t i (wn_active window))) s)"
      using inv by (simp add: format_text_safe)
  qed
  obtain sa where sa: "map_of (mx_sessions s) (mx_active s) = Some sa" by (rule running_session [OF assms])
  show ?thesis
    unfolding cmd_list_windows_def using inv sa list [OF sa] list session_target_known [of "target_session a" s]
    by (auto split: sum.split)
qed

lemma list_window_panes_safe:
  assumes "mux_inv s" "map_of (mx_windows s) i = Some w"
  shows "safe (\<lambda>s'. s' = s) (\<lambda>_ s'. s' = s) (list_window_panes E a i out s)"
proof -
  have "safe (\<lambda>s'. s' = s) (\<lambda>_ s'. s' = s) (fold_action (\<lambda>p. add_row (format_text E t i p)) ps [] s)" for t ps
    by (rule safe_fold_action) (use assms in \<open>auto intro!: add_row_safe intro: format_text_safe\<close>)
  then show ?thesis unfolding list_window_panes_def safe_with_state safe_bind safe_unwrap assms(2) option.case
    by (rule safe_mono) (use list_row_outcome in \<open>auto split: outcome.split\<close>)
qed

lemma cmd_list_panes_safe:
  assumes "running s"
  shows "handled (cmd_list_panes E a) s"
proof -
  note inv = running_inv [OF assms]
  have list: "handled (bind_action (fold_action (list_window_panes E a) ws []) (\<lambda>out. of_outcome (finish_list out))) s"
    if known: "\<forall>i \<in> set ws. \<exists>w. map_of (mx_windows s) i = Some w" for ws
    by (rule fold_rows_safe) (use list_window_panes_safe [OF inv] known inv in blast)+
  obtain sa where sa: "map_of (mx_sessions s) (mx_active s) = Some sa" by (rule running_session [OF assms])
  have all: "\<forall>i \<in> set (sn_windows sa). \<exists>w. map_of (mx_windows s) i = Some w" using session_windows [OF inv sa] by blast
  obtain wa where wa: "map_of (mx_windows s) (active_window s) = Some wa" by (rule running_window [OF assms])
  have one: "\<exists>w. map_of (mx_windows s) (if bt_has i (mx_windows s) then i else (case window_of i s of Inr w \<Rightarrow> w | Inl e \<Rightarrow> active_window s)) = Some w" for i
    using wa window_of_Inr [OF inv, of i] by (auto simp: bt_has_def split: sum.split)
  let ?chosen = "\<lambda>i. if bt_has i (mx_windows s) then i else (case window_of i s of Inr w \<Rightarrow> w | Inl e \<Rightarrow> active_window s)"
  have single: "handled (bind_action (fold_action (list_window_panes E a) [?chosen i] []) (\<lambda>out. of_outcome (finish_list out))) s" for i
    by (rule list) (use one in simp)
  show ?thesis unfolding cmd_list_panes_def Let_def safe_with_state
  proof (rule safe_try [OF inv])
    fix i
    show "handled (bind_action (if ar_has CHR ''a'' a then bind_action (unwrap (map_of (mx_sessions s) (mx_active s))) (\<lambda>ss. ret (sn_windows ss)) else ret [?chosen i])
        (\<lambda>ws. bind_action (fold_action (list_window_panes E a) ws []) (\<lambda>out. of_outcome (finish_list out)))) s"
      using sa list [OF all] single [of i] by (cases "ar_has CHR ''a'' a") (simp_all del: fold_action.simps)
  qed
qed

lemma cmd_capture_safe: "running s \<Longrightarrow> handled (cmd_capture E a) s"
  using running_inv [of s] by (auto simp: cmd_capture_def mux_inv_set_pane split: sum.split option.split prod.split)

lemma cmd_show_buffer_safe: "running s \<Longrightarrow> handled (cmd_show_buffer a) s"
  by (simp add: cmd_show_buffer_def running_def)

section \<open>Changing\<close>

lemma safe_silent [simp]: "safe X Q (silent m s) = safe X (\<lambda>_. Q []) (m s)"
  by (simp add: silent_def)

lemma redraw_window_safe:
  assumes "mux_inv s" "map_of (mx_windows s) i = Some w"
  shows "safe X (\<lambda>_ s'. settled s s') (redraw E F i s)"
  using mux_inv_redraw [OF assms, of X E F] by (simp add: redraw_def)

text \<open>A window is changed without its panes and its session, and drawn again.\<close>

definition same_panes :: "'f htm_window \<Rightarrow> 'f htm_window \<Rightarrow> bool" where
  "same_panes w w' \<longleftrightarrow> wn_session w' = wn_session w \<and> window_panes w' = window_panes w \<and> (window_fine w \<longrightarrow> window_fine w')"

lemma set_window_running:
  assumes "running s" "map_of (mx_windows s) i = Some w" "same_panes w w'"
  shows "running (set_window i w' s)"
proof -
  have "mux_inv_but {} {} (set_window i w' s)"
    by (rule mux_inv_set_window_same [OF _ assms(2)]) (use assms mux_inv_window(1) [OF running_inv [OF assms(1)] assms(2)] in \<open>auto simp: same_panes_def running_def mux_inv_def\<close>)
  then show ?thesis using assms(1) by (simp add: running_def mux_inv_def)
qed

lemma set_and_redraw_safe:
  assumes "running s" "map_of (mx_windows s) i = Some w" "same_panes w w'"
  shows "safe X (\<lambda>_. running) (redraw E F i (set_window i w' s))"
proof -
  have r: "running (set_window i w' s)" by (rule set_window_running [OF assms])
  have "map_of (mx_windows (set_window i w' s)) i = Some w'" using assms(2) by simp
  from redraw_window_safe [OF running_inv [OF r] this] show ?thesis
    by (rule safe_mono) (use r mux_inv_settled in \<open>auto simp: running_def settledD(2)\<close>)
qed

lemma session_entry_ok:
  assumes ok: "sessions_ok W S" and k: "S k = Some ss" and x: "sn_windows x = sn_windows ss" "sn_active x \<in> set (sn_windows ss)"
  shows "sessions_ok W (S(k \<mapsto> x))"
  unfolding sessions_ok_but_def
proof (intro conjI allI impI)
  fix j w assume "W j = Some w"
  from sessions_okD(1) [OF ok this] show "wn_session w \<in> dom (S(k \<mapsto> x))" by auto
next
  fix j y assume y: "(S(k \<mapsto> x)) j = Some y"
  show "lists_members W j y" "sn_active y \<in> set (sn_windows y)"
    using y x sessions_okD(3) [OF ok, of j] sessions_okD(4) [OF ok, of j] k by (auto simp: lists_members_def split: if_splits)
qed

lemma activate_window_safe:
  assumes "running s" "map_of (mx_windows s) i = Some w" "\<And>s'. running s' \<Longrightarrow> Q () s'"
  shows "safe X Q (activate_window (wn_session w) i s)"
proof -
  note inv = running_inv [OF assms(1)]
  obtain ss where ss: "map_of (mx_sessions s) (wn_session w) = Some ss" "i \<in> set (sn_windows ss)" by (rule window_session [OF inv assms(2)])
  from session_entry_ok [OF mux_inv_maps(4) [OF inv] ss(1), of "ss\<lparr>sn_active := i\<rparr>"] ss(2)
  have "mux_inv (s\<lparr>mx_sessions := bt_update (wn_session w) (\<lambda>ss. ss\<lparr>sn_active := i\<rparr>) (mx_sessions s)\<rparr>)"
    using mux_inv_maps [OF inv] ss by (intro mux_invI) (auto simp: ids_ok_def active_ok_def)
  then show ?thesis using ss assms by (simp add: activate_window_def running_def)
qed

lemma cmd_new_window_safe:
  assumes "running s"
  shows "handled (cmd_new_window E F a) s"
proof -
  obtain ss where ss: "map_of (mx_sessions s) (mx_active s) = Some ss" by (rule running_session [OF assms])
  have "mux_inv_but {} {mx_active s} s" using running_inv [OF assms] mux_inv_but_mono [of "{}" "{}" s] by (simp add: mux_inv_def)
  then show ?thesis unfolding cmd_new_window_def safe_bind
    by (rule new_window_safe) (use ss running_inv [OF assms] in \<open>auto intro: format_text_safe\<close>)
qed

lemma cmd_split_safe:
  assumes "running s"
  shows "handled (cmd_split E F a) s"
  unfolding cmd_split_def safe_with_state
proof (rule safe_try [OF running_inv [OF assms]])
  fix p
  show "handled (bind_action (mux_split E F p (ar_has CHR ''h'' a \<and> \<not> ar_has CHR ''v'' a) (ar_get CHR ''c'' a)) (\<lambda>p.
     if ar_has CHR ''P'' a
     then with_state (\<lambda>s. bind_action (attempt (window_of p s)) (\<lambda>w. expand_text E (print_or a ''#{pane_id}'') (mx_active s) (Some w) (Some p)))
     else ret [])) s"
    unfolding safe_bind
    by (rule safe_mono [OF mux_split_safe [OF running_inv [OF assms]]]) (auto intro: expand_text_safe split: sum.split)
qed

lemma cmd_send_keys_safe: "running s \<Longrightarrow> handled (cmd_send_keys E a) s"
  using running_inv [of s] pane_target_known [of "ar_get CHR ''t'' a" s]
  by (auto simp: cmd_send_keys_def mux_inv_set_pane split: sum.split prod.split)

lemma cmd_select_pane_safe:
  assumes "running s"
  shows "handled (cmd_select_pane a) s"
  unfolding cmd_select_pane_def safe_with_state
proof (intro safe_try running_inv [OF assms])
  note inv = running_inv [OF assms]
  fix p i assume p: "pane_target (ar_get CHR ''t'' a) s = Inr p" and i: "window_of p s = Inr i"
  obtain q where q: "map_of (mx_panes s) p = Some q" using pane_target_known [OF p] by blast
  obtain w where w: "map_of (mx_windows s) i = Some w" "p \<in> window_panes w" by (rule window_of_Inr [OF inv i])
  have "running (set_window i (w\<lparr>wn_active := p\<rparr>) s)"
    by (rule set_window_running [OF assms w(1)]) (use w in \<open>auto simp: same_panes_def window_panes_def window_fine_def\<close>)
  then have "safe mux_inv (\<lambda>_. mux_inv) (activate_window (wn_session (w\<lparr>wn_active := p\<rparr>)) i (set_window i (w\<lparr>wn_active := p\<rparr>) s))"
    by (rule activate_window_safe) (use w running_inv in auto)
  then show "handled (if ar_has CHR ''T'' a then
       bind_action (unwrap (map_of (mx_panes s) p)) (\<lambda>pane. silent (modify (set_pane p (pane\<lparr>pn_title := or_empty (ar_get CHR ''T'' a)\<rparr>))))
     else
       bind_action (unwrap (map_of (mx_windows s) i)) (\<lambda>window.
       and_then (modify (set_window i (window\<lparr>wn_active := p\<rparr>)))
       (and_then (activate_window (wn_session window) i)
       (silent (modify (notify (ascii ''%window-pane-changed @'' @ dec_nat i @ ascii '' %'' @ dec_nat p @ [10]))))))) s"
    using q w inv by (simp add: mux_inv_set_pane)
qed

lemma cmd_select_window_safe:
  assumes "running s"
  shows "handled (cmd_select_window a) s"
  unfolding cmd_select_window_def safe_with_state
proof (rule safe_try [OF running_inv [OF assms]])
  fix i assume "window_target (ar_get CHR ''t'' a) s = Inr i"
  then obtain w where w: "map_of (mx_windows s) i = Some w" using window_target_known by blast
  show "handled (bind_action (unwrap (map_of (mx_windows s) i)) (\<lambda>window. and_then (activate_window (wn_session window) i)
     (silent (modify (notify (ascii ''%session-window-changed $'' @ dec_nat (wn_session window) @ ascii '' @'' @ dec_nat i @ [10])))))) s"
    using w running_inv by (auto intro!: activate_window_safe [OF assms])
qed

lemma set_size_safe:
  assumes "running s" "map_of (mx_windows s) i = Some w"
  shows "safe X (\<lambda>_ s'. running s' \<and> dom (map_of (mx_windows s')) = dom (map_of (mx_windows s))) (set_size E F cols rows i s)"
proof -
  let ?w = "w\<lparr>wn_rect := \<lparr>r_cols = cols, r_rows = rows, r_x = 0, r_y = 0\<rparr>\<rparr>"
  have r: "running (set_window i ?w s)"
    by (rule set_window_running [OF assms]) (simp add: same_panes_def window_panes_def window_fine_def)
  have "map_of (mx_windows (set_window i ?w s)) i = Some ?w" using assms(2) by simp
  from redraw_window_safe [OF running_inv [OF r] this]
  have "safe X (\<lambda>_ s'. running s' \<and> dom (map_of (mx_windows s')) = dom (map_of (mx_windows s))) (redraw E F i (set_window i ?w s))"
    by (rule safe_mono) (use r mux_inv_settled assms(2) in \<open>auto simp: running_def settledD(1,2)\<close>)
  then show ?thesis using assms(2) by (simp add: set_size_def)
qed

lemma cmd_resize_pane_safe:
  assumes "running s"
  shows "handled (cmd_resize_pane E F a) s"
proof -
  note inv = running_inv [OF assms]
  have "handled (cmd_resize_pane E F a) s" if pi: "pane_target (ar_get CHR ''t'' a) s = Inr p" "window_of p s = Inr i" for p i
  proof -
    obtain w where w: "map_of (mx_windows s) i = Some w" "p \<in> window_panes w" by (rule window_of_Inr [OF inv pi(2)])
    have zoom: "safe mux_inv (\<lambda>_. mux_inv) (redraw E F i (set_window i (zoom_window p w) s))"
      by (rule safe_mono [OF set_and_redraw_safe [OF assms w(1)]])
        (use w(2) running_inv in \<open>auto simp: same_panes_def zoom_window_def window_panes_def window_fine_def\<close>)
    show ?thesis using pi w(1) zoom inv resize_pane_safe [OF inv] resize_direction_safe [OF inv]
      by (simp add: cmd_resize_pane_def split: sum.split option.split)
  qed
  then show ?thesis using inv by (cases "pane_target (ar_get CHR ''t'' a) s"; cases "window_of (projr (pane_target (ar_get CHR ''t'' a) s)) s")
    (simp_all add: cmd_resize_pane_def split: sum.split)
qed

lemma cmd_resize_window_safe:
  assumes "running s"
  shows "handled (cmd_resize_window E F a) s"
  unfolding cmd_resize_window_def safe_with_state
proof (intro safe_try running_inv [OF assms], unfold safe_silent)
  fix i cols rows assume "window_target (ar_get CHR ''t'' a) s = Inr i"
  then obtain w where "map_of (mx_windows s) i = Some w" using window_target_known by blast
  then show "handled (set_size E F cols rows i) s"
    by (rule safe_mono [OF set_size_safe [OF assms]]) (use running_inv in auto)
qed

lemma cmd_select_layout_safe:
  assumes "running s"
  shows "handled (cmd_select_layout E F a) s"
  unfolding cmd_select_layout_def safe_with_state
proof (rule safe_try [OF running_inv [OF assms]], goal_cases)
  case (1 i)
  then obtain w where w: "map_of (mx_windows s) i = Some w" using window_target_known by blast
  have "safe mux_inv (\<lambda>_. mux_inv) (redraw E F i (set_window i (w\<lparr>wn_layout := layout_select F name (wn_layout w)\<rparr>) s))" for name
  proof (rule safe_mono [OF set_and_redraw_safe [OF assms w]])
    show "same_panes w (w\<lparr>wn_layout := layout_select F name (wn_layout w)\<rparr>)"
      using layout_select_spec [of "wn_layout w" F name] mux_inv_window(1) [OF running_inv [OF assms] w]
      by (auto simp: same_panes_def window_panes_def window_fine_def)
  qed (use running_inv in auto)
  then show ?case using w running_inv [OF assms] by simp
qed

lemma cmd_kill_pane_safe: "running s \<Longrightarrow> handled (cmd_kill_pane E F a) s"
  using mux_close_safe [of s E F] by (auto simp: cmd_kill_pane_def running_def split: sum.split)

lemma cmd_kill_window_safe: "running s \<Longrightarrow> handled (cmd_kill_window a) s"
  using close_window_safe [of s mux_inv] by (auto simp: cmd_kill_window_def running_def split: sum.split)

lemma cmd_swap_safe: "running s \<Longrightarrow> handled (cmd_swap E F a) s"
  using mux_swap_safe [of s E F] by (auto simp: cmd_swap_def running_def split: sum.split)

lemma cmd_move_pane_safe: "running s \<Longrightarrow> handled (cmd_move_pane E F a) s"
  using move_pane_safe [of s E F] by (auto simp: cmd_move_pane_def running_def split: sum.split)

lemma cmd_move_window_safe: "running s \<Longrightarrow> handled (cmd_move_window a) s"
  using move_window_safe [of s] by (auto simp: cmd_move_window_def running_def split: sum.split)

lemma cmd_break_pane_safe:
  assumes "running s"
  shows "handled (cmd_break_pane E F a) s"
  unfolding cmd_break_pane_def safe_with_state
proof (rule safe_try [OF running_inv [OF assms]], unfold safe_bind, goal_cases)
  case (1 p)
  have b: "safe mux_inv (\<lambda>_ s'. mux_inv s' \<and> mx_sessions s' \<noteq> []) (break_pane E F p s)"
    by (rule break_pane_safe) (use assms in \<open>auto simp: running_def\<close>)
  show ?case
  proof (rule safe_mono [OF b], assumption, goal_cases)
    case (1 i s')
    then obtain w where "map_of (mx_windows s') (active_window s') = Some w" using running_window [of s'] by (auto simp: running_def)
    then have "\<exists>w. map_of (mx_windows s') (if bt_has i (mx_windows s') then i else active_window s') = Some w" by (auto simp: bt_has_def)
    then show ?case using 1 by (auto simp: Let_def intro: expand_text_safe)
  qed
qed

lemma session_changed_running:
  assumes "mux_inv s" "map_of (mx_sessions s) k = Some ss"
  shows "safe X (\<lambda>_. mux_inv) (session_changed (s\<lparr>mx_active := k\<rparr>))"
proof -
  have "mux_inv (s\<lparr>mx_active := k\<rparr>)" by (rule mux_inv_set_active) (use assms in auto)
  then show ?thesis by (intro session_changed_safe) (use assms mux_inv_settled in auto)
qed

lemma cmd_new_session_safe:
  assumes "running s"
  shows "handled (cmd_new_session E F a) s"
  unfolding cmd_new_session_def safe_bind
  by (rule safe_mono [OF new_session_safe [OF running_inv [OF assms]]])
    (use assms session_changed_running in \<open>auto simp: running_def\<close>)

lemma cmd_attach_safe: "running s \<Longrightarrow> handled (cmd_attach a) s"
  using session_target_known [of "target_session a" s] session_changed_running
  by (auto simp: cmd_attach_def running_def split: sum.split)

lemma cmd_rename_session_safe:
  assumes "running s"
  shows "handled (cmd_rename_session a) s"
  unfolding cmd_rename_session_def safe_with_state
proof (rule safe_try [OF running_inv [OF assms]], goal_cases)
  case (1 k)
  note inv = running_inv [OF assms]
  from 1 obtain ss where ss: "map_of (mx_sessions s) k = Some ss" using session_target_known by blast
  have "mux_inv (s\<lparr>mx_sessions := bt_update k (\<lambda>ss. ss\<lparr>sn_name := name\<rparr>) (mx_sessions s)\<rparr>)" for name
    using session_entry_ok [OF mux_inv_maps(4) [OF inv] ss, of "ss\<lparr>sn_name := name\<rparr>"] sessions_okD(4) [OF mux_inv_maps(4) [OF inv] ss]
      mux_inv_maps [OF inv] ss
    by (intro mux_invI) (auto simp: ids_ok_def active_ok_def)
  then show ?case using ss by simp
qed

lemma cmd_kill_session_safe:
  assumes "running s"
  shows "handled (cmd_kill_session a) s"
proof -
  have "safe mux_inv (\<lambda>_. mux_inv) (for_each close_window ws s)" for ws
    by (rule safe_for_each) (use running_inv [OF assms] close_window_safe in auto)
  then show ?thesis using running_inv [OF assms] by (auto simp: cmd_kill_session_def split: sum.split option.split)
qed

lemma cmd_rename_window_safe:
  assumes "running s"
  shows "handled (cmd_rename_window a) s"
  unfolding cmd_rename_window_def safe_with_state
proof (rule safe_try [OF running_inv [OF assms]], goal_cases)
  case (1 i)
  then obtain w where w: "map_of (mx_windows s) i = Some w" using window_target_known by blast
  have "mux_inv (set_window i (w\<lparr>wn_name := name, wn_automatic_rename := False\<rparr>) s)" for name
    by (intro running_inv set_window_running [OF assms w]) (simp add: same_panes_def window_panes_def window_fine_def)
  then show ?case using w by simp
qed

lemma mux_inv_buffers [simp]: "mux_inv (s\<lparr>mx_buffers := g\<rparr>) = mux_inv s"
  by (simp add: mux_inv_def mux_inv_but_def ids_ok_def active_ok_def)

lemma mux_inv_client_size [simp]: "mux_inv (s\<lparr>mx_client_size := g\<rparr>) = mux_inv s"
  by (simp add: mux_inv_def mux_inv_but_def ids_ok_def active_ok_def)

lemma cmd_set_buffer_safe: "running s \<Longrightarrow> handled (cmd_set_buffer a) s"
  by (simp add: cmd_set_buffer_def Let_def running_def)

lemma cmd_options_safe: "running s \<Longrightarrow> handled (cmd_options name a) s"
  by (auto simp: cmd_options_def put_option_def Let_def running_def split: sum.split)

lemmas command_safe =
  cmd_display_safe cmd_list_sessions_safe cmd_list_windows_safe cmd_list_panes_safe cmd_new_window_safe cmd_split_safe
  cmd_send_keys_safe cmd_select_pane_safe cmd_select_window_safe cmd_resize_pane_safe cmd_resize_window_safe cmd_kill_pane_safe
  cmd_kill_window_safe cmd_select_layout_safe cmd_swap_safe cmd_move_pane_safe cmd_break_pane_safe cmd_move_window_safe
  cmd_new_session_safe cmd_attach_safe cmd_rename_session_safe cmd_kill_session_safe cmd_rename_window_safe cmd_set_buffer_safe
  cmd_show_buffer_safe cmd_options_safe cmd_capture_safe

lemma run_command_safe: "running s \<Longrightarrow> handled (run_command E F name a) s"
  unfolding run_command_def by (simp add: command_safe running_inv)

section \<open>The client\<close>

lemma refresh_windows_safe:
  assumes "running s"
  shows "safe mux_inv (\<lambda>ws s'. running s' \<and> set ws \<subseteq> dom (map_of (mx_windows s'))) (refresh_windows dims wid s)"
proof -
  obtain ss where ss: "map_of (mx_sessions s) (mx_active s) = Some ss" by (rule running_session [OF assms])
  then have "set (sn_windows ss) \<subseteq> dom (map_of (mx_windows s))" using session_windows [OF running_inv [OF assms] ss] by blast
  then show ?thesis using ss assms by (auto simp: refresh_windows_def bt_has_iff running_def)
qed

lemma refresh_resize_safe:
  assumes "running s"
  shows "safe mux_inv (\<lambda>_. running) (refresh_resize E F spec s)"
  unfolding refresh_resize_def safe_with_state
proof (intro safe_try running_inv [OF assms], unfold safe_bind, rule safe_mono [OF refresh_windows_safe [OF assms]], assumption, goal_cases)
  case (1 dims wid ws s')
  have "safe mux_inv (\<lambda>_ s1. running s1 \<and> dom (map_of (mx_windows s1)) = dom (map_of (mx_windows s')))
      (for_each (set_size E F (fst dims) (snd dims)) ws s')"
  proof (rule safe_for_each, goal_cases)
    case (2 i s1)
    then obtain w where w: "running s1" "map_of (mx_windows s1) i = Some w" using 1 by blast
    show ?case by (rule safe_mono [OF set_size_safe [OF w]]) (use 2 in auto)
  qed (use 1 in auto)
  then show ?case by (rule safe_mono) auto
qed

lemma refresh_gate_safe: "mux_inv s \<Longrightarrow> handled (refresh_gate v) s"
  by (auto simp: refresh_gate_def split: option.split sum.split)

lemma safe_on_mux [simp]: "safe X Q (on_mux m x) = safe (\<lambda>s. X (s, snd x)) (\<lambda>a s. Q a (s, snd x)) (m (fst x))"
  by (simp add: safe_def on_mux_def split: prod.split outcome.split)

lemma cmd_refresh_safe:
  assumes "running s"
  shows "safe (\<lambda>x. mux_inv (fst x)) (\<lambda>_ x. mux_inv (fst x)) (cmd_refresh E F a (s, flags))"
proof -
  have gates: "safe mux_inv (\<lambda>_. mux_inv) (for_each refresh_gate vs s')" if "mux_inv s'" for vs and s' :: "('a, 'b, 'c) mux"
    by (rule safe_for_each) (use that refresh_gate_safe in auto)
  have "safe mux_inv (\<lambda>_. handled (for_each refresh_gate vs)) (refresh_resize E F spec s)" for spec vs
    by (rule safe_mono [OF refresh_resize_safe [OF assms]]) (use gates in \<open>auto simp: running_def\<close>)
  then show ?thesis using gates running_inv [OF assms] by (simp add: cmd_refresh_def)
qed

lemma execute_safe:
  assumes "running s"
  shows "safe (\<lambda>x. mux_inv (fst x)) (\<lambda>_ x. mux_inv (fst x)) (execute E F words (s, flags))"
  using run_command_safe [OF assms, of E F] cmd_refresh_safe [OF assms, of E F] running_inv [OF assms]
  by (simp add: execute_def Let_def split: list.split)

text \<open>C36: No command makes the multiplexer panic, whatever its words and whatever the terminals answer, and each leaves panes,
  windows and sessions consistent, also when it fails halfway: in a multiplexer with a session, every command ends with an
  answer or an error and every pane is in exactly one window, every window in its session, and the active ones exist.\<close>

theorem commands_keep_mux:
  assumes "mux_inv s" "mx_sessions s \<noteq> []"
  shows "fst (execute E F words (s, flags)) \<noteq> Panic \<and> mux_inv (fst (snd (execute E F words (s, flags))))"
  using execute_safe [of s E F words flags] assms
  by (auto simp: safe_def running_def split: prod.splits outcome.splits)

theorem commands_keep_mux_witness:
  "fst (execute sample_env sample_floats [ascii ''split-window'', ascii ''-h''] (sample_mux, \<lparr>cf_no_output = False, cf_pause = None, cf_wait_exit = False\<rparr>)) \<noteq> Panic \<and>
   mux_inv (fst (snd (execute sample_env sample_floats [ascii ''split-window'', ascii ''-h''] (sample_mux, \<lparr>cf_no_output = False, cf_pause = None, cf_wait_exit = False\<rparr>))))"
proof -
  have "mx_sessions sample_mux \<noteq> []" by code_simp
  from commands_keep_mux [OF sample_mux_inv this] show ?thesis .
qed

end
