(* ===== verification/Spec2Isabelle.thy ===== *)
theory Spec2Isabelle
  imports Keys Terminal_Buffer Keepalive Session Queue_Contents Output_Window Socks Handshake Connection Recovery Htm_Commands
begin

text \<open>
  A verification library for et.rs, a Rust implementation of Eternal Terminal: a remote shell whose
  connection survives network failures.
\<close>

end
